(* ===== verification/Prelude.thy ===== *)
theory Prelude
  imports Main "HOL-Library.Word" "HOL-Library.Sublist"
begin

text \<open>
  Shared vocabulary of the development: the machine integers of the C++ sources, the theorem
  collections the component theories extend, and the list, map and word lemmas that more than one
  component needs.  Nothing here models a file of the repository; it is the library under the
  component theories.
\<close>

unbundle bit_operations_syntax

section \<open>Machine integers\<close>

text \<open>
  \<^verbatim>\<open>uint8_t\<close>, \<^verbatim>\<open>uint16_t\<close>, \<^verbatim>\<open>uint32_t\<close> and \<^verbatim>\<open>uint64_t\<close> are words; lengths of objects in memory
  (\<^verbatim>\<open>size_t\<close>) are \<open>nat\<close> wherever no arithmetic on attacker-supplied values is done, and
  \<^typ>\<open>64 word\<close> where it is.
\<close>

type_synonym u8 = "8 word"
type_synonym u16 = "16 word"
type_synonym u32 = "32 word"
type_synonym u64 = "64 word"

section \<open>Theorem collections\<close>

named_theorems list_simps \<open>facts on list segments (\<open>take\<close>, \<open>drop\<close>, overwriting) used by the buffer-like components\<close>
named_theorems inv_intros \<open>operations keep the invariant of their component\<close>

section \<open>Lists\<close>

text \<open>Storing a block of elements at an index of an array of fixed size (\<^verbatim>\<open>memcpy\<close> into a vector).\<close>

definition overwrite :: "'a list \<Rightarrow> nat \<Rightarrow> 'a list \<Rightarrow> 'a list" where
  "overwrite xs i ys = take i xs @ ys @ drop (i + length ys) xs"

lemma length_overwrite [simp, list_simps]:
  "i + length ys \<le> length xs \<Longrightarrow> length (overwrite xs i ys) = length xs"
  by (simp add: overwrite_def)

lemma take_overwrite [list_simps]:
  "i + length ys \<le> length xs \<Longrightarrow> take i (overwrite xs i ys) = take i xs"
  by (simp add: overwrite_def)

lemma take_overwrite_end [list_simps]:
  "i + length ys \<le> length xs \<Longrightarrow> take (i + length ys) (overwrite xs i ys) = take i xs @ ys"
  by (simp add: overwrite_def)

lemma overwrite_Nil [simp, list_simps]: "overwrite xs i [] = xs"
  by (simp add: overwrite_def)

text \<open>The half-open segment \<open>xs[i..<j]\<close> of a list.\<close>

definition segment :: "nat \<Rightarrow> nat \<Rightarrow> 'a list \<Rightarrow> 'a list" where
  "segment i j xs = drop i (take j xs)"

lemma length_segment [simp, list_simps]: "j \<le> length xs \<Longrightarrow> length (segment i j xs) = j - i"
  by (simp add: segment_def)

lemma segment_empty [simp, list_simps]: "j \<le> i \<Longrightarrow> segment i j xs = []"
  by (simp add: segment_def)

lemma drop_segment [list_simps]: "drop n (segment i j xs) = segment (i + n) j xs"
  by (simp add: segment_def add.commute)

lemma segment_overwrite_end [list_simps]:
  "i \<le> j \<Longrightarrow> j + length ys \<le> length xs \<Longrightarrow>
     segment i (j + length ys) (overwrite xs j ys) = segment i j xs @ ys"
  by (simp add: segment_def take_overwrite_end)

lemma segment_append [list_simps]:
  "j \<le> length xs \<Longrightarrow> segment i j (xs @ ys) = segment i j xs"
  by (simp add: segment_def)

lemma segment_eq_take: "segment i j xs = take (j - i) (drop i xs)"
  by (simp add: segment_def drop_take)

section \<open>Option and map\<close>

lemma map_option_plus_Some [simp]:
  "map_option ((+) k) x = Some n \<longleftrightarrow> k \<le> n \<and> x = Some (n - k)" for k n :: nat
  by (cases x) auto

lemma map_option_plus_0 [simp]: "map_option ((+) (0::nat)) x = x"
  by (cases x) auto

lemma map_option_Suc_plus [simp]:
  "map_option Suc (map_option ((+) k) x) = map_option ((+) (Suc k)) x"
  by (cases x) auto

section \<open>Words\<close>

lemma bit_small: "x < 2 ^ n \<Longrightarrow> n \<le> i \<Longrightarrow> \<not> bit (x :: 'a::len word) i"
  by (metis bit_and_iff bit_mask_iff leD less_mask_eq)

lemma drop_bit_small: "x < 2 ^ n \<Longrightarrow> drop_bit n (x :: 'a::len word) = 0"
  by (rule bit_word_eqI) (simp add: bit_drop_bit_eq bit_small)

lemma of_nat_less_word_iff: "n < 2 ^ 64 \<Longrightarrow> (of_nat n :: u64) < w \<longleftrightarrow> n < unat w"
  by (simp add: word_less_nat_alt unat_of_nat)

lemma of_nat_le_word_iff: "n < 2 ^ 64 \<Longrightarrow> (of_nat n :: u64) \<le> w \<longleftrightarrow> n \<le> unat w"
  by (simp add: word_le_nat_alt unat_of_nat)

lemma unat_plus_small: "unat (a :: u64) + unat b < 2 ^ 64 \<Longrightarrow> unat (a + b) = unat a + unat b"
  by (simp add: unat_plus_if')

end
