(* ===== verification/CppString.thy ===== *)
theory CppString
  imports Prelude
begin

text \<open>
  The part of \<^verbatim>\<open>std::string\<close> and of the C character and number routines the HTTP sources use:
  \<^verbatim>\<open>find\<close> (of a character and of a substring), \<^verbatim>\<open>substr\<close>, \<^verbatim>\<open>tolower\<close>, \<^verbatim>\<open>find_first_not_of\<close>,
  \<^verbatim>\<open>std::to_string\<close> and \<^verbatim>\<open>std::stoul\<close>.  \<^verbatim>\<open>npos\<close> is \<open>None\<close>, and so is a thrown exception of
  \<^verbatim>\<open>stoul\<close>.  A string is a list of bytes, as \<^verbatim>\<open>std::string\<close> is.
\<close>

abbreviation CR :: char where "CR \<equiv> CHR 0x0D"
abbreviation LF :: char where "LF \<equiv> CHR 0x0A"
abbreviation CRLF :: string where "CRLF \<equiv> [CR, LF]"
abbreviation SP :: char where "SP \<equiv> CHR '' ''"

section \<open>Searching\<close>

fun index_of :: "char \<Rightarrow> string \<Rightarrow> nat option" where
  "index_of c [] = None"
| "index_of c (x # xs) = (if x = c then Some 0 else map_option Suc (index_of c xs))"

text \<open>\<^verbatim>\<open>s.find(c, pos)\<close>: the first index not below \<open>pos\<close>.\<close>

definition find_char :: "char \<Rightarrow> string \<Rightarrow> nat \<Rightarrow> nat option" where
  "find_char c s pos = (if pos \<le> length s then map_option ((+) pos) (index_of c (drop pos s)) else None)"

text \<open>\<^verbatim>\<open>c_str()\<close>, as a C function reads it.\<close>

definition c_str :: "string \<Rightarrow> string" where
  "c_str s = takeWhile (\<lambda>c. c \<noteq> CHR 0x00) s"

definition starts_with :: "string \<Rightarrow> string \<Rightarrow> bool" where
  "starts_with p s \<longleftrightarrow> take (length p) s = p"

fun index_sub :: "string \<Rightarrow> string \<Rightarrow> nat option" where
  "index_sub p [] = (if p = [] then Some 0 else None)"
| "index_sub p (x # xs) =
     (if starts_with p (x # xs) then Some 0 else map_option Suc (index_sub p xs))"

text \<open>\<^verbatim>\<open>s.find(p, pos)\<close> for a string \<open>p\<close>.\<close>

definition find_str :: "string \<Rightarrow> string \<Rightarrow> nat \<Rightarrow> nat option" where
  "find_str p s pos = (if pos \<le> length s then map_option ((+) pos) (index_sub p (drop pos s)) else None)"

text \<open>\<^verbatim>\<open>s.find(p) != npos\<close> and \<^verbatim>\<open>s.find(p) == 0\<close>.\<close>

definition contains :: "string \<Rightarrow> string \<Rightarrow> bool" where
  "contains p s \<longleftrightarrow> index_sub p s \<noteq> None"

text \<open>\<^verbatim>\<open>s.substr(pos, n)\<close> and \<^verbatim>\<open>s.substr(pos)\<close>; every call in the sources has \<open>pos \<le> s.size()\<close>.\<close>

definition substr :: "string \<Rightarrow> nat \<Rightarrow> nat \<Rightarrow> string" where
  "substr s pos n = take n (drop pos s)"

definition substr_from :: "string \<Rightarrow> nat \<Rightarrow> string" where
  "substr_from s pos = drop pos s"

text \<open>
  The idiom \<^verbatim>\<open>start = v.find_first_not_of(' '); if (start != npos) v = v.substr(start)\<close>: leading
  spaces are dropped unless the whole string is spaces.
\<close>

definition trim_leading :: "string \<Rightarrow> string" where
  "trim_leading v = (let w = dropWhile (\<lambda>c. c = SP) v in if w = [] then v else w)"

subsection \<open>Laws of searching\<close>

lemma index_of_None [simp]: "index_of c s = None \<longleftrightarrow> c \<notin> set s"
  by (induction s) auto

lemma index_of_fresh [simp]: "c \<notin> set s \<Longrightarrow> index_of c s = None"
  by simp

lemma index_of_Some_bound: "index_of c s = Some i \<Longrightarrow> i < length s"
  by (induction s arbitrary: i) (auto split: if_splits)

lemma index_of_Some_nth: "index_of c s = Some i \<Longrightarrow> s ! i = c"
  by (induction s arbitrary: i) (auto split: if_splits)

lemma index_of_Some_take: "index_of c s = Some i \<Longrightarrow> c \<notin> set (take i s)"
  by (induction s arbitrary: i) (auto split: if_splits)

lemma index_of_append_fresh [simp]:
  "c \<notin> set a \<Longrightarrow> index_of c (a @ b) = map_option ((+) (length a)) (index_of c b)"
  by (induction a) auto

lemma index_of_split: "index_of c s = Some i \<Longrightarrow> s = take i s @ c # drop (Suc i) s"
  by (metis id_take_nth_drop index_of_Some_bound index_of_Some_nth)

lemma find_char_0 [simp]: "find_char c s 0 = index_of c s"
  by (simp add: find_char_def option.map_ident)

lemma find_char_bound: "find_char c s pos = Some i \<Longrightarrow> pos \<le> i \<and> i < length s"
  by (auto simp: find_char_def dest: index_of_Some_bound split: if_splits)

lemma starts_with_Nil [simp]: "starts_with [] s"
  by (simp add: starts_with_def)

lemma starts_with_Cons [simp]:
  "starts_with (p # ps) s \<longleftrightarrow> (case s of [] \<Rightarrow> False | x # xs \<Rightarrow> x = p \<and> starts_with ps xs)"
  by (auto simp: starts_with_def split: list.splits)

lemma starts_with_append [simp]: "starts_with p (p @ s)"
  by (simp add: starts_with_def)

lemma starts_with_iff_append: "starts_with p s \<longleftrightarrow> (\<exists>t. s = p @ t)"
  by (metis append_eq_conv_conj append_take_drop_id starts_with_def)

lemma index_sub_starts [simp]: "starts_with p s \<Longrightarrow> index_sub p s = Some 0"
  by (cases s) (auto simp: starts_with_def)

lemma index_sub_bound: "index_sub p s = Some i \<Longrightarrow> i + length p \<le> length s"
proof (induction s arbitrary: i)
  case Nil
  then show ?case by (simp split: if_splits)
next
  case (Cons x xs)
  have "length p \<le> length (x # xs)" if "starts_with p (x # xs)"
    using that by (metis starts_with_iff_append le_add1 length_append)
  with Cons show ?case by (fastforce split: if_splits)
qed

lemma index_sub_split: "index_sub p s = Some i \<Longrightarrow> s = take i s @ p @ drop (i + length p) s"
proof (induction s arbitrary: i)
  case Nil
  then show ?case by (simp split: if_splits)
next
  case (Cons x xs)
  show ?case
  proof (cases "starts_with p (x # xs)")
    case True
    with Cons.prems have "i = 0" by simp
    with True show ?thesis by (metis append_take_drop_id self_append_conv2 starts_with_def take0 add_0)
  next
    case False
    with Cons.prems obtain j where j: "i = Suc j" "index_sub p xs = Some j" by auto
    then show ?thesis using Cons.IH [OF j(2)] by simp
  qed
qed

text \<open>A character that starts the pattern and does not occur in a prefix lets the search skip it.\<close>

lemma index_sub_skip [simp]:
  "c \<notin> set a \<Longrightarrow> index_sub (c # p) (a @ b) = map_option ((+) (length a)) (index_sub (c # p) b)"
  by (induction a) auto

lemma index_sub_absent [simp]: "c \<notin> set a \<Longrightarrow> index_sub (c # p) a = None"
  by (induction a) auto

lemma find_str_0 [simp]: "find_str p s 0 = index_sub p s"
  by (simp add: find_str_def option.map_ident)

lemma find_str_bound: "find_str p s pos = Some i \<Longrightarrow> pos \<le> i \<and> i + length p \<le> length s"
  by (auto simp: find_str_def dest: index_sub_bound split: if_splits)

subsection \<open>Trimming\<close>

lemma trim_leading_SP [simp]: "v \<noteq> [] \<Longrightarrow> hd v \<noteq> SP \<Longrightarrow> trim_leading (SP # v) = v"
  by (cases v) (auto simp: trim_leading_def)

section \<open>Character case\<close>

text \<open>\<^verbatim>\<open>std::tolower\<close> in the C locale, applied to a byte.\<close>

definition tolower_char :: "char \<Rightarrow> char" where
  "tolower_char c = (let n = of_char c :: nat in if 65 \<le> n \<and> n \<le> 90 then char_of (n + 32) else c)"

definition tolower :: "string \<Rightarrow> string" where
  "tolower = map tolower_char"

lemma of_char_tolower_char:
  "of_char (tolower_char c) = (let n = of_char c :: nat in if 65 \<le> n \<and> n \<le> 90 then n + 32 else n)"
  by (auto simp: tolower_char_def Let_def)

lemma tolower_char_idem [simp]: "tolower_char (tolower_char c) = tolower_char c"
proof -
  have "of_char (tolower_char (tolower_char c)) = (of_char (tolower_char c) :: nat)"
    by (simp add: of_char_tolower_char Let_def)
  then show ?thesis by simp
qed

lemma tolower_idem [simp]: "tolower (tolower s) = tolower s"
  by (simp add: tolower_def)

lemma length_tolower [simp]: "length (tolower s) = length s"
  by (simp add: tolower_def)

section \<open>Decimal numbers\<close>

definition digit_char :: "nat \<Rightarrow> char" where
  "digit_char d = char_of (48 + d)"

definition is_digit :: "char \<Rightarrow> bool" where
  "is_digit c \<longleftrightarrow> (let n = of_char c :: nat in 48 \<le> n \<and> n \<le> 57)"

definition digit_val :: "char \<Rightarrow> nat" where
  "digit_val c = of_char c - 48"

text \<open>\<^verbatim>\<open>std::to_string\<close> of an unsigned value.\<close>

fun to_string :: "nat \<Rightarrow> string" where
  "to_string n = (if n < 10 then [digit_char n] else to_string (n div 10) @ [digit_char (n mod 10)])"

declare to_string.simps [simp del]

text \<open>The same of a signed value, which is also the conversion \<^verbatim>\<open>%d\<close>.\<close>

definition int_to_string :: "int \<Rightarrow> string" where
  "int_to_string n = (if n < 0 then CHR ''-'' # to_string (nat (- n)) else to_string (nat n))"

definition is_space :: "char \<Rightarrow> bool" where
  "is_space c \<longleftrightarrow> (let n = of_char c :: nat in n = 32 \<or> (9 \<le> n \<and> n \<le> 13))"

definition digits_value :: "string \<Rightarrow> nat" where
  "digits_value ds = foldl (\<lambda>acc c. 10 * acc + digit_val c) 0 ds"

text \<open>
  \<^verbatim>\<open>std::stoul(s)\<close>: leading white space, an optional sign, then the longest run of digits.  No digit
  throws \<^verbatim>\<open>invalid_argument\<close>, a magnitude above \<^verbatim>\<open>ULONG_MAX\<close> throws \<^verbatim>\<open>out_of_range\<close>, and a minus
  sign negates modulo \<open>2 ^ 64\<close> (as \<^verbatim>\<open>strtoul\<close> does).  What follows the digits is ignored.
\<close>

definition strip_sign :: "string \<Rightarrow> bool \<times> string" where
  "strip_sign t = (case t of
       [] \<Rightarrow> (False, [])
     | c # r \<Rightarrow> if c = CHR ''-'' then (True, r) else if c = CHR ''+'' then (False, r) else (False, t))"

definition stoul :: "string \<Rightarrow> nat option" where
  "stoul s =
     (let (neg, u) = strip_sign (dropWhile is_space s);
          ds = takeWhile is_digit u;
          v = digits_value ds
      in if ds = [] then None
         else if v \<ge> 2 ^ 64 then None
         else Some (if neg then (2 ^ 64 - v) mod 2 ^ 64 else v))"

lemma of_char_digit_char [simp]: "d < 10 \<Longrightarrow> of_char (digit_char d) = 48 + d"
  by (simp add: digit_char_def)

lemma is_digit_digit_char [simp]: "d < 10 \<Longrightarrow> is_digit (digit_char d)"
  by (simp add: is_digit_def Let_def)

lemma digit_val_digit_char [simp]: "d < 10 \<Longrightarrow> digit_val (digit_char d) = d"
  by (simp add: digit_val_def)

lemma to_string_nonempty [simp]: "to_string n \<noteq> []"
  by (subst to_string.simps) simp

lemma to_string_digits: "\<forall>c \<in> set (to_string n). is_digit c"
proof (induction n rule: to_string.induct)
  case (1 n)
  then show ?case by (subst to_string.simps) auto
qed

lemma digits_value_snoc [simp]: "digits_value (ds @ [c]) = 10 * digits_value ds + digit_val c"
  by (simp add: digits_value_def)

lemma digits_value_to_string [simp]: "digits_value (to_string n) = n"
proof (induction n rule: to_string.induct)
  case (1 n)
  show ?case
  proof (cases "n < 10")
    case True
    then show ?thesis by (subst to_string.simps) (simp add: digits_value_def)
  next
    case False
    with 1 show ?thesis by (subst to_string.simps) simp
  qed
qed

lemma not_digit_space_sign:
  "is_digit c \<Longrightarrow> \<not> is_space c \<and> c \<noteq> CHR ''-'' \<and> c \<noteq> CHR ''+''"
  by (auto simp: is_digit_def is_space_def Let_def)

text \<open>Printing a length and reading it back (\<^verbatim>\<open>Content-Length\<close>) is the identity below \<open>2 ^ 64\<close>.\<close>

lemma strip_sign_to_string [simp]: "strip_sign (to_string n) = (False, to_string n)"
proof -
  obtain c cs where t: "to_string n = c # cs" by (cases "to_string n") auto
  with to_string_digits [of n] have "is_digit c" by auto
  from not_digit_space_sign [OF this] show ?thesis by (simp add: strip_sign_def t)
qed

lemma dropWhile_space_to_string [simp]: "dropWhile is_space (to_string n) = to_string n"
proof -
  obtain c cs where t: "to_string n = c # cs" by (cases "to_string n") auto
  with to_string_digits [of n] have "is_digit c" by auto
  from not_digit_space_sign [OF this] show ?thesis by (simp add: t)
qed

lemma takeWhile_digit_to_string [simp]: "takeWhile is_digit (to_string n) = to_string n"
  using to_string_digits by (simp add: takeWhile_eq_all_conv)

lemma stoul_to_string: "n < 2 ^ 64 \<Longrightarrow> stoul (to_string n) = Some n"
  by (simp add: stoul_def)

text \<open>What the numbers printed into a header never contain.\<close>

lemma to_string_not_digit [simp]: "\<not> is_digit c \<Longrightarrow> c \<notin> set (to_string n)"
  using to_string_digits by blast

lemma hd_to_string_not_SP [simp]: "hd (to_string n) \<noteq> SP"
  using to_string_digits [of n] not_digit_space_sign [of "hd (to_string n)"]
  by (auto simp: is_space_def Let_def)

lemma not_is_digit [simp]:
  "\<not> is_digit CR" "\<not> is_digit LF" "\<not> is_digit SP" "\<not> is_digit CHR '':''"
  by (simp_all add: is_digit_def)

section \<open>Lines\<close>

text \<open>
  The loop with which the HTTP sources walk a block of lines: from \<open>pos\<close> find the next \<^verbatim>\<open>CRLF\<close> (or the
  end), hand the line over, and go on two bytes later.
\<close>

function lines_loop :: "(string \<Rightarrow> 'a \<Rightarrow> 'a) \<Rightarrow> string \<Rightarrow> nat \<Rightarrow> 'a \<Rightarrow> 'a" where
  "lines_loop f s pos acc =
     (if pos < length s
      then let lineEnd = (case find_str CRLF s pos of None \<Rightarrow> length s | Some e \<Rightarrow> e)
           in lines_loop f s (lineEnd + 2) (f (substr s pos (lineEnd - pos)) acc)
      else acc)"
  by pat_completeness auto
termination
proof (relation "measure (\<lambda>(f, s, pos, acc). length s - pos)", goal_cases)
  case (2 f s pos acc lineEnd)
  then have "pos \<le> lineEnd" using find_str_bound [of CRLF s pos] by (auto split: option.splits)
  then show ?case using 2(1) by simp
qed simp

declare lines_loop.simps [simp del]

text \<open>Lines separated by \<^verbatim>\<open>CRLF\<close>, without a final one.\<close>

fun join_lines :: "string list \<Rightarrow> string" where
  "join_lines [] = []"
| "join_lines [l] = l"
| "join_lines (l # ls) = l @ CRLF @ join_lines ls"

definition line_ok :: "string \<Rightarrow> bool" where
  "line_ok l \<longleftrightarrow> l \<noteq> [] \<and> CR \<notin> set l"

lemma join_lines_Cons: "ls \<noteq> [] \<Longrightarrow> join_lines (l # ls) = l @ CRLF @ join_lines ls"
  by (cases ls) auto

lemma join_lines_nonempty: "ls \<noteq> [] \<Longrightarrow> list_all line_ok ls \<Longrightarrow> join_lines ls \<noteq> [] \<and> hd (join_lines ls) \<noteq> CR"
  by (cases ls rule: join_lines.cases) (auto simp: line_ok_def hd_append dest: hd_in_set)

lemma lines_loop_shift:
  "lines_loop f (a @ s) (length a + pos) acc = lines_loop f s pos acc"
proof (induction f s pos acc rule: lines_loop.induct)
  case (1 f s pos acc)
  show ?case
  proof (cases "pos < length s")
    case True
    define e where "e = (case find_str CRLF s pos of None \<Rightarrow> length s | Some e \<Rightarrow> e)"
    have fs: "find_str CRLF (a @ s) (length a + pos) = map_option ((+) (length a)) (find_str CRLF s pos)"
      using True by (cases "index_sub CRLF (drop pos s)") (simp_all add: find_str_def)
    have e: "(case find_str CRLF (a @ s) (length a + pos) of None \<Rightarrow> length (a @ s) | Some e \<Rightarrow> e) = length a + e"
      by (simp add: fs e_def split: option.split)
    have sub: "substr (a @ s) (length a + pos) (length a + e - (length a + pos)) = substr s pos (e - pos)"
      by (simp add: substr_def)
    have "lines_loop f s pos acc = lines_loop f s (e + 2) (f (substr s pos (e - pos)) acc)"
      using True by (subst lines_loop.simps) (simp add: e_def Let_def)
    moreover have "lines_loop f (a @ s) (length a + pos) acc =
        lines_loop f (a @ s) (length a + e + 2) (f (substr s pos (e - pos)) acc)"
      using True by (subst lines_loop.simps) (simp only: e sub Let_def, simp)
    ultimately show ?thesis
      using 1 [OF True refl] by (simp add: e_def add.assoc)
  qed (subst (1 2) lines_loop.simps, simp)
qed

text \<open>On clean lines the loop is a fold.\<close>

lemma lines_loop_join:
  "list_all line_ok ls \<Longrightarrow> lines_loop f (join_lines ls) 0 acc = fold f ls acc"
proof (induction ls arbitrary: acc rule: join_lines.induct)
  case 1
  then show ?case by (simp add: lines_loop.simps)
next
  case (2 l)
  then have "0 < length l" "index_sub CRLF l = None" by (auto simp: line_ok_def)
  then have "lines_loop f l 0 acc = lines_loop f l (length l + 2) (f l acc)"
    by (subst lines_loop.simps) (simp add: substr_def)
  also have "\<dots> = f l acc" by (subst lines_loop.simps) simp
  finally show ?case by simp
next
  case (3 l m ls)
  let ?r = "join_lines (m # ls)"
  have l: "l \<noteq> []" "CR \<notin> set l" using 3 by (auto simp: line_ok_def)
  then have ix: "index_sub CRLF (l @ CRLF @ ?r) = Some (length l)" by simp
  have "lines_loop f (l @ CRLF @ ?r) 0 acc = lines_loop f (l @ CRLF @ ?r) (length l + 2) (f l acc)"
    by (subst lines_loop.simps) (simp only: find_str_0 ix, simp add: substr_def)
  also have "\<dots> = lines_loop f ((l @ CRLF) @ ?r) (length (l @ CRLF) + 0) (f l acc)" by simp
  also have "\<dots> = lines_loop f ?r 0 (f l acc)" by (rule lines_loop_shift)
  finally show ?case using 3 by simp
qed

text \<open>The blank line that ends a block of clean lines is found at its end.\<close>

lemma blank_line_found:
  "ls \<noteq> [] \<Longrightarrow> list_all line_ok ls \<Longrightarrow>
     index_sub [CR, LF, CR, LF] (join_lines ls @ [CR, LF, CR, LF] @ rest) = Some (length (join_lines ls))"
proof (induction ls rule: join_lines.induct)
  case (3 l m ls)
  let ?r = "join_lines (m # ls) @ [CR, LF, CR, LF] @ rest"
  have r: "join_lines (m # ls) \<noteq> []" "hd (join_lines (m # ls)) \<noteq> CR"
    using join_lines_nonempty [of "m # ls"] 3 by simp_all
  then obtain x xs where x: "join_lines (m # ls) = x # xs" "x \<noteq> CR" by (cases "join_lines (m # ls)") auto
  have "index_sub [CR, LF, CR, LF] (CRLF @ ?r) = map_option ((+) 2) (index_sub [CR, LF, CR, LF] ?r)"
    using x by (simp add: option.map_comp o_def)
  moreover have "index_sub [CR, LF, CR, LF] ?r = Some (length (join_lines (m # ls)))" using 3 by simp
  moreover have "CR \<notin> set l" using 3 by (simp add: line_ok_def)
  ultimately show ?case by simp
qed (auto simp: line_ok_def)

lemma concat_lines: "ls \<noteq> [] \<Longrightarrow> concat (map (\<lambda>l. l @ CRLF) ls) = join_lines ls @ CRLF"
  by (induction ls rule: join_lines.induct) auto

text \<open>An occurrence found in a prefix is the one found in the whole string.\<close>

lemma index_sub_prefix: "index_sub p a = Some i \<Longrightarrow> index_sub p (a @ b) = Some i"
proof (induction a arbitrary: i)
  case Nil
  then show ?case by (simp split: if_splits)
next
  case (Cons x xs)
  show ?case
  proof (cases "starts_with p (x # xs)")
    case True
    then have "starts_with p (x # xs @ b)" by (metis append_Cons append_assoc starts_with_iff_append)
    with True Cons.prems show ?thesis by simp
  next
    case False
    with Cons.prems obtain j where j: "i = Suc j" "index_sub p xs = Some j" by auto
    have "length p \<le> length (x # xs)" using index_sub_bound [OF j(2)] by simp
    with False have "\<not> starts_with p (x # xs @ b)" by (metis append_Cons starts_with_def take_append append_Nil2 diff_is_0_eq' take0)
    with Cons.IH [OF j(2)] j(1) show ?thesis by simp
  qed
qed

lemma index_of_takeWhile: "index_of c s = Some i \<Longrightarrow> take i s = takeWhile (\<lambda>x. x \<noteq> c) s"
  by (induction s arbitrary: i) (auto split: if_splits)

section \<open>Header fields\<close>

text \<open>A printed field, and the fields that survive printing and parsing.\<close>

definition field_line :: "string \<times> string \<Rightarrow> string" where
  "field_line kv = (case kv of (k, v) \<Rightarrow> k @ '': '' @ v)"

definition field_ok :: "string \<times> string \<Rightarrow> bool" where
  "field_ok kv \<longleftrightarrow> (case kv of (k, v) \<Rightarrow>
     CHR '':'' \<notin> set k \<and> CR \<notin> set k \<and> v \<noteq> [] \<and> hd v \<noteq> SP \<and> CR \<notin> set v)"

fun put_field :: "string \<times> string \<Rightarrow> (string \<rightharpoonup> string) \<Rightarrow> (string \<rightharpoonup> string)" where
  "put_field (k, v) m = m(tolower k \<mapsto> v)"

lemma field_line_ok: "field_ok kv \<Longrightarrow> line_ok (field_line kv)"
  by (cases kv) (auto simp: field_ok_def field_line_def line_ok_def)

lemma fields_lines_ok: "list_all field_ok kvs \<Longrightarrow> list_all line_ok (map field_line kvs)"
  by (induction kvs) (auto simp: field_line_ok)

lemma put_fields_other:
  "\<forall>kv \<in> set kvs. tolower (fst kv) \<noteq> key \<Longrightarrow> fold put_field kvs m key = m key"
  by (induction kvs arbitrary: m) auto

lemma is_digit_minus: "\<not> is_digit (CHR ''-'')"
  by (simp add: is_digit_def)

lemma int_to_string_inj: "int_to_string i = int_to_string j \<Longrightarrow> i = j"
proof -
  assume eq: "int_to_string i = int_to_string j"
  have nat: "m = n" if "to_string m = to_string n" for m n
    using arg_cong [OF that, of digits_value] by simp
  have minus: "CHR ''-'' # xs \<noteq> to_string n" for xs n
    using to_string_not_digit [of "CHR ''-''" n] by (metis is_digit_minus list.set_intros(1))
  have "(i < 0) = (j < 0)" using eq minus minus [symmetric] by (auto simp: int_to_string_def split: if_splits)
  then show ?thesis using eq nat by (force simp: int_to_string_def split: if_splits)
qed

lemma length_to_string: "n < 10 ^ k \<Longrightarrow> 0 < k \<Longrightarrow> length (to_string n) \<le> k"
proof (induction n arbitrary: k rule: to_string.induct)
  case (1 n)
  show ?case
  proof (cases "n < 10")
    case True
    then show ?thesis using 1 by (subst to_string.simps) simp
  next
    case False
    obtain k' where k: "k = Suc k'" using 1(3) by (cases k) auto
    have k0: "0 < k'" using 1(2) False k by (cases k') auto
    have "n div 10 < 10 ^ k'" using 1(2) k by (simp add: div_less_iff_less_mult mult.commute)
    then have "length (to_string (n div 10)) \<le> k'" using 1(1) False k0 by blast
    then show ?thesis using False k by (subst to_string.simps) simp
  qed
qed

lemma to_string_field_ok: "CHR '':'' \<notin> set k \<Longrightarrow> CR \<notin> set k \<Longrightarrow> field_ok (k, to_string n)"
  by (simp add: field_ok_def)

lemma takeWhile_absent: "c \<notin> set s \<Longrightarrow> takeWhile (\<lambda>x. x \<noteq> c) s = s"
  by (induction s) auto

end
