(* ===== verification/NetBuffer.thy ===== *)
theory NetBuffer
  imports Prelude
begin

text \<open>
  \<^verbatim>\<open>src/net/Buffer.h\<close> and \<^verbatim>\<open>src/net/Buffer.cc\<close>: the growing byte buffer under every connection.
  The state is the vector with its two indices; the abstraction is the readable segment.  The
  theory shows that the index invariant holds after every operation, that no operation touches
  memory outside the vector, and that the buffer is a first-in first-out byte queue (the contract
  \<open>byte_queue\<close> that the connection layer relies on).
\<close>

section \<open>State and operations\<close>

record buffer =
  bufferVec :: "char list"
  readerIndex :: nat
  writerIndex :: nat

definition kCheapPrepend :: nat where "kCheapPrepend = 8"
definition kInitialSize :: nat where "kInitialSize = 1024"

definition Buffer_new :: "nat \<Rightarrow> buffer" where
  "Buffer_new initialSize =
     \<lparr>bufferVec = replicate (initialSize + kCheapPrepend) (CHR 0x00),
      readerIndex = kCheapPrepend, writerIndex = kCheapPrepend\<rparr>"

definition readableBytes :: "buffer \<Rightarrow> nat" where
  "readableBytes b = writerIndex b - readerIndex b"

definition writableBytes :: "buffer \<Rightarrow> nat" where
  "writableBytes b = length (bufferVec b) - writerIndex b"

definition prependableBytes :: "buffer \<Rightarrow> nat" where
  "prependableBytes b = readerIndex b"

text \<open>The bytes a pointer returned by \<^verbatim>\<open>peek()\<close> can reach before the vector ends.\<close>

definition peek :: "buffer \<Rightarrow> string" where
  "peek b = drop (readerIndex b) (bufferVec b)"

text \<open>
  \<^verbatim>\<open>std::copy(first, last, dst)\<close> inside one array, element by element from the front; source and
  destination may overlap.
\<close>

function copy_forward :: "'a list \<Rightarrow> nat \<Rightarrow> nat \<Rightarrow> nat \<Rightarrow> 'a list" where
  "copy_forward xs s e d =
     (if s < e then copy_forward (xs[d := xs ! s]) (Suc s) e (Suc d) else xs)"
  by pat_completeness auto
termination
  by (relation "measure (\<lambda>(xs, s, e, d). e - s)") auto

declare copy_forward.simps [simp del]

text \<open>\<^verbatim>\<open>std::vector::resize\<close>: a new tail is zero-filled.\<close>

definition vector_resize :: "char list \<Rightarrow> nat \<Rightarrow> char list" where
  "vector_resize xs n = take n xs @ replicate (n - length xs) (CHR 0x00)"

definition makeSpace :: "buffer \<Rightarrow> nat \<Rightarrow> buffer" where
  "makeSpace b len =
     (if writableBytes b + prependableBytes b < len + kCheapPrepend
      then b\<lparr>bufferVec := vector_resize (bufferVec b) (writerIndex b + len)\<rparr>
      else let readable = readableBytes b in
        b\<lparr>bufferVec := copy_forward (bufferVec b) (readerIndex b) (writerIndex b) kCheapPrepend,
          readerIndex := kCheapPrepend,
          writerIndex := kCheapPrepend + readable\<rparr>)"

definition retrieveAll :: "buffer \<Rightarrow> buffer" where
  "retrieveAll b = b\<lparr>readerIndex := kCheapPrepend, writerIndex := kCheapPrepend\<rparr>"

definition retrieve :: "buffer \<Rightarrow> nat \<Rightarrow> buffer" where
  "retrieve b len =
     (if len < readableBytes b then b\<lparr>readerIndex := readerIndex b + len\<rparr> else retrieveAll b)"

text \<open>
  \<^verbatim>\<open>std::string str(peek(), len)\<close> reads \<open>len\<close> bytes from the reader index on, whatever the writer
  index is; past the end of the vector the read is undefined behaviour (\<open>None\<close>).
\<close>

definition retrieveAsString :: "buffer \<Rightarrow> nat \<Rightarrow> (string \<times> buffer) option" where
  "retrieveAsString b len =
     (if len \<le> length (peek b) then Some (take len (peek b), retrieve b len) else None)"

definition retrieveAllAsString :: "buffer \<Rightarrow> (string \<times> buffer) option" where
  "retrieveAllAsString b = retrieveAsString b (readableBytes b)"

definition ensureWritableBytes :: "buffer \<Rightarrow> nat \<Rightarrow> buffer" where
  "ensureWritableBytes b len = (if writableBytes b < len then makeSpace b len else b)"

definition Buffer_append :: "buffer \<Rightarrow> string \<Rightarrow> buffer" where
  "Buffer_append b data =
     (let b' = ensureWritableBytes b (length data) in
      b'\<lparr>bufferVec := overwrite (bufferVec b') (writerIndex b') data,
         writerIndex := writerIndex b' + length data\<rparr>)"

text \<open>
  \<^verbatim>\<open>readFd\<close>.  The kernel is a parameter: \<open>readv\<close> receives the total capacity of the segments it is
  given and answers with an \<^verbatim>\<open>errno\<close> or with the bytes it stored, first into the writable part of the
  vector and then into the 64 KB \<^verbatim>\<open>extrabuf\<close>.
\<close>

definition kExtraBuf :: nat where "kExtraBuf = 65536"

definition readv_capacity :: "buffer \<Rightarrow> nat" where
  "readv_capacity b =
     (if writableBytes b < kExtraBuf then writableBytes b + kExtraBuf else writableBytes b)"

definition readFd :: "(nat \<Rightarrow> nat + string) \<Rightarrow> buffer \<Rightarrow> (nat + nat) \<times> buffer" where
  "readFd readv b =
     (let writable = writableBytes b in
      case readv (readv_capacity b) of
        Inl err \<Rightarrow> (Inl err, b)
      | Inr bs \<Rightarrow>
          (let n = length bs;
               stored = overwrite (bufferVec b) (writerIndex b) (take writable bs) in
           if n \<le> writable
           then (Inr n, b\<lparr>bufferVec := stored, writerIndex := writerIndex b + n\<rparr>)
           else (Inr n, Buffer_append (b\<lparr>bufferVec := stored, writerIndex := length stored\<rparr>)
                          (drop writable bs))))"

text \<open>\<^verbatim>\<open>writeFd\<close> hands the readable bytes to \<^verbatim>\<open>write(2)\<close> and leaves the buffer alone.\<close>

definition writeFd :: "(string \<Rightarrow> nat + nat) \<Rightarrow> buffer \<Rightarrow> nat + nat" where
  "writeFd write b = write (take (readableBytes b) (peek b))"

section \<open>Invariant and abstraction\<close>

definition Buffer_inv :: "buffer \<Rightarrow> bool" where
  "Buffer_inv b \<longleftrightarrow>
     kCheapPrepend \<le> readerIndex b \<and> readerIndex b \<le> writerIndex b \<and>
     writerIndex b \<le> length (bufferVec b)"

definition contents :: "buffer \<Rightarrow> string" where
  "contents b = segment (readerIndex b) (writerIndex b) (bufferVec b)"

lemmas buffer_defs = readableBytes_def writableBytes_def prependableBytes_def Buffer_inv_def contents_def

lemma length_contents [simp]: "Buffer_inv b \<Longrightarrow> length (contents b) = readableBytes b"
  by (simp add: buffer_defs)

lemma contents_eq_peek: "contents b = take (readableBytes b) (peek b)"
  by (simp add: buffer_defs peek_def segment_eq_take)

lemma Buffer_new_inv [inv_intros]: "Buffer_inv (Buffer_new n)"
  by (simp add: Buffer_new_def buffer_defs)

lemma contents_new [simp]: "contents (Buffer_new n) = []"
  by (simp add: Buffer_new_def buffer_defs)

section \<open>The overlapping copy is a block move\<close>

lemma segment_list_update_left [list_simps]:
  "d < i \<Longrightarrow> segment i j (xs[d := x]) = segment i j xs"
  by (simp add: segment_def take_update_swap)

lemma segment_step: "i < j \<Longrightarrow> j \<le> length xs \<Longrightarrow> segment i j xs = xs ! i # segment (Suc i) j xs"
  by (simp add: segment_def Cons_nth_drop_Suc [symmetric] nth_take)

lemma length_copy_forward [simp]: "length (copy_forward xs s e d) = length xs"
proof (induction xs s e d rule: copy_forward.induct)
  case (1 xs s e d)
  then show ?case by (subst copy_forward.simps) simp
qed

lemma copy_forward_block:
  assumes "d \<le> s" and "s \<le> e" and "e \<le> length xs"
  shows "copy_forward xs s e d = overwrite xs d (segment s e xs)"
  using assms
proof (induction xs s e d rule: copy_forward.induct)
  case (1 xs s e d)
  show ?case
  proof (cases "s < e")
    case True
    let ?ys = "xs[d := xs ! s]"
    from True obtain k where k: "e = s + Suc k" using less_iff_Suc_add by auto
    have "copy_forward xs s e d = copy_forward ?ys (Suc s) e (Suc d)"
      using True by (subst copy_forward.simps) simp
    also have "\<dots> = overwrite ?ys (Suc d) (segment (Suc s) e xs)"
      using 1 True by (simp add: segment_list_update_left)
    also have "\<dots> = overwrite xs d (segment s e xs)"
      using True 1(2,4)
      by (simp add: overwrite_def take_Suc_conv_app_nth upd_conv_take_nth_drop k segment_step
          add.commute)
    finally show ?thesis .
  next
    case False
    with 1(3) show ?thesis by (subst copy_forward.simps) simp
  qed
qed

section \<open>Making room\<close>

lemma Buffer_inv_makeSpace [inv_intros]: "Buffer_inv b \<Longrightarrow> Buffer_inv (makeSpace b len)"
  by (auto simp: makeSpace_def buffer_defs vector_resize_def Let_def)

lemma contents_makeSpace [simp]: "Buffer_inv b \<Longrightarrow> contents (makeSpace b len) = contents b"
proof -
  assume inv: "Buffer_inv b"
  let ?r = "readerIndex b" and ?w = "writerIndex b" and ?B = "bufferVec b"
  have move: "copy_forward ?B ?r ?w kCheapPrepend = overwrite ?B kCheapPrepend (segment ?r ?w ?B)"
    using inv by (intro copy_forward_block) (auto simp: Buffer_inv_def)
  have len: "length (segment ?r ?w ?B) = ?w - ?r" using inv by (simp add: Buffer_inv_def)
  have "kCheapPrepend + (?w - ?r) \<le> length ?B" using inv unfolding Buffer_inv_def by linarith
  then have "segment kCheapPrepend (kCheapPrepend + (?w - ?r)) (overwrite ?B kCheapPrepend (segment ?r ?w ?B)) =
    segment ?r ?w ?B"
    using segment_overwrite_end [of kCheapPrepend kCheapPrepend "segment ?r ?w ?B" ?B] inv len
    by (simp add: Buffer_inv_def)
  with inv show ?thesis
    by (auto simp: makeSpace_def buffer_defs vector_resize_def Let_def move segment_append min_def)
qed

lemma writableBytes_makeSpace:
  "Buffer_inv b \<Longrightarrow> writableBytes b < len \<Longrightarrow> len \<le> writableBytes (makeSpace b len)"
  by (auto simp: makeSpace_def buffer_defs vector_resize_def Let_def)

lemma Buffer_inv_ensure [inv_intros]: "Buffer_inv b \<Longrightarrow> Buffer_inv (ensureWritableBytes b len)"
  by (simp add: ensureWritableBytes_def Buffer_inv_makeSpace)

lemma contents_ensure [simp]: "Buffer_inv b \<Longrightarrow> contents (ensureWritableBytes b len) = contents b"
  by (simp add: ensureWritableBytes_def)

text \<open>After \<^verbatim>\<open>ensureWritableBytes(len)\<close> a write of \<open>len\<close> bytes at the writer index stays in the vector.\<close>

lemma ensure_room:
  assumes "Buffer_inv b"
  shows "writerIndex (ensureWritableBytes b len) + len \<le> length (bufferVec (ensureWritableBytes b len))"
proof -
  have "len \<le> writableBytes (ensureWritableBytes b len)"
    using writableBytes_makeSpace [OF assms, of len] by (simp add: ensureWritableBytes_def)
  moreover have "writerIndex (ensureWritableBytes b len) \<le> length (bufferVec (ensureWritableBytes b len))"
    using Buffer_inv_ensure [OF assms] by (simp add: Buffer_inv_def)
  ultimately show ?thesis by (simp add: writableBytes_def)
qed

section \<open>Appending, retrieving, reading\<close>

lemma Buffer_inv_append [inv_intros]: "Buffer_inv b \<Longrightarrow> Buffer_inv (Buffer_append b s)"
  using ensure_room [of b "length s"] Buffer_inv_ensure [of b "length s"]
  by (simp add: Buffer_append_def Let_def Buffer_inv_def)

lemma contents_append [simp]: "Buffer_inv b \<Longrightarrow> contents (Buffer_append b s) = contents b @ s"
  using ensure_room [of b "length s"] Buffer_inv_ensure [of b "length s"]
    contents_ensure [of b "length s"]
  by (simp add: Buffer_append_def Let_def contents_def Buffer_inv_def segment_overwrite_end)

lemma Buffer_inv_retrieve [inv_intros]: "Buffer_inv b \<Longrightarrow> Buffer_inv (retrieve b n)"
  by (auto simp: retrieve_def retrieveAll_def buffer_defs)

lemma contents_retrieve [simp]: "Buffer_inv b \<Longrightarrow> contents (retrieve b n) = drop n (contents b)"
  by (auto simp: retrieve_def retrieveAll_def buffer_defs drop_segment)

lemma Buffer_inv_retrieveAll [inv_intros]: "Buffer_inv b \<Longrightarrow> Buffer_inv (retrieveAll b)"
  by (simp add: retrieveAll_def Buffer_inv_def)

lemma contents_retrieveAll [simp]: "contents (retrieveAll b) = []"
  by (simp add: retrieveAll_def contents_def)

lemma readableBytes_0_iff: "Buffer_inv b \<Longrightarrow> readableBytes b = 0 \<longleftrightarrow> contents b = []"
  by (metis length_0_conv length_contents)

lemma retrieve_less: "0 < n \<Longrightarrow> 0 < readableBytes b \<Longrightarrow> readableBytes (retrieve b n) < readableBytes b"
  by (auto simp: retrieve_def retrieveAll_def readableBytes_def)

lemma retrieve_le: "readableBytes (retrieve b n) \<le> readableBytes b"
  by (auto simp: retrieve_def retrieveAll_def readableBytes_def)

lemma retrieveAsString_eq:
  assumes "Buffer_inv b" and "n \<le> readableBytes b"
  shows "retrieveAsString b n = Some (take n (contents b), retrieve b n)"
proof -
  have "n \<le> length (peek b)" using assms unfolding buffer_defs peek_def by simp linarith
  then show ?thesis using assms(2) by (simp add: retrieveAsString_def contents_eq_peek min_def)
qed

lemma readFd_ok:
  assumes inv: "Buffer_inv b" and kernel: "readv (readv_capacity b) = Inr bs"
  shows "fst (readFd readv b) = Inr (length bs)"
    and "Buffer_inv (snd (readFd readv b))"
    and "contents (snd (readFd readv b)) = contents b @ bs"
proof -
  let ?w = "writableBytes b"
  let ?s = "overwrite (bufferVec b) (writerIndex b) (take ?w bs)"
  have fits: "writerIndex b + length (take ?w bs) \<le> length (bufferVec b)"
    using inv by (auto simp: buffer_defs min_def)
  have len: "length ?s = length (bufferVec b)" using fits by simp
  have seg: "segment (readerIndex b) (writerIndex b + length (take ?w bs)) ?s =
      contents b @ take ?w bs"
    using fits inv by (simp add: segment_overwrite_end contents_def Buffer_inv_def del: length_take)
  let ?full = "b\<lparr>bufferVec := ?s, writerIndex := length ?s\<rparr>"
  show "fst (readFd readv b) = Inr (length bs)"
    using kernel by (simp add: readFd_def Let_def)
  have full: "Buffer_inv ?full \<and> contents ?full = contents b @ take ?w bs" if "?w < length bs"
  proof -
    have "length (bufferVec b) = writerIndex b + length (take ?w bs)"
      using that inv by (simp add: buffer_defs min_def)
    then show ?thesis using seg len inv by (simp add: Buffer_inv_def contents_def)
  qed
  show "Buffer_inv (snd (readFd readv b))"
    using kernel full inv len
    by (auto simp: readFd_def Let_def Buffer_inv_append) (auto simp: buffer_defs)
  show "contents (snd (readFd readv b)) = contents b @ bs"
  proof (cases "length bs \<le> ?w")
    case True
    then show ?thesis using kernel seg by (simp add: readFd_def Let_def contents_def)
  next
    case False
    then show ?thesis using kernel full by (simp add: readFd_def Let_def)
  qed
qed

lemma writeFd_eq: "writeFd write b = write (contents b)"
  by (simp add: writeFd_def contents_eq_peek)

section \<open>The contract the connection layer relies on\<close>

text \<open>
  A byte queue: what is put last comes out last, and discarding takes bytes off the front.  The
  lemmas of the locale are about any sequence of operations; the buffer is its instance.
\<close>

locale byte_queue =
  fixes invar :: "'q \<Rightarrow> bool"
    and bytes :: "'q \<Rightarrow> char list"
    and put :: "'q \<Rightarrow> char list \<Rightarrow> 'q"
    and discard :: "'q \<Rightarrow> nat \<Rightarrow> 'q"
  assumes invar_put: "invar q \<Longrightarrow> invar (put q xs)"
    and invar_discard: "invar q \<Longrightarrow> invar (discard q n)"
    and bytes_put: "invar q \<Longrightarrow> bytes (put q xs) = bytes q @ xs"
    and bytes_discard: "invar q \<Longrightarrow> bytes (discard q n) = drop n (bytes q)"
begin

lemma put_all:
  "invar q \<Longrightarrow> invar (foldl put q xss) \<and> bytes (foldl put q xss) = bytes q @ concat xss"
  by (induction xss arbitrary: q) (auto simp: invar_put bytes_put)

lemma put_discard: "invar q \<Longrightarrow> bytes (discard (put q xs) (length (bytes q))) = xs"
  by (simp add: bytes_discard bytes_put invar_put)

lemma discard_discard: "invar q \<Longrightarrow> bytes (discard (discard q m) n) = bytes (discard q (m + n))"
  by (simp add: bytes_discard invar_discard add.commute)

lemma discard_all: "invar q \<Longrightarrow> length (bytes q) \<le> n \<Longrightarrow> bytes (discard q n) = []"
  by (simp add: bytes_discard)

end

interpretation bq: byte_queue Buffer_inv contents Buffer_append retrieve
  by unfold_locales (auto intro: inv_intros)

section \<open>Properties\<close>

text \<open>A client's use of a buffer: it appends, reads from a socket, and takes readable bytes out.\<close>

datatype buffer_op = Put string | FromSocket string | Take nat

fun Buffer_run :: "buffer \<Rightarrow> buffer_op list \<Rightarrow> (string \<times> buffer) option" where
  "Buffer_run b [] = Some ([], b)"
| "Buffer_run b (Put s # ops) = Buffer_run (Buffer_append b s) ops"
| "Buffer_run b (FromSocket s # ops) =
     (if length s \<le> readv_capacity b then Buffer_run (snd (readFd (\<lambda>_. Inr s) b)) ops else None)"
| "Buffer_run b (Take n # ops) =
     (if n \<le> readableBytes b
      then case retrieveAsString b n of
             None \<Rightarrow> None
           | Some (s, b') \<Rightarrow> map_option (\<lambda>(out, b''). (s @ out, b'')) (Buffer_run b' ops)
      else None)"

fun fed :: "buffer_op list \<Rightarrow> string" where
  "fed [] = []"
| "fed (Put s # ops) = s @ fed ops"
| "fed (FromSocket s # ops) = s @ fed ops"
| "fed (Take n # ops) = fed ops"

lemma Buffer_run_stream:
  "Buffer_inv b \<Longrightarrow> Buffer_run b ops = Some (out, b') \<Longrightarrow>
     Buffer_inv b' \<and> out @ contents b' = contents b @ fed ops"
proof (induction b ops arbitrary: out b' rule: Buffer_run.induct)
  case (1 b)
  then show ?case by simp
next
  case (2 b s ops)
  then show ?case by (simp add: Buffer_inv_append)
next
  case (3 b s ops)
  then show ?case using readFd_ok [OF 3(2), of "\<lambda>_. Inr s" s] by (simp split: if_splits)
next
  case (4 b n ops)
  from 4(3) have n: "n \<le> readableBytes b" by (simp split: if_splits)
  note r = retrieveAsString_eq [OF 4(2) n]
  from 4(3) n r obtain o2 where run: "Buffer_run (retrieve b n) ops = Some (o2, b')"
      and out: "out = take n (contents b) @ o2" by auto
  have "Buffer_inv b' \<and> o2 @ contents b' = contents (retrieve b n) @ fed ops"
    using 4(1) [OF n r refl Buffer_inv_retrieve [OF 4(2)] run] .
  then show ?case using 4(2) out by simp
qed

text \<open>A client that never takes more than is readable, under a kernel that respects the capacity.\<close>

fun admissible :: "string \<Rightarrow> buffer_op list \<Rightarrow> bool" where
  "admissible cs [] = True"
| "admissible cs (Put s # ops) = admissible (cs @ s) ops"
| "admissible cs (FromSocket s # ops) = (length s \<le> kExtraBuf \<and> admissible (cs @ s) ops)"
| "admissible cs (Take n # ops) = (n \<le> length cs \<and> admissible (drop n cs) ops)"

fun taken :: "buffer_op list \<Rightarrow> nat" where
  "taken [] = 0"
| "taken (Take n # ops) = n + taken ops"
| "taken (_ # ops) = taken ops"

lemma readv_capacity_ge: "kExtraBuf \<le> readv_capacity b"
  by (simp add: readv_capacity_def)

lemma Buffer_run_total:
  "Buffer_inv b \<Longrightarrow> admissible (contents b) ops \<Longrightarrow>
     \<exists>out b'. Buffer_run b ops = Some (out, b') \<and> length out = taken ops"
proof (induction b ops rule: Buffer_run.induct)
  case (3 b s ops)
  then have "length s \<le> readv_capacity b" using readv_capacity_ge [of b] by simp
  with 3 readFd_ok [OF 3(2), of "\<lambda>_. Inr s" s] show ?case by simp
next
  case (4 b n ops)
  then have n: "n \<le> readableBytes b" by (simp flip: length_contents)
  note r = retrieveAsString_eq [OF 4(2) n]
  have "\<exists>out b'. Buffer_run (retrieve b n) ops = Some (out, b') \<and> length out = taken ops"
    using 4(1) [OF n r refl Buffer_inv_retrieve [OF 4(2)]] 4(2,3) by simp
  with n r 4(2,3) show ?case by auto
qed (auto simp: Buffer_inv_append)

text \<open>
  (C3) A buffer is a byte stream.  For every sequence of appends, socket reads and takes on a new
  buffer, across growth, compaction and the spill into the extra buffer, no operation reads outside
  the vector, the bytes taken out followed by the bytes still readable are exactly the bytes put in,
  in order, and the indices stay within the vector.
\<close>

theorem buffer_is_byte_stream:
  assumes "admissible [] ops"
  shows "\<exists>b'. Buffer_run (Buffer_new initial) ops = Some (take (taken ops) (fed ops), b') \<and>
              Buffer_inv b' \<and> contents b' = drop (taken ops) (fed ops)"
proof -
  have "admissible (contents (Buffer_new initial)) ops" using assms by simp
  then obtain out b' where run: "Buffer_run (Buffer_new initial) ops = Some (out, b')"
      and len: "length out = taken ops"
    using Buffer_run_total [OF Buffer_new_inv] by blast
  have "Buffer_inv b'" "out @ contents b' = fed ops"
    using Buffer_run_stream [OF Buffer_new_inv run] by simp_all
  then show ?thesis using run by (metis append_eq_conv_conj len)
qed

theorem buffer_is_byte_stream_witness:
  "\<exists>b'. Buffer_run (Buffer_new 2) [Put ''abc'', Take 2, FromSocket ''defgh'', Put ''ij'', Take 4] = Some (''abcdef'', b')
        \<and> Buffer_inv b' \<and> contents b' = ''ghij''"
  using buffer_is_byte_stream [of "[Put ''abc'', Take 2, FromSocket ''defgh'', Put ''ij'', Take 4]" 2]
  by (simp add: kExtraBuf_def)

end
