(* ===== verification/ChannelPoller.thy ===== *)
theory ChannelPoller
  imports Prelude
begin

text \<open>
  \<^verbatim>\<open>src/net/Channel.h\<close>, \<^verbatim>\<open>Channel.cc\<close>, \<^verbatim>\<open>EPollPoller.cc\<close> and \<^verbatim>\<open>Poller.cc\<close>: a channel binds a file
  descriptor to the events it wants, and the poller mirrors those wishes into the kernel's epoll set.
  Channels are shared objects reached through pointers, so the state keeps a store from addresses to
  channels.  The kernel is a parameter: the poller's \<^verbatim>\<open>epoll_ctl\<close> calls are recorded in the order they
  are issued, and \<open>accept\<close> gives the kernel's answer to each.  The theory shows that the calls always
  follow the epoll protocol (no \<^verbatim>\<open>ADD\<close> of a registered descriptor, no \<^verbatim>\<open>MOD\<close> or \<^verbatim>\<open>DEL\<close> of an
  unregistered one), so the \<^verbatim>\<open>LOG_FATAL\<close> exit is never taken, and that the registered set is exactly
  the set of channels in state \<^verbatim>\<open>kAdded\<close>, each with its current events.
\<close>

section \<open>Channels\<close>

definition EPOLLIN :: u32 where "EPOLLIN = 0x001"
definition EPOLLPRI :: u32 where "EPOLLPRI = 0x002"
definition EPOLLOUT :: u32 where "EPOLLOUT = 0x004"
definition EPOLLERR :: u32 where "EPOLLERR = 0x008"
definition EPOLLHUP :: u32 where "EPOLLHUP = 0x010"

lemmas epoll_bits = EPOLLIN_def EPOLLPRI_def EPOLLOUT_def EPOLLERR_def EPOLLHUP_def

definition kNoneEvent :: u32 where "kNoneEvent = 0"
definition kReadEvent :: u32 where "kReadEvent = EPOLLIN OR EPOLLPRI"
definition kWriteEvent :: u32 where "kWriteEvent = EPOLLOUT"

lemmas event_masks = kNoneEvent_def kReadEvent_def kWriteEvent_def

text \<open>The poller's mark on a channel (\<^verbatim>\<open>index_\<close>).\<close>

definition kNew :: int where "kNew = -1"
definition kAdded :: int where "kAdded = 1"
definition kDeleted :: int where "kDeleted = 2"

lemmas index_marks = kNew_def kAdded_def kDeleted_def

record channel =
  ch_fd :: int
  ch_events :: u32
  ch_revents :: u32
  ch_index :: int
  ch_tied :: bool

definition Channel_new :: "int \<Rightarrow> channel" where
  "Channel_new fd = \<lparr>ch_fd = fd, ch_events = 0, ch_revents = 0, ch_index = kNew, ch_tied = False\<rparr>"

definition isNoneEvent :: "channel \<Rightarrow> bool" where
  "isNoneEvent ch \<longleftrightarrow> ch_events ch = kNoneEvent"

definition isWriting :: "channel \<Rightarrow> bool" where
  "isWriting ch \<longleftrightarrow> ch_events ch AND kWriteEvent \<noteq> 0"

definition isReading :: "channel \<Rightarrow> bool" where
  "isReading ch \<longleftrightarrow> ch_events ch AND kReadEvent \<noteq> 0"

subsection \<open>Event dispatch\<close>

datatype callback = CloseCallback | ErrorCallback | ReadCallback | WriteCallback

text \<open>
  The callbacks \<^verbatim>\<open>handleEventWithGuard\<close> runs, in order; \<open>installed\<close> says which of the four
  \<^verbatim>\<open>std::function\<close> members are set.
\<close>

definition handleEventWithGuard :: "(callback \<Rightarrow> bool) \<Rightarrow> channel \<Rightarrow> callback list" where
  "handleEventWithGuard installed ch =
     (let r = ch_revents ch in
      (if r AND EPOLLHUP \<noteq> 0 \<and> \<not> (r AND EPOLLIN \<noteq> 0)
       then if installed CloseCallback then [CloseCallback] else [] else []) @
      (if r AND EPOLLERR \<noteq> 0
       then if installed ErrorCallback then [ErrorCallback] else [] else []) @
      (if r AND (EPOLLIN OR EPOLLPRI) \<noteq> 0
       then if installed ReadCallback then [ReadCallback] else [] else []) @
      (if r AND EPOLLOUT \<noteq> 0
       then if installed WriteCallback then [WriteCallback] else [] else []))"

text \<open>A tied channel runs nothing once its owner is gone (\<^verbatim>\<open>tie_.lock()\<close> fails).\<close>

definition handleEvent :: "bool \<Rightarrow> (callback \<Rightarrow> bool) \<Rightarrow> channel \<Rightarrow> callback list" where
  "handleEvent owner_alive installed ch =
     (if ch_tied ch
      then if owner_alive then handleEventWithGuard installed ch else []
      else handleEventWithGuard installed ch)"

section \<open>The poller\<close>

datatype ctl_op = CTL_ADD | CTL_MOD | CTL_DEL

text \<open>One \<^verbatim>\<open>epoll_ctl\<close> call: the operation, the descriptor, the event mask and the pointer in \<^verbatim>\<open>data.ptr\<close>.\<close>

type_synonym ctl_call = "ctl_op \<times> int \<times> u32 \<times> nat"

record poller =
  store :: "nat \<Rightarrow> channel"
  channels :: "int \<rightharpoonup> nat"
  ctl_log :: "ctl_call list"
  exited :: bool
  events_size :: nat

type_synonym kernel = "ctl_call list \<Rightarrow> ctl_call \<Rightarrow> bool"

definition kInitEventListSize :: nat where "kInitEventListSize = 128"

definition EPollPoller_new :: "(nat \<Rightarrow> channel) \<Rightarrow> poller" where
  "EPollPoller_new st =
     \<lparr>store = st, channels = Map.empty, ctl_log = [], exited = False, events_size = kInitEventListSize\<rparr>"

definition set_index :: "nat \<Rightarrow> int \<Rightarrow> poller \<Rightarrow> poller" where
  "set_index c i p = p\<lparr>store := (store p)(c := (store p c)\<lparr>ch_index := i\<rparr>)\<rparr>"

definition set_events :: "nat \<Rightarrow> u32 \<Rightarrow> poller \<Rightarrow> poller" where
  "set_events c e p = p\<lparr>store := (store p)(c := (store p c)\<lparr>ch_events := e\<rparr>)\<rparr>"

text \<open>\<^verbatim>\<open>EPollPoller::update\<close>: a refused \<^verbatim>\<open>DEL\<close> is logged, a refused \<^verbatim>\<open>ADD\<close> or \<^verbatim>\<open>MOD\<close> ends the process.\<close>

definition EPollPoller_update :: "kernel \<Rightarrow> ctl_op \<Rightarrow> nat \<Rightarrow> poller \<Rightarrow> poller" where
  "EPollPoller_update accept operation c p =
     (let call = (operation, ch_fd (store p c), ch_events (store p c), c);
          p' = p\<lparr>ctl_log := ctl_log p @ [call]\<rparr> in
      if accept (ctl_log p) call then p'
      else if operation = CTL_DEL then p' else p'\<lparr>exited := True\<rparr>)"

definition updateChannel :: "kernel \<Rightarrow> nat \<Rightarrow> poller \<Rightarrow> poller" where
  "updateChannel accept c p =
     (let index = ch_index (store p c) in
      if index = kNew \<or> index = kDeleted then
        (let p1 = (if index = kNew then p\<lparr>channels := (channels p)(ch_fd (store p c) \<mapsto> c)\<rparr> else p)
         in EPollPoller_update accept CTL_ADD c (set_index c kAdded p1))
      else if isNoneEvent (store p c)
      then set_index c kDeleted (EPollPoller_update accept CTL_DEL c p)
      else EPollPoller_update accept CTL_MOD c p)"

definition removeChannel :: "kernel \<Rightarrow> nat \<Rightarrow> poller \<Rightarrow> poller" where
  "removeChannel accept c p =
     (let fd = ch_fd (store p c);
          index = ch_index (store p c);
          p1 = p\<lparr>channels := (channels p)(fd := None)\<rparr>;
          p2 = (if index = kAdded then EPollPoller_update accept CTL_DEL c p1 else p1)
      in set_index c kNew p2)"

definition hasChannel :: "nat \<Rightarrow> poller \<Rightarrow> bool" where
  "hasChannel c p \<longleftrightarrow> channels p (ch_fd (store p c)) = Some c"

text \<open>
  The channel's own operations change its event mask and call \<^verbatim>\<open>update()\<close>, which reaches the poller
  through \<^verbatim>\<open>EventLoop::updateChannel\<close>.
\<close>

definition enableReading :: "kernel \<Rightarrow> nat \<Rightarrow> poller \<Rightarrow> poller" where
  "enableReading accept c p = updateChannel accept c (set_events c (ch_events (store p c) OR kReadEvent) p)"

definition disableReading :: "kernel \<Rightarrow> nat \<Rightarrow> poller \<Rightarrow> poller" where
  "disableReading accept c p = updateChannel accept c (set_events c (ch_events (store p c) AND NOT kReadEvent) p)"

definition enableWriting :: "kernel \<Rightarrow> nat \<Rightarrow> poller \<Rightarrow> poller" where
  "enableWriting accept c p = updateChannel accept c (set_events c (ch_events (store p c) OR kWriteEvent) p)"

definition disableWriting :: "kernel \<Rightarrow> nat \<Rightarrow> poller \<Rightarrow> poller" where
  "disableWriting accept c p = updateChannel accept c (set_events c (ch_events (store p c) AND NOT kWriteEvent) p)"

definition disableAll :: "kernel \<Rightarrow> nat \<Rightarrow> poller \<Rightarrow> poller" where
  "disableAll accept c p = updateChannel accept c (set_events c kNoneEvent p)"

definition Channel_remove :: "kernel \<Rightarrow> nat \<Rightarrow> poller \<Rightarrow> poller" where
  "Channel_remove accept c p = removeChannel accept c p"

definition Channel_tie :: "nat \<Rightarrow> poller \<Rightarrow> poller" where
  "Channel_tie c p = p\<lparr>store := (store p)(c := (store p c)\<lparr>ch_tied := True\<rparr>)\<rparr>"

text \<open>
  \<^verbatim>\<open>poll\<close>: \<open>ready\<close> is what \<^verbatim>\<open>epoll_wait\<close> stored in the event array (empty on a timeout or an error).
\<close>

fun fillActiveChannels :: "(u32 \<times> nat) list \<Rightarrow> poller \<Rightarrow> nat list \<times> poller" where
  "fillActiveChannels [] p = ([], p)"
| "fillActiveChannels ((ev, c) # rest) p =
     (let p' = p\<lparr>store := (store p)(c := (store p c)\<lparr>ch_revents := ev\<rparr>)\<rparr>;
          (act, p'') = fillActiveChannels rest p'
      in (c # act, p''))"

definition poll :: "(u32 \<times> nat) list \<Rightarrow> poller \<Rightarrow> nat list \<times> poller" where
  "poll ready p =
     (if ready \<noteq> [] then
        (let (act, p') = fillActiveChannels ready p
         in (act, if length ready = events_size p' then p'\<lparr>events_size := events_size p' * 2\<rparr> else p'))
      else ([], p))"

section \<open>The epoll protocol\<close>

text \<open>
  The interest set the kernel documents: \<^verbatim>\<open>ADD\<close> enters a descriptor, \<^verbatim>\<open>MOD\<close> replaces its entry, \<^verbatim>\<open>DEL\<close>
  removes it.  A call is legal when epoll does not refuse it with \<^verbatim>\<open>EEXIST\<close> or \<^verbatim>\<open>ENOENT\<close>.
\<close>

fun interest_step :: "(int \<rightharpoonup> u32 \<times> nat) \<Rightarrow> ctl_call \<Rightarrow> (int \<rightharpoonup> u32 \<times> nat)" where
  "interest_step m (CTL_ADD, fd, ev, c) = m(fd \<mapsto> (ev, c))"
| "interest_step m (CTL_MOD, fd, ev, c) = m(fd \<mapsto> (ev, c))"
| "interest_step m (CTL_DEL, fd, ev, c) = m(fd := None)"

definition interest :: "ctl_call list \<Rightarrow> (int \<rightharpoonup> u32 \<times> nat)" where
  "interest log = foldl interest_step Map.empty log"

definition legal_call :: "ctl_call list \<Rightarrow> ctl_call \<Rightarrow> bool" where
  "legal_call log call =
     (case call of
        (CTL_ADD, fd, _) \<Rightarrow> interest log fd = None
      | (CTL_MOD, fd, _) \<Rightarrow> interest log fd \<noteq> None
      | (CTL_DEL, fd, _) \<Rightarrow> interest log fd \<noteq> None)"

definition legal_log :: "ctl_call list \<Rightarrow> bool" where
  "legal_log log \<longleftrightarrow> (\<forall>i < length log. legal_call (take i log) (log ! i))"

lemma interest_Nil [simp]: "interest [] = Map.empty"
  by (simp add: interest_def)

lemma interest_snoc [simp]: "interest (log @ [call]) = interest_step (interest log) call"
  by (simp add: interest_def)

lemma legal_log_Nil [simp]: "legal_log []"
  by (simp add: legal_log_def)

lemma legal_log_snoc [simp]: "legal_log (log @ [call]) \<longleftrightarrow> legal_log log \<and> legal_call log call"
  by (auto simp: legal_log_def less_Suc_eq nth_append)

section \<open>Invariant\<close>

text \<open>
  The channels that are not \<^verbatim>\<open>kNew\<close> own their descriptor; a channel is in the interest set exactly
  when it is \<^verbatim>\<open>kAdded\<close>, under its own pointer and with its current events.
\<close>

definition known :: "poller \<Rightarrow> nat \<Rightarrow> bool" where
  "known p c \<longleftrightarrow> ch_index (store p c) \<noteq> kNew"

definition exclusive :: "poller \<Rightarrow> nat \<Rightarrow> bool" where
  "exclusive p c \<longleftrightarrow> (\<forall>d. d \<noteq> c \<longrightarrow> ch_fd (store p d) = ch_fd (store p c) \<longrightarrow> \<not> known p d)"

definition poller_inv :: "poller \<Rightarrow> bool" where
  "poller_inv p \<longleftrightarrow>
     legal_log (ctl_log p) \<and>
     (\<forall>c. ch_index (store p c) \<in> {kNew, kAdded, kDeleted}) \<and>
     (\<forall>c. known p c \<longrightarrow> exclusive p c) \<and>
     (\<forall>fd. interest (ctl_log p) fd =
        (case channels p fd of
           None \<Rightarrow> None
         | Some c \<Rightarrow> if ch_index (store p c) = kAdded then Some (ch_events (store p c), c) else None)) \<and>
     (\<forall>fd c. channels p fd = Some c \<longleftrightarrow> known p c \<and> ch_fd (store p c) = fd)"

lemmas poller_ops = EPollPoller_update_def set_index_def set_events_def Let_def

lemma index_marks_distinct [simp]:
  "kNew \<noteq> kAdded" "kAdded \<noteq> kNew" "kNew \<noteq> kDeleted" "kDeleted \<noteq> kNew" "kAdded \<noteq> kDeleted" "kDeleted \<noteq> kAdded"
  by (simp_all add: index_marks)

lemma poller_invD:
  assumes "poller_inv p"
  shows "legal_log (ctl_log p)"
    and "ch_index (store p c) \<in> {kNew, kAdded, kDeleted}"
    and "known p c \<Longrightarrow> exclusive p c"
    and "interest (ctl_log p) fd =
      (case channels p fd of None \<Rightarrow> None
       | Some c \<Rightarrow> if ch_index (store p c) = kAdded then Some (ch_events (store p c), c) else None)"
    and "channels p fd = Some c \<longleftrightarrow> known p c \<and> ch_fd (store p c) = fd"
  using assms unfolding poller_inv_def by blast+

text \<open>Where an exclusive channel stands in the map and in the interest set, by its mark.\<close>

lemma exclusive_views:
  assumes inv: "poller_inv p" and ex: "exclusive p c"
  shows "channels p (ch_fd (store p c)) = (if known p c then Some c else None)"
    and "interest (ctl_log p) (ch_fd (store p c)) =
      (if ch_index (store p c) = kAdded then Some (ch_events (store p c), c) else None)"
proof -
  show m: "channels p (ch_fd (store p c)) = (if known p c then Some c else None)"
  proof (cases "channels p (ch_fd (store p c))")
    case None
    with poller_invD(5) [OF inv, of "ch_fd (store p c)" c] show ?thesis by auto
  next
    case (Some d)
    with poller_invD(5) [OF inv, of "ch_fd (store p c)" d] ex show ?thesis
      by (auto simp: exclusive_def)
  qed
  show "interest (ctl_log p) (ch_fd (store p c)) =
      (if ch_index (store p c) = kAdded then Some (ch_events (store p c), c) else None)"
    unfolding poller_invD(4) [OF inv] m by (auto simp: known_def)
qed

text \<open>
  The one change behind every channel operation: give the channel a new mask and update.  What it
  does to the four views (map, marks, interest set, log) is computed once.
\<close>

definition request :: "kernel \<Rightarrow> nat \<Rightarrow> u32 \<Rightarrow> poller \<Rightarrow> poller" where
  "request accept c e p = updateChannel accept c (set_events c e p)"

lemma request_folds:
  "enableReading accept c p = request accept c (ch_events (store p c) OR kReadEvent) p"
  "disableReading accept c p = request accept c (ch_events (store p c) AND NOT kReadEvent) p"
  "enableWriting accept c p = request accept c (ch_events (store p c) OR kWriteEvent) p"
  "disableWriting accept c p = request accept c (ch_events (store p c) AND NOT kWriteEvent) p"
  "disableAll accept c p = request accept c kNoneEvent p"
  by (simp_all add: request_def enableReading_def disableReading_def enableWriting_def
      disableWriting_def disableAll_def)

lemma request_store:
  "store (request accept c e p) =
     (store p)(c := (store p c)\<lparr>ch_events := e,
        ch_index := if ch_index (store p c) \<in> {kNew, kDeleted} then kAdded
                    else if e = kNoneEvent then kDeleted else ch_index (store p c)\<rparr>)"
  by (auto simp: request_def updateChannel_def poller_ops isNoneEvent_def fun_eq_iff)

lemma request_channels:
  "channels (request accept c e p) =
     (if ch_index (store p c) = kNew then (channels p)(ch_fd (store p c) \<mapsto> c) else channels p)"
  by (auto simp: request_def updateChannel_def poller_ops)

lemma request_log:
  "ctl_log (request accept c e p) = ctl_log p @
     [(if ch_index (store p c) \<in> {kNew, kDeleted} then CTL_ADD
       else if e = kNoneEvent then CTL_DEL else CTL_MOD, ch_fd (store p c), e, c)]"
  by (auto simp: request_def updateChannel_def poller_ops isNoneEvent_def)

lemma request_exited:
  assumes "\<And>log call. legal_call log call \<Longrightarrow> accept log call"
    and "poller_inv p" and "exclusive p c"
  shows "exited (request accept c e p) = exited p"
proof -
  have acc: "accept (ctl_log p) (operation, ch_fd (store p c), e, c)"
    if "legal_call (ctl_log p) (operation, ch_fd (store p c), e, c)" for operation
    using assms(1) that by blast
  have "ch_index (store p c) \<in> {kNew, kAdded, kDeleted}" by (rule poller_invD(2) [OF assms(2)])
  then show ?thesis
    using exclusive_views(2) [OF assms(2,3)] acc
    by (auto simp: request_def updateChannel_def poller_ops isNoneEvent_def legal_call_def)
qed

lemma removeChannel_store:
  "store (removeChannel accept c p) = (store p)(c := (store p c)\<lparr>ch_index := kNew\<rparr>)"
  by (auto simp: removeChannel_def poller_ops fun_eq_iff)

lemma removeChannel_channels:
  "channels (removeChannel accept c p) = (channels p)(ch_fd (store p c) := None)"
  by (auto simp: removeChannel_def poller_ops)

lemma removeChannel_log:
  "ctl_log (removeChannel accept c p) =
     ctl_log p @ (if ch_index (store p c) = kAdded
                  then [(CTL_DEL, ch_fd (store p c), ch_events (store p c), c)] else [])"
  by (auto simp: removeChannel_def poller_ops)

lemma removeChannel_exited: "exited (removeChannel accept c p) = exited p"
  by (auto simp: removeChannel_def poller_ops)

subsection \<open>Every operation keeps the invariant\<close>

lemma poller_inv_new [inv_intros]:
  "(\<And>c. ch_index (st c) = kNew) \<Longrightarrow> poller_inv (EPollPoller_new st)"
  by (simp add: poller_inv_def EPollPoller_new_def known_def)

lemma poller_inv_request [inv_intros]:
  assumes inv: "poller_inv p" and ex: "exclusive p c"
  shows "poller_inv (request accept c e p)"
proof -
  let ?q = "request accept c e p" and ?fd = "ch_fd (store p c)"
  have idx: "ch_index (store p d) \<in> {kNew, kAdded, kDeleted}" for d by (rule poller_invD(2) [OF inv])
  have legal: "legal_log (ctl_log ?q)"
    using exclusive_views(2) [OF inv ex] poller_invD(1) [OF inv] idx [of c]
    by (auto simp: request_log legal_call_def)
  have excl: "exclusive ?q d" if "known ?q d" for d
    using that poller_invD(3) [OF inv, of d] ex
    by (auto simp: exclusive_def known_def request_store split: if_splits)
  have chan: "channels ?q fd = Some d \<longleftrightarrow> known ?q d \<and> ch_fd (store ?q d) = fd" for fd d
    using exclusive_views(1) [OF inv ex] poller_invD(5) [OF inv, of fd d] idx [of c] ex
    by (auto simp: request_channels request_store known_def exclusive_def split: if_splits)
  have others: "interest (ctl_log ?q) fd = interest (ctl_log p) fd" if "fd \<noteq> ?fd" for fd
    using that by (auto simp: request_log)
  have own: "interest (ctl_log ?q) ?fd =
      (if ch_index (store ?q c) = kAdded then Some (e, c) else None)"
    using idx [of c] by (auto simp: request_log request_store)
  have int: "interest (ctl_log ?q) fd =
      (case channels ?q fd of None \<Rightarrow> None
       | Some d \<Rightarrow> if ch_index (store ?q d) = kAdded then Some (ch_events (store ?q d), d) else None)" for fd
  proof (cases "fd = ?fd")
    case True
    have "channels ?q ?fd = Some c"
      using chan [of ?fd c] idx [of c] by (auto simp: known_def request_store)
    with own True show ?thesis by (simp add: request_store)
  next
    case False
    have same: "channels ?q fd = channels p fd" using False by (simp add: request_channels)
    have "d \<noteq> c" if "channels p fd = Some d" for d
      using that False poller_invD(5) [OF inv, of fd d] by auto
    then show ?thesis
      unfolding others [OF False] same poller_invD(4) [OF inv, of fd]
      by (auto simp: request_store split: option.splits)
  qed
  have "ch_index (store ?q d) \<in> {kNew, kAdded, kDeleted}" for d
    using idx [of c] idx [of d] by (auto simp: request_store)
  then show ?thesis
    unfolding poller_inv_def using legal excl chan int by blast
qed

lemma poller_inv_remove [inv_intros]:
  assumes inv: "poller_inv p" and ex: "exclusive p c"
  shows "poller_inv (removeChannel accept c p)"
proof -
  let ?q = "removeChannel accept c p" and ?fd = "ch_fd (store p c)"
  have legal: "legal_log (ctl_log ?q)"
    using exclusive_views(2) [OF inv ex] poller_invD(1) [OF inv]
    by (auto simp: removeChannel_log legal_call_def)
  have excl: "exclusive ?q d" if "known ?q d" for d
    using that poller_invD(3) [OF inv, of d]
    by (auto simp: exclusive_def known_def removeChannel_store split: if_splits)
  have chan: "channels ?q fd = Some d \<longleftrightarrow> known ?q d \<and> ch_fd (store ?q d) = fd" for fd d
    using exclusive_views(1) [OF inv ex] poller_invD(5) [OF inv, of fd d] ex
    by (auto simp: removeChannel_channels removeChannel_store known_def exclusive_def split: if_splits)
  have int: "interest (ctl_log ?q) fd =
      (case channels ?q fd of None \<Rightarrow> None
       | Some d \<Rightarrow> if ch_index (store ?q d) = kAdded then Some (ch_events (store ?q d), d) else None)" for fd
  proof (cases "fd = ?fd")
    case True
    then show ?thesis
      using exclusive_views(2) [OF inv ex] by (auto simp: removeChannel_channels removeChannel_log)
  next
    case False
    have "interest (ctl_log ?q) fd = interest (ctl_log p) fd"
      using False by (auto simp: removeChannel_log)
    moreover have "d \<noteq> c" if "channels p fd = Some d" for d
      using that False poller_invD(5) [OF inv, of fd d] by auto
    ultimately show ?thesis
      using False poller_invD(4) [OF inv, of fd]
      by (auto simp: removeChannel_channels removeChannel_store split: option.splits)
  qed
  show ?thesis
    unfolding poller_inv_def using legal excl chan int poller_invD(2) [OF inv]
    by (auto simp: removeChannel_store)
qed

text \<open>The invariant only sees a channel's descriptor and mark, and its events once it is known.\<close>

lemma poller_inv_cong:
  assumes inv: "poller_inv p" and log: "ctl_log q = ctl_log p" and map: "channels q = channels p"
    and mark: "\<And>c. ch_index (store q c) = ch_index (store p c)"
    and same: "\<And>c. known p c \<Longrightarrow> ch_fd (store q c) = ch_fd (store p c) \<and> ch_events (store q c) = ch_events (store p c)"
  shows "poller_inv q"
proof -
  have known: "known q c \<longleftrightarrow> known p c" for c by (simp add: known_def mark)
  have chan: "channels q fd = Some c \<longleftrightarrow> known q c \<and> ch_fd (store q c) = fd" for fd c
    using poller_invD(5) [OF inv, of fd c] same by (auto simp: map known)
  have "exclusive q c" if "known q c" for c
    using chan that unfolding exclusive_def by (metis option.inject)
  moreover have "interest (ctl_log q) fd =
      (case channels q fd of None \<Rightarrow> None
       | Some c \<Rightarrow> if ch_index (store q c) = kAdded then Some (ch_events (store q c), c) else None)" for fd
  proof (cases "channels p fd")
    case (Some c)
    then show ?thesis
      using chan [of fd c] same [of c] by (simp add: log map mark known poller_invD(4) [OF inv])
  qed (simp add: log map poller_invD(4) [OF inv])
  ultimately show ?thesis
    using chan poller_invD(1,2) [OF inv] unfolding poller_inv_def log mark by blast
qed

lemma poller_inv_alloc [inv_intros]:
  "poller_inv p \<Longrightarrow> \<not> known p c \<Longrightarrow> poller_inv (p\<lparr>store := (store p)(c := Channel_new fd)\<rparr>)"
  by (rule poller_inv_cong [of p]) (auto simp: known_def Channel_new_def)

lemma poller_inv_tie [inv_intros]: "poller_inv p \<Longrightarrow> poller_inv (Channel_tie c p)"
  by (rule poller_inv_cong [of p]) (auto simp: Channel_tie_def)

lemma fillActiveChannels_views:
  "ctl_log (snd (fillActiveChannels ready p)) = ctl_log p"
  "channels (snd (fillActiveChannels ready p)) = channels p"
  "ch_index (store (snd (fillActiveChannels ready p)) c) = ch_index (store p c)"
  "ch_fd (store (snd (fillActiveChannels ready p)) c) = ch_fd (store p c)"
  "ch_events (store (snd (fillActiveChannels ready p)) c) = ch_events (store p c)"
  by (induction ready p rule: fillActiveChannels.induct) (auto simp: Let_def split_beta)

lemma poller_inv_poll [inv_intros]: "poller_inv p \<Longrightarrow> poller_inv (snd (poll ready p))"
  by (rule poller_inv_cong [of p]) (auto simp: poll_def split_beta Let_def fillActiveChannels_views)

lemma fillActiveChannels_exited [simp]: "exited (snd (fillActiveChannels ready p)) = exited p"
  by (induction ready p rule: fillActiveChannels.induct) (auto simp: Let_def split_beta)

lemma fillActiveChannels_active: "fst (fillActiveChannels ready p) = map snd ready"
  by (induction ready p rule: fillActiveChannels.induct) (auto simp: Let_def split_beta)

text \<open>What the operations do to the write interest of their channel.\<close>

lemma isWriting_new [simp]: "\<not> isWriting (Channel_new fd)"
  by (simp add: isWriting_def Channel_new_def)

lemma isWriting_enableWriting [simp]: "isWriting (store (enableWriting accept c p) c)"
  by (simp add: request_folds request_store isWriting_def word_ao_absorbs) (simp add: event_masks epoll_bits)

lemma isWriting_disableWriting [simp]: "\<not> isWriting (store (disableWriting accept c p) c)"
  by (simp add: request_folds request_store isWriting_def and.assoc)

lemma isWriting_disableAll [simp]: "\<not> isWriting (store (disableAll accept c p) c)"
  by (simp add: request_folds request_store isWriting_def kNoneEvent_def)

lemma isWriting_enableReading [simp]:
  "isWriting (store (enableReading accept c p) c) \<longleftrightarrow> isWriting (store p c)"
  by (simp add: request_folds request_store isWriting_def word_ao_dist) (simp add: event_masks epoll_bits)

lemma isWriting_remove [simp]:
  "isWriting (store (Channel_remove accept c p) c) \<longleftrightarrow> isWriting (store p c)"
  by (simp add: Channel_remove_def removeChannel_store isWriting_def)

lemma isWriting_tie [simp]: "isWriting (store (Channel_tie c p) c) \<longleftrightarrow> isWriting (store p c)"
  by (simp add: Channel_tie_def isWriting_def)

section \<open>Reachable pollers\<close>

text \<open>
  What a loop thread can do to its poller: allocate a channel at a free address, change the mask of a
  channel that owns its descriptor, remove it, tie it, and wait for events.
\<close>

inductive poller_step :: "kernel \<Rightarrow> poller \<Rightarrow> poller \<Rightarrow> bool" for accept where
  alloc: "\<not> known p c \<Longrightarrow> poller_step accept p (p\<lparr>store := (store p)(c := Channel_new fd)\<rparr>)"
| enable_reading: "exclusive p c \<Longrightarrow> poller_step accept p (enableReading accept c p)"
| disable_reading: "exclusive p c \<Longrightarrow> poller_step accept p (disableReading accept c p)"
| enable_writing: "exclusive p c \<Longrightarrow> poller_step accept p (enableWriting accept c p)"
| disable_writing: "exclusive p c \<Longrightarrow> poller_step accept p (disableWriting accept c p)"
| disable_all: "exclusive p c \<Longrightarrow> poller_step accept p (disableAll accept c p)"
| remove: "exclusive p c \<Longrightarrow> poller_step accept p (Channel_remove accept c p)"
| tie: "poller_step accept p (Channel_tie c p)"
| wait: "poller_step accept p (snd (poll ready p))"

inductive poller_reachable :: "kernel \<Rightarrow> poller \<Rightarrow> bool" for accept where
  init: "(\<And>c. ch_index (st c) = kNew) \<Longrightarrow> poller_reachable accept (EPollPoller_new st)"
| step: "poller_reachable accept p \<Longrightarrow> poller_step accept p p' \<Longrightarrow> poller_reachable accept p'"

lemma poller_step_inv: "poller_step accept p p' \<Longrightarrow> poller_inv p \<Longrightarrow> poller_inv p'"
  by (induction rule: poller_step.induct)
    (auto simp: request_folds Channel_remove_def intro: inv_intros)

lemma poller_reachable_inv: "poller_reachable accept p \<Longrightarrow> poller_inv p"
  by (induction rule: poller_reachable.induct) (auto intro: inv_intros poller_step_inv)

lemma poller_step_exited:
  "poller_step accept p p' \<Longrightarrow> (\<And>log call. legal_call log call \<Longrightarrow> accept log call) \<Longrightarrow>
   poller_inv p \<Longrightarrow> exited p' = exited p"
  by (induction rule: poller_step.induct)
    (auto simp: request_folds Channel_remove_def request_exited removeChannel_exited Channel_tie_def
      poll_def split_beta Let_def)

lemma poller_reachable_running:
  "poller_reachable accept p \<Longrightarrow> (\<And>log call. legal_call log call \<Longrightarrow> accept log call) \<Longrightarrow> \<not> exited p"
proof (induction rule: poller_reachable.induct)
  case (init st)
  then show ?case by (simp add: EPollPoller_new_def)
next
  case (step p p')
  then show ?case using poller_step_exited poller_reachable_inv by blast
qed

section \<open>Properties\<close>

text \<open>
  (C4) The poller follows the epoll protocol.  Under a kernel that accepts every legal call, a loop
  that only touches channels owning their descriptor never issues an \<^verbatim>\<open>ADD\<close> for a registered
  descriptor or a \<^verbatim>\<open>MOD\<close> or \<^verbatim>\<open>DEL\<close> for an unregistered one, and the \<^verbatim>\<open>LOG_FATAL\<close> exit of
  \<^verbatim>\<open>EPollPoller::update\<close> is never reached.
\<close>

theorem poller_follows_epoll_protocol:
  assumes "poller_reachable accept p"
    and "\<forall>log call. legal_call log call \<longrightarrow> accept log call"
  shows "legal_log (ctl_log p) \<and> \<not> exited p"
  using assms poller_reachable_inv poller_reachable_running poller_invD(1) by blast

lemma sample_poller_reachable:
  "poller_reachable legal_call (enableReading legal_call 0 (EPollPoller_new (\<lambda>_. Channel_new 5)))"
proof (rule poller_reachable.step)
  show "poller_reachable legal_call (EPollPoller_new (\<lambda>_. Channel_new 5))"
    by (rule poller_reachable.init) (simp add: Channel_new_def)
qed (rule poller_step.enable_reading, simp add: exclusive_def known_def EPollPoller_new_def Channel_new_def)

theorem poller_follows_epoll_protocol_witness:
  "(let p = enableReading legal_call 0 (EPollPoller_new (\<lambda>_. Channel_new 5))
    in ctl_log p = [(CTL_ADD, 5, kReadEvent, 0)] \<and> legal_log (ctl_log p) \<and> \<not> exited p)"
  using poller_follows_epoll_protocol [OF sample_poller_reachable]
  by (simp add: Let_def request_folds request_log EPollPoller_new_def Channel_new_def)

text \<open>
  The kernel's interest set mirrors the channels.  In every reachable poller a descriptor is
  registered exactly when the channel that owns it is in state \<^verbatim>\<open>kAdded\<close>, and it is registered with
  that channel's pointer and its current event mask; \<^verbatim>\<open>hasChannel\<close> agrees with the marks.
\<close>

theorem epoll_mirrors_channels:
  assumes "poller_reachable accept p"
  shows "(interest (ctl_log p) fd = Some (ev, c) \<longleftrightarrow>
           ch_fd (store p c) = fd \<and> ch_index (store p c) = kAdded \<and> ch_events (store p c) = ev) \<and>
         (hasChannel c p \<longleftrightarrow> ch_index (store p c) \<noteq> kNew)"
proof -
  have inv: "poller_inv p" using assms by (rule poller_reachable_inv)
  note chan = poller_invD(5) [OF inv]
  have "interest (ctl_log p) fd = Some (ev, c) \<longleftrightarrow>
      channels p fd = Some c \<and> ch_index (store p c) = kAdded \<and> ch_events (store p c) = ev"
    unfolding poller_invD(4) [OF inv] by (auto split: option.splits)
  then show ?thesis
    using chan by (auto simp: hasChannel_def known_def)
qed

theorem epoll_mirrors_channels_witness:
  "(let p = enableReading legal_call 0 (EPollPoller_new (\<lambda>_. Channel_new 5))
    in interest (ctl_log p) 5 = Some (kReadEvent, 0) \<and> hasChannel 0 p)"
  using epoll_mirrors_channels [OF sample_poller_reachable, of 5 kReadEvent 0]
  by (simp add: Let_def request_folds request_store EPollPoller_new_def Channel_new_def)

end
