(* ===== verification/TcpConn.thy ===== *)
theory TcpConn
  imports NetBuffer ChannelPoller
begin

text \<open>
  \<^verbatim>\<open>src/net/TcpConnection.h\<close> and \<^verbatim>\<open>TcpConnection.cc\<close>: one connection, its two buffers, its channel in
  the poller of its loop, the queue of files to send and the functors it queues in the loop.  System
  calls are parameters that give the kernel's answer; what the kernel took from the connection is
  recorded in \<open>wire\<close>.  User callbacks are recorded in \<open>calls\<close> in the order they run: each is the
  last action of its handler, or runs in state \<^verbatim>\<open>kDisconnected\<close> where the sending operations do
  nothing, so what user code does inside a callback is an operation after the handler.
\<close>

section \<open>State\<close>

datatype StateE = kDisconnected | kConnecting | kConnected | kDisconnecting

record pending_file =
  pf_fd :: int
  pf_offset :: nat
  pf_remaining :: nat

text \<open>The closures a connection hands to \<^verbatim>\<open>runInLoop\<close> and \<^verbatim>\<open>queueInLoop\<close>.\<close>

datatype task = SendInLoop string | ShutdownInLoop | SendFileTask int nat nat
  | WriteComplete | HighWaterMark nat

datatype user_call = ConnectionCallback | MessageCallback | CloseCallbackUser

record tcp_conn =
  conn_state :: StateE
  chan :: nat
  lp :: poller
  inputBuffer :: buffer
  outputBuffer :: buffer
  highWaterMark :: nat
  pendingFiles :: "pending_file list"
  writeCompleteSet :: bool
  highWaterMarkSet :: bool
  functors :: "task list"
  calls :: "user_call list"
  wire :: string
  writeShut :: bool
  closedFds :: "int list"

definition EAGAIN :: nat where "EAGAIN = 11"
definition EPIPE :: nat where "EPIPE = 32"
definition ECONNRESET :: nat where "ECONNRESET = 104"

lemmas errnos = EAGAIN_def EPIPE_def ECONNRESET_def

text \<open>The constructor; \<open>wc\<close> and \<open>hw\<close> say which optional callbacks the owner installs.\<close>

definition TcpConnection_new :: "nat \<Rightarrow> poller \<Rightarrow> bool \<Rightarrow> bool \<Rightarrow> tcp_conn" where
  "TcpConnection_new ch p wc hw =
     \<lparr>conn_state = kConnecting, chan = ch, lp = p, inputBuffer = Buffer_new 4096, outputBuffer = Buffer_new 4096,
      highWaterMark = 64 * 1024 * 1024, pendingFiles = [], writeCompleteSet = wc, highWaterMarkSet = hw,
      functors = [], calls = [], wire = [], writeShut = False, closedFds = []\<rparr>"

definition conn_writing :: "tcp_conn \<Rightarrow> bool" where
  "conn_writing c \<longleftrightarrow> isWriting (store (lp c) (chan c))"

definition queueTask :: "task \<Rightarrow> tcp_conn \<Rightarrow> tcp_conn" where
  "queueTask t c = c\<lparr>functors := functors c @ [t]\<rparr>"

definition callUser :: "user_call \<Rightarrow> tcp_conn \<Rightarrow> tcp_conn" where
  "callUser u c = c\<lparr>calls := calls c @ [u]\<rparr>"

definition conn_enableWriting :: "kernel \<Rightarrow> tcp_conn \<Rightarrow> tcp_conn" where
  "conn_enableWriting accept c = c\<lparr>lp := enableWriting accept (chan c) (lp c)\<rparr>"

definition queueWriteComplete :: "tcp_conn \<Rightarrow> tcp_conn" where
  "queueWriteComplete c = (if writeCompleteSet c then queueTask WriteComplete c else c)"

section \<open>Sending\<close>

text \<open>\<open>write\<close> is the answer of \<^verbatim>\<open>write(2)\<close>: an \<^verbatim>\<open>errno\<close> or the number of bytes taken.\<close>

definition sendInLoop :: "kernel \<Rightarrow> (string \<Rightarrow> nat + nat) \<Rightarrow> string \<Rightarrow> tcp_conn \<Rightarrow> tcp_conn" where
  "sendInLoop accept write data c =
     (if conn_state c = kDisconnected then c
      else
        (let (nwrote, remaining, faultError, c1) =
           (if \<not> conn_writing c \<and> readableBytes (outputBuffer c) = 0
            then case write data of
                Inr n \<Rightarrow>
                  (let remaining = length data - n;
                       c' = c\<lparr>wire := wire c @ take n data\<rparr>
                   in (n, remaining, False, if remaining = 0 then queueWriteComplete c' else c'))
              | Inl err \<Rightarrow> (0, length data, err \<noteq> EAGAIN \<and> (err = EPIPE \<or> err = ECONNRESET), c)
            else (0, length data, False, c))
         in if \<not> faultError \<and> remaining > 0
            then
              (let oldLen = readableBytes (outputBuffer c1);
                   c2 = (if oldLen + remaining \<ge> highWaterMark c1 \<and> oldLen < highWaterMark c1
                            \<and> highWaterMarkSet c1
                         then queueTask (HighWaterMark (oldLen + remaining)) c1 else c1);
                   c3 = c2\<lparr>outputBuffer := Buffer_append (outputBuffer c2) (drop nwrote data)\<rparr>
               in if \<not> conn_writing c3 then conn_enableWriting accept c3 else c3)
            else c1))"

text \<open>
  \<^verbatim>\<open>send\<close> (its three overloads differ in how the bytes are copied only): in the loop thread directly,
  from another thread as a functor that owns a copy of the bytes.
\<close>

definition send :: "kernel \<Rightarrow> bool \<Rightarrow> (string \<Rightarrow> nat + nat) \<Rightarrow> string \<Rightarrow> tcp_conn \<Rightarrow> tcp_conn" where
  "send accept inLoop write msg c =
     (if conn_state c = kConnected
      then if inLoop then sendInLoop accept write msg c else queueTask (SendInLoop msg) c
      else c)"

text \<open>\<^verbatim>\<open>sendIov\<close>: at most \<open>kMaxIov\<close> slices reach \<^verbatim>\<open>writev\<close>; the loop appends what is left.\<close>

definition kMaxIov :: nat where "kMaxIov = 16"

fun append_slices :: "string list \<Rightarrow> buffer \<Rightarrow> buffer" where
  "append_slices [] b = b"
| "append_slices (s # ss) b = append_slices ss (Buffer_append b s)"

fun append_rest :: "nat \<Rightarrow> string list \<Rightarrow> buffer \<Rightarrow> buffer" where
  "append_rest skip [] b = b"
| "append_rest skip (s # ss) b =
     (if skip \<ge> length s then append_rest (skip - length s) ss b
      else append_rest 0 ss (Buffer_append b (drop skip s)))"

definition sendIov :: "kernel \<Rightarrow> bool \<Rightarrow> (string list \<Rightarrow> nat + nat) \<Rightarrow> string list \<Rightarrow> tcp_conn \<Rightarrow> tcp_conn" where
  "sendIov accept inLoop writev slices c =
     (if slices = [] \<or> conn_state c \<noteq> kConnected then c
      else if \<not> inLoop then queueTask (SendInLoop (concat slices)) c
      else if conn_writing c \<or> readableBytes (outputBuffer c) > 0
      then
        (let oldLen = readableBytes (outputBuffer c);
             added = sum_list (map length slices);
             c1 = c\<lparr>outputBuffer := append_slices slices (outputBuffer c)\<rparr>;
             c2 = (if oldLen < highWaterMark c1 \<and> oldLen + added \<ge> highWaterMark c1 \<and> highWaterMarkSet c1
                   then queueTask (HighWaterMark (oldLen + added)) c1 else c1)
         in if \<not> conn_writing c2 then conn_enableWriting accept c2 else c2)
      else
        (let iov = take (min (length slices) kMaxIov) slices;
             total = sum_list (map length iov);
             (nwrote, remaining, faultError, c1) =
               (case writev iov of
                  Inr n \<Rightarrow>
                    (let remaining = total - n;
                         c' = c\<lparr>wire := wire c @ take n (concat iov)\<rparr>
                     in (n, remaining, False, if remaining = 0 then queueWriteComplete c' else c'))
                | Inl err \<Rightarrow> (0, total, err \<noteq> EAGAIN \<and> (err = EPIPE \<or> err = ECONNRESET), c))
         in if \<not> faultError \<and> remaining > 0
            then
              (let c2 = c1\<lparr>outputBuffer := append_rest nwrote slices (outputBuffer c1)\<rparr>;
                   curLen = readableBytes (outputBuffer c2);
                   c3 = (if curLen \<ge> highWaterMark c2 \<and> highWaterMarkSet c2
                         then queueTask (HighWaterMark curLen) c2 else c2)
               in if \<not> conn_writing c3 then conn_enableWriting accept c3 else c3)
            else c1))"

section \<open>Files\<close>

text \<open>
  \<^verbatim>\<open>drainPendingFiles\<close>: the answer of the \<open>i\<close>-th \<^verbatim>\<open>sendfile\<close> of the loop is \<open>sendfile i pf toSend\<close>, and
  \<open>disk fd\<close> is the content of an open file.  The result is whether \<^verbatim>\<open>EPOLLOUT\<close> is still needed, the files
  left, the bytes the socket took and the descriptors closed.
\<close>

type_synonym sendfile_answers = "nat \<Rightarrow> pending_file \<Rightarrow> nat \<Rightarrow> nat + nat"

definition kBatch :: nat where "kBatch = 64 * 1024 * 1024"

fun drain_files ::
  "sendfile_answers \<Rightarrow> (int \<Rightarrow> string) \<Rightarrow> pending_file list \<Rightarrow> bool \<times> pending_file list \<times> string \<times> int list" where
  "drain_files sendfile disk [] = (False, [], [], [])"
| "drain_files sendfile disk (pf # rest) =
     (let toSend = (if pf_remaining pf < kBatch then pf_remaining pf else kBatch) in
      case sendfile 0 pf toSend of
        Inr n \<Rightarrow>
          if n > 0 then
            (let sent = take n (drop (pf_offset pf) (disk (pf_fd pf)));
                 pf' = pf\<lparr>pf_offset := pf_offset pf + n, pf_remaining := pf_remaining pf - n\<rparr> in
             if pf_remaining pf' = 0 then
               (let (still, fs, out, cl) = drain_files (\<lambda>i. sendfile (Suc i)) disk rest
                in (still, fs, sent @ out, pf_fd pf # cl))
             else (True, pf' # rest, sent, []))
          else
            (let (still, fs, out, cl) = drain_files (\<lambda>i. sendfile (Suc i)) disk rest
             in (still, fs, out, pf_fd pf # cl))
      | Inl err \<Rightarrow>
          if err = EAGAIN then (True, pf # rest, [], [])
          else (rest \<noteq> [], rest, [], [pf_fd pf]))"

definition drainPendingFiles :: "sendfile_answers \<Rightarrow> (int \<Rightarrow> string) \<Rightarrow> tcp_conn \<Rightarrow> bool \<times> tcp_conn" where
  "drainPendingFiles sendfile disk c =
     (let (still, fs, out, cl) = drain_files sendfile disk (pendingFiles c)
      in (still, c\<lparr>pendingFiles := fs, wire := wire c @ out, closedFds := closedFds c @ cl\<rparr>))"

definition closePendingFiles :: "tcp_conn \<Rightarrow> tcp_conn" where
  "closePendingFiles c = c\<lparr>closedFds := closedFds c @ map pf_fd (pendingFiles c), pendingFiles := []\<rparr>"

definition sendFile ::
  "kernel \<Rightarrow> bool \<Rightarrow> sendfile_answers \<Rightarrow> (int \<Rightarrow> string) \<Rightarrow> int \<Rightarrow> nat \<Rightarrow> nat \<Rightarrow> tcp_conn \<Rightarrow> tcp_conn" where
  "sendFile accept inLoop sendfile disk fd offset count c =
     (if conn_state c \<noteq> kConnected \<or> count = 0
      then if fd \<ge> 0 then c\<lparr>closedFds := closedFds c @ [fd]\<rparr> else c
      else if \<not> inLoop then queueTask (SendFileTask fd offset count) c
      else
        (let c1 = c\<lparr>pendingFiles := pendingFiles c @
                     [\<lparr>pf_fd = fd, pf_offset = offset, pf_remaining = count\<rparr>]\<rparr> in
         if conn_writing c1 \<or> readableBytes (outputBuffer c1) > 0
         then if \<not> conn_writing c1 then conn_enableWriting accept c1 else c1
         else
           (let (stillNeed, c2) = drainPendingFiles sendfile disk c1 in
            if stillNeed
            then if \<not> conn_writing c2 then conn_enableWriting accept c2 else c2
            else queueWriteComplete c2)))"

section \<open>Handlers\<close>

definition shutdownInLoop :: "tcp_conn \<Rightarrow> tcp_conn" where
  "shutdownInLoop c = (if \<not> conn_writing c then c\<lparr>writeShut := True\<rparr> else c)"

definition shutdown :: "bool \<Rightarrow> tcp_conn \<Rightarrow> tcp_conn" where
  "shutdown inLoop c =
     (if conn_state c = kConnected
      then let c1 = c\<lparr>conn_state := kDisconnecting\<rparr>
           in if inLoop then shutdownInLoop c1 else queueTask ShutdownInLoop c1
      else c)"

definition handleClose :: "kernel \<Rightarrow> tcp_conn \<Rightarrow> tcp_conn" where
  "handleClose accept c =
     (let c1 = c\<lparr>conn_state := kDisconnected\<rparr>;
          c2 = c1\<lparr>lp := disableAll accept (chan c1) (lp c1)\<rparr>
      in callUser CloseCallbackUser (callUser ConnectionCallback c2))"

text \<open>\<^verbatim>\<open>handleError\<close> reads \<^verbatim>\<open>SO_ERROR\<close> and logs it; the connection does not change.\<close>

definition handleError :: "tcp_conn \<Rightarrow> tcp_conn" where
  "handleError c = c"

definition handleRead :: "kernel \<Rightarrow> (nat \<Rightarrow> nat + string) \<Rightarrow> tcp_conn \<Rightarrow> tcp_conn" where
  "handleRead accept readv c =
     (let (n, b) = readFd readv (inputBuffer c);
          c1 = c\<lparr>inputBuffer := b\<rparr> in
      case n of
        Inr k \<Rightarrow> if k > 0 then callUser MessageCallback c1 else handleClose accept c1
      | Inl savedErrno \<Rightarrow> handleError c1)"

definition handleWrite ::
  "kernel \<Rightarrow> (string \<Rightarrow> nat + nat) \<Rightarrow> sendfile_answers \<Rightarrow> (int \<Rightarrow> string) \<Rightarrow> tcp_conn \<Rightarrow> tcp_conn" where
  "handleWrite accept write sendfile disk c =
     (if \<not> conn_writing c then c
      else
        (let (done, c1) =
           (if readableBytes (outputBuffer c) > 0
            then case writeFd write (outputBuffer c) of
                Inr n \<Rightarrow>
                  if n > 0
                  then let c' = c\<lparr>wire := wire c @ take n (take (readableBytes (outputBuffer c)) (peek (outputBuffer c))),
                                  outputBuffer := retrieve (outputBuffer c) n\<rparr>
                       in (readableBytes (outputBuffer c') > 0, c')
                  else (True, c)
              | Inl _ \<Rightarrow> (True, c)
            else (False, c))
         in if done then c1
            else
              (let (stillNeedWrite, c2) = drainPendingFiles sendfile disk c1 in
               if stillNeedWrite then c2
               else
                 (let c3 = queueWriteComplete (c2\<lparr>lp := disableWriting accept (chan c2) (lp c2)\<rparr>)
                  in if conn_state c3 = kDisconnecting then shutdownInLoop c3 else c3))))"

definition connectEstablished :: "kernel \<Rightarrow> tcp_conn \<Rightarrow> tcp_conn" where
  "connectEstablished accept c =
     (let c1 = c\<lparr>conn_state := kConnected\<rparr>;
          c2 = c1\<lparr>lp := enableReading accept (chan c1) (Channel_tie (chan c1) (lp c1))\<rparr>
      in callUser ConnectionCallback c2)"

definition connectDestroyed :: "kernel \<Rightarrow> tcp_conn \<Rightarrow> tcp_conn" where
  "connectDestroyed accept c =
     (let c1 = (if conn_state c = kConnected
                then callUser ConnectionCallback
                       (c\<lparr>conn_state := kDisconnected, lp := disableAll accept (chan c) (lp c)\<rparr>)
                else c)
      in c1\<lparr>lp := Channel_remove accept (chan c1) (lp c1)\<rparr>)"

text \<open>One functor of the connection, run by its loop in \<^verbatim>\<open>doPendingFunctors\<close>.\<close>

definition runTask ::
  "kernel \<Rightarrow> (string \<Rightarrow> nat + nat) \<Rightarrow> sendfile_answers \<Rightarrow> (int \<Rightarrow> string) \<Rightarrow> task \<Rightarrow> tcp_conn \<Rightarrow> tcp_conn" where
  "runTask accept write sendfile disk t c =
     (case t of
        SendInLoop msg \<Rightarrow> sendInLoop accept write msg c
      | ShutdownInLoop \<Rightarrow> shutdownInLoop c
      | SendFileTask fd offset count \<Rightarrow> sendFile accept True sendfile disk fd offset count c
      | WriteComplete \<Rightarrow> c
      | HighWaterMark _ \<Rightarrow> c)"

section \<open>What each operation does to the stream\<close>

lemmas conn_defs = queueTask_def callUser_def conn_enableWriting_def queueWriteComplete_def conn_writing_def

definition honest_write :: "('a \<Rightarrow> nat + nat) \<Rightarrow> ('a \<Rightarrow> nat) \<Rightarrow> 'a \<Rightarrow> bool" where
  "honest_write write len data =
     (case write data of Inr n \<Rightarrow> n \<le> len data | Inl err \<Rightarrow> err \<noteq> EPIPE \<and> err \<noteq> ECONNRESET)"

definition honest_sendfile :: "sendfile_answers \<Rightarrow> bool" where
  "honest_sendfile sendfile \<longleftrightarrow>
     (\<forall>i pf k. k > 0 \<longrightarrow> (case sendfile i pf k of Inr n \<Rightarrow> 0 < n \<and> n \<le> k | Inl err \<Rightarrow> err = EAGAIN))"

text \<open>
  The stream effect shared by all sending operations: the kernel takes the first \<open>n\<close> bytes now, and the
  rest waits in the output buffer with write interest on.
\<close>

definition streams :: "string \<Rightarrow> tcp_conn \<Rightarrow> tcp_conn \<Rightarrow> bool" where
  "streams data c c' \<longleftrightarrow>
     (\<exists>n \<le> length data. (conn_writing c \<or> contents (outputBuffer c) \<noteq> [] \<longrightarrow> n = 0) \<and>
        wire c' = wire c @ take n data \<and>
        contents (outputBuffer c') = contents (outputBuffer c) @ drop n data \<and>
        (conn_writing c' \<longleftrightarrow> conn_writing c \<or> drop n data \<noteq> [])) \<and>
     Buffer_inv (outputBuffer c') \<and> conn_state c' = conn_state c \<and> pendingFiles c' = pendingFiles c \<and>
     chan c' = chan c \<and> writeShut c' = writeShut c"

lemma readableBytes_pos_iff: "Buffer_inv b \<Longrightarrow> 0 < readableBytes b \<longleftrightarrow> contents b \<noteq> []"
  using readableBytes_0_iff [of b] by auto

lemma contents_append_slices:
  "Buffer_inv b \<Longrightarrow> Buffer_inv (append_slices ss b) \<and> contents (append_slices ss b) = contents b @ concat ss"
  by (induction ss b rule: append_slices.induct) (auto intro: inv_intros)

lemma contents_append_rest:
  "Buffer_inv b \<Longrightarrow> Buffer_inv (append_rest n ss b) \<and> contents (append_rest n ss b) = contents b @ drop n (concat ss)"
  by (induction n ss b rule: append_rest.induct) (auto intro: inv_intros)

lemma sendInLoop_streams:
  assumes inv: "Buffer_inv (outputBuffer c)" and up: "conn_state c \<noteq> kDisconnected"
    and kernel: "honest_write write length data"
    and idle: "conn_writing c \<longleftrightarrow> contents (outputBuffer c) \<noteq> [] \<or> pendingFiles c \<noteq> []"
  shows "streams data c (sendInLoop accept write data c)"
proof (cases "conn_writing c")
  case True
  then show ?thesis
    using inv up by (auto simp: streams_def sendInLoop_def conn_defs Let_def intro: inv_intros)
next
  case False
  then have empty: "contents (outputBuffer c) = []" "readableBytes (outputBuffer c) = 0"
    using idle inv by (auto simp: readableBytes_0_iff)
  show ?thesis
  proof (cases "write data")
    case (Inl err)
    then have "err \<noteq> EPIPE" "err \<noteq> ECONNRESET" using kernel by (auto simp: honest_write_def)
    then show ?thesis
      using False Inl inv up empty
      by (auto simp: streams_def sendInLoop_def conn_defs Let_def intro: inv_intros)
  next
    case (Inr n)
    then have "n \<le> length data" using kernel by (auto simp: honest_write_def)
    then show ?thesis
      using False Inr inv up empty
      by (auto simp: streams_def sendInLoop_def conn_defs Let_def intro!: inv_intros exI [of _ n])
  qed
qed

lemma sum_list_lengths: "sum_list (map length ss) = length (concat ss)"
  by (induction ss) auto

text \<open>
  A connection whose backlog and write interest agree; this is what makes \<^verbatim>\<open>sendInLoop\<close> and \<^verbatim>\<open>sendIov\<close>
  interchangeable.
\<close>

definition backlog_ok :: "tcp_conn \<Rightarrow> bool" where
  "backlog_ok c \<longleftrightarrow> Buffer_inv (outputBuffer c) \<and>
     (conn_writing c \<longleftrightarrow> contents (outputBuffer c) \<noteq> [] \<or> pendingFiles c \<noteq> [])"

text \<open>The connection up to the layout of its output buffer.\<close>

definition conn_view :: "tcp_conn \<Rightarrow> string \<times> tcp_conn" where
  "conn_view c = (contents (outputBuffer c), c\<lparr>outputBuffer := Buffer_new 0\<rparr>)"

lemma sendIov_refines_sendInLoop:
  assumes ok: "backlog_ok c" and up: "conn_state c = kConnected"
    and few: "length slices \<le> kMaxIov" and some: "slices \<noteq> []" and mark: "0 < highWaterMark c"
    and kernel: "writev slices = write (concat slices)"
  shows "conn_view (sendIov accept True writev slices c) = conn_view (sendInLoop accept write (concat slices) c)"
proof (cases "conn_writing c")
  case True
  have inv: "Buffer_inv (outputBuffer c)" using ok by (simp add: backlog_ok_def)
  note app = contents_append_slices [OF inv, of slices]
  show ?thesis
    using True inv up some app bq.bytes_put [OF inv, of "concat slices"]
    by (cases "concat slices = []")
      (auto simp: sendIov_def sendInLoop_def conn_view_def conn_defs Let_def sum_list_lengths
        simp del: concat_eq_Nil_conv)
next
  case False
  have inv: "Buffer_inv (outputBuffer c)" using ok by (simp add: backlog_ok_def)
  from False ok have empty: "contents (outputBuffer c) = []" "readableBytes (outputBuffer c) = 0"
    by (auto simp: backlog_ok_def readableBytes_0_iff)
  have iov: "take (min (length slices) kMaxIov) slices = slices" using few by simp
  note rest = contents_append_rest [OF inv, of _ slices]
  have curLen: "readableBytes (append_rest n slices (outputBuffer c)) = length (concat slices) - n" for n
    using rest [of n] empty by (simp flip: length_contents)
  show ?thesis
  proof (cases "write (concat slices)")
    case (Inl err)
    then show ?thesis
      using False inv up some empty iov kernel rest [of 0] curLen [of 0] mark bq.bytes_put [OF inv]
      by (auto simp: sendIov_def sendInLoop_def conn_view_def conn_defs Let_def sum_list_lengths)
  next
    case (Inr n)
    then show ?thesis
      using False inv up some empty iov kernel rest [of n] curLen [of n] mark bq.bytes_put [OF inv]
      by (auto simp: sendIov_def sendInLoop_def conn_view_def conn_defs Let_def sum_list_lengths)
  qed
qed

lemma sendIov_streams:
  assumes ok: "backlog_ok c" and up: "conn_state c = kConnected"
    and few: "length slices \<le> kMaxIov"
    and kernel: "honest_write writev (length \<circ> concat) slices"
  shows "streams (concat slices) c (sendIov accept True writev slices c)"
proof (cases "slices = [] \<or> conn_writing c")
  case True
  have inv: "Buffer_inv (outputBuffer c)" using ok by (simp add: backlog_ok_def)
  from True show ?thesis
    using inv up contents_append_slices [OF inv, of slices]
    by (auto simp: streams_def sendIov_def conn_defs Let_def intro!: exI [of _ 0])
next
  case False
  have inv: "Buffer_inv (outputBuffer c)" using ok by (simp add: backlog_ok_def)
  from False ok have empty: "contents (outputBuffer c) = []" "readableBytes (outputBuffer c) = 0"
    by (auto simp: backlog_ok_def readableBytes_0_iff)
  have iov: "take (min (length slices) kMaxIov) slices = slices" using few by simp
  note rest = contents_append_rest [OF inv, of _ slices]
  show ?thesis
  proof (cases "writev slices")
    case (Inl err)
    then have "err \<noteq> EPIPE" "err \<noteq> ECONNRESET" using kernel by (auto simp: honest_write_def)
    then show ?thesis
      using False Inl inv up empty iov rest [of 0]
      by (auto simp: streams_def sendIov_def conn_defs Let_def sum_list_lengths intro!: exI [of _ 0])
  next
    case (Inr n)
    then have "n \<le> length (concat slices)" using kernel by (auto simp: honest_write_def)
    then show ?thesis
      using False Inr inv up empty iov rest [of n]
      by (auto simp: streams_def sendIov_def conn_defs Let_def sum_list_lengths intro!: exI [of _ n])
  qed
qed

section \<open>Files\<close>

definition file_bytes :: "(int \<Rightarrow> string) \<Rightarrow> pending_file \<Rightarrow> string" where
  "file_bytes disk pf = take (pf_remaining pf) (drop (pf_offset pf) (disk (pf_fd pf)))"

definition files_bytes :: "(int \<Rightarrow> string) \<Rightarrow> pending_file list \<Rightarrow> string" where
  "files_bytes disk fs = concat (map (file_bytes disk) fs)"

lemma files_bytes_simps [simp]:
  "files_bytes disk [] = []"
  "files_bytes disk (pf # fs) = file_bytes disk pf @ files_bytes disk fs"
  "files_bytes disk (fs @ gs) = files_bytes disk fs @ files_bytes disk gs"
  by (simp_all add: files_bytes_def)

lemma file_bytes_advance:
  "n \<le> pf_remaining pf \<Longrightarrow>
     take n (drop (pf_offset pf) (disk (pf_fd pf))) @
     file_bytes disk (pf\<lparr>pf_offset := pf_offset pf + n, pf_remaining := pf_remaining pf - n\<rparr>) = file_bytes disk pf"
  by (simp add: file_bytes_def add.commute flip: take_add drop_drop)

lemma honest_sendfileD:
  assumes "honest_sendfile sf" and "0 < k"
  shows "sf i pf k = Inr n \<Longrightarrow> 0 < n \<and> n \<le> k" and "sf i pf k = Inl err \<Longrightarrow> err = EAGAIN"
proof -
  have "case sf i pf k of Inr n \<Rightarrow> 0 < n \<and> n \<le> k | Inl err \<Rightarrow> err = EAGAIN"
    using assms unfolding honest_sendfile_def by blast
  then show "sf i pf k = Inr n \<Longrightarrow> 0 < n \<and> n \<le> k" and "sf i pf k = Inl err \<Longrightarrow> err = EAGAIN"
    by simp_all
qed

lemma honest_sendfile_Suc: "honest_sendfile sf \<Longrightarrow> honest_sendfile (\<lambda>i. sf (Suc i))"
  by (simp add: honest_sendfile_def)

text \<open>Draining sends a prefix of the queued file bytes and asks for \<^verbatim>\<open>EPOLLOUT\<close> exactly if files are left.\<close>

lemma drain_files_stream:
  "honest_sendfile sf \<Longrightarrow> \<forall>pf \<in> set fs. 0 < pf_remaining pf \<Longrightarrow>
   drain_files sf disk fs = (still, fs', out, cl) \<Longrightarrow>
     out @ files_bytes disk fs' = files_bytes disk fs \<and> (still \<longleftrightarrow> fs' \<noteq> []) \<and>
     (\<forall>pf \<in> set fs'. 0 < pf_remaining pf)"
proof (induction sf disk fs arbitrary: still fs' out cl rule: drain_files.induct)
  case (1 sf disk)
  then show ?case by simp
next
  case (2 sf disk pf rest)
  let ?k = "if pf_remaining pf < kBatch then pf_remaining pf else kBatch"
  have k: "0 < ?k" "?k \<le> pf_remaining pf" using 2(4) by (auto simp: kBatch_def)
  show ?case
  proof (cases "sf 0 pf ?k")
    case (Inl err)
    with 2(3-5) k honest_sendfileD(2) [OF 2(3) k(1) Inl] show ?thesis by (auto simp: Let_def)
  next
    case (Inr n)
    have n: "0 < n" "n \<le> pf_remaining pf"
      using honest_sendfileD(1) [OF 2(3) k(1) Inr] k(2) by simp_all
    show ?thesis
    proof (cases "pf_remaining pf - n = 0")
      case True
      obtain s2 f2 o2 c2 where d: "drain_files (\<lambda>i. sf (Suc i)) disk rest = (s2, f2, o2, c2)"
        by (metis prod_cases4)
      have "o2 @ files_bytes disk f2 = files_bytes disk rest \<and> (s2 \<longleftrightarrow> f2 \<noteq> []) \<and>
          (\<forall>pf \<in> set f2. 0 < pf_remaining pf)"
        using 2(1) [OF refl Inr n(1) refl refl _ honest_sendfile_Suc [OF 2(3)] _ d] True 2(4) by simp
      moreover have "file_bytes disk pf = take n (drop (pf_offset pf) (disk (pf_fd pf)))"
        using True n by (simp add: file_bytes_def)
      ultimately show ?thesis using 2(5) Inr n True d by (auto simp: Let_def)
    next
      case False
      then show ?thesis
        using 2(4,5) Inr n file_bytes_advance [OF n(2), of disk] by (auto simp: Let_def)
    qed
  qed
qed

section \<open>Sessions\<close>

text \<open>
  What can happen to a connection: its loop thread sends, drains and closes, other threads queue
  functors, and the loop runs them in order.  The label is what the step accepts for sending.  The
  rules that send bytes ask for an empty file queue, because \<^verbatim>\<open>handleWrite\<close> empties the output buffer
  before the file queue.
\<close>

definition file_slice :: "(int \<Rightarrow> string) \<Rightarrow> int \<Rightarrow> nat \<Rightarrow> nat \<Rightarrow> string" where
  "file_slice disk fd offset count = take count (drop offset (disk fd))"

fun task_bytes :: "(int \<Rightarrow> string) \<Rightarrow> StateE \<Rightarrow> task \<Rightarrow> string" where
  "task_bytes disk st (SendInLoop msg) = (if st = kDisconnected then [] else msg)"
| "task_bytes disk st (SendFileTask fd offset count) = (if st = kConnected then file_slice disk fd offset count else [])"
| "task_bytes disk st _ = []"

inductive conn_step :: "kernel \<Rightarrow> (int \<Rightarrow> string) \<Rightarrow> tcp_conn \<Rightarrow> string \<Rightarrow> tcp_conn \<Rightarrow> bool" for accept disk where
  send_local: "conn_state c = kConnected \<Longrightarrow> pendingFiles c = [] \<Longrightarrow> honest_write write length msg \<Longrightarrow>
    conn_step accept disk c msg (send accept True write msg c)"
| send_remote: "conn_step accept disk c [] (send accept False write msg c)"
| send_refused: "conn_state c \<noteq> kConnected \<Longrightarrow> conn_step accept disk c [] (send accept inLoop write msg c)"
| iov_local: "conn_state c = kConnected \<Longrightarrow> pendingFiles c = [] \<Longrightarrow> length slices \<le> kMaxIov \<Longrightarrow>
    honest_write writev (length \<circ> concat) slices \<Longrightarrow>
    conn_step accept disk c (concat slices) (sendIov accept True writev slices c)"
| iov_remote: "conn_step accept disk c [] (sendIov accept False writev slices c)"
| file_local: "conn_state c = kConnected \<Longrightarrow> honest_sendfile sf \<Longrightarrow>
    conn_step accept disk c (file_slice disk fd offset count) (sendFile accept True sf disk fd offset count c)"
| file_remote: "conn_step accept disk c [] (sendFile accept False sf disk fd offset count c)"
| run_task: "functors c = t # ts \<Longrightarrow> honest_sendfile sf \<Longrightarrow>
    (\<And>msg. t = SendInLoop msg \<Longrightarrow> pendingFiles c = [] \<and> honest_write write length msg) \<Longrightarrow>
    conn_step accept disk c (task_bytes disk (conn_state c) t)
      (runTask accept write sf disk t (c\<lparr>functors := ts\<rparr>))"
| writable: "honest_write write length (contents (outputBuffer c)) \<Longrightarrow> honest_sendfile sf \<Longrightarrow>
    conn_step accept disk c [] (handleWrite accept write sf disk c)"
| readable: "conn_step accept disk c [] (handleRead accept readv c)"
| shut: "conn_step accept disk c [] (shutdown inLoop c)"
| closed: "conn_step accept disk c [] (handleClose accept c)"
| destroyed: "conn_state c \<noteq> kDisconnecting \<Longrightarrow> conn_step accept disk c [] (connectDestroyed accept c)"

inductive conn_reach :: "kernel \<Rightarrow> (int \<Rightarrow> string) \<Rightarrow> tcp_conn \<Rightarrow> string \<Rightarrow> bool" for accept disk where
  established: "\<not> isWriting (store p ch) \<Longrightarrow>
    conn_reach accept disk (connectEstablished accept (TcpConnection_new ch p wc hw)) []"
| step: "conn_reach accept disk c acc \<Longrightarrow> conn_step accept disk c bytes c' \<Longrightarrow>
    conn_reach accept disk c' (acc @ bytes)"

text \<open>
  The invariant: the bytes on the wire, then the output buffer, then the queued files are what was
  accepted, and write interest is on exactly while something waits.
\<close>

definition conn_inv :: "(int \<Rightarrow> string) \<Rightarrow> string \<Rightarrow> tcp_conn \<Rightarrow> bool" where
  "conn_inv disk acc c \<longleftrightarrow>
     Buffer_inv (outputBuffer c) \<and>
     (\<forall>pf \<in> set (pendingFiles c). 0 < pf_remaining pf) \<and>
     wire c @ contents (outputBuffer c) @ files_bytes disk (pendingFiles c) = acc \<and>
     (if conn_state c = kDisconnected then \<not> conn_writing c
      else conn_writing c \<longleftrightarrow> contents (outputBuffer c) \<noteq> [] \<or> pendingFiles c \<noteq> [])"

lemma conn_inv_functors [simp]: "conn_inv disk acc (c\<lparr>functors := ts\<rparr>) = conn_inv disk acc c"
  by (simp add: conn_inv_def conn_writing_def)

lemma conn_inv_queueTask [simp]: "conn_inv disk acc (queueTask t c) = conn_inv disk acc c"
  by (simp add: queueTask_def)

lemma conn_inv_queueWriteComplete [simp]: "conn_inv disk acc (queueWriteComplete c) = conn_inv disk acc c"
  by (simp add: queueWriteComplete_def)

lemma conn_inv_callUser [simp]: "conn_inv disk acc (callUser u c) = conn_inv disk acc c"
  by (simp add: callUser_def conn_inv_def conn_writing_def)

lemma conn_inv_input [simp]: "conn_inv disk acc (c\<lparr>inputBuffer := b\<rparr>) = conn_inv disk acc c"
  by (simp add: conn_inv_def conn_writing_def)

lemma conn_inv_closedFds [simp]: "conn_inv disk acc (c\<lparr>closedFds := fds\<rparr>) = conn_inv disk acc c"
  by (simp add: conn_inv_def conn_writing_def)

lemma conn_inv_streams:
  assumes inv: "conn_inv disk acc c" and up: "conn_state c \<noteq> kDisconnected" and none: "pendingFiles c = []"
    and s: "streams data c c'"
  shows "conn_inv disk (acc @ data) c'"
proof -
  from s obtain n where n: "conn_writing c \<or> contents (outputBuffer c) \<noteq> [] \<Longrightarrow> n = 0"
      "wire c' = wire c @ take n data" "contents (outputBuffer c') = contents (outputBuffer c) @ drop n data"
      "conn_writing c' \<longleftrightarrow> conn_writing c \<or> drop n data \<noteq> []"
    and rest: "Buffer_inv (outputBuffer c')" "conn_state c' = conn_state c" "pendingFiles c' = pendingFiles c"
    unfolding streams_def by blast
  from inv n(1) have "wire c @ take n data @ contents (outputBuffer c) @ drop n data = acc @ data"
    unfolding conn_inv_def none by (cases "contents (outputBuffer c) = []") auto
  with inv up n rest none show ?thesis by (auto simp: conn_inv_def)
qed

lemma conn_inv_backlog: "conn_inv disk acc c \<Longrightarrow> conn_state c \<noteq> kDisconnected \<Longrightarrow> backlog_ok c"
  by (simp add: conn_inv_def backlog_ok_def)

lemma conn_inv_sendInLoop:
  assumes "conn_inv disk acc c" and "pendingFiles c = []" and "honest_write write length msg"
    and "conn_state c \<noteq> kDisconnected"
  shows "conn_inv disk (acc @ msg) (sendInLoop accept write msg c)"
  using assms by (intro conn_inv_streams [OF assms(1)] sendInLoop_streams) (auto simp: conn_inv_def)

lemma drainPendingFiles_stream:
  assumes acc: "wire c @ files_bytes disk (pendingFiles c) = acc"
    and left: "\<forall>pf \<in> set (pendingFiles c). 0 < pf_remaining pf"
    and kernel: "honest_sendfile sf" and d: "drainPendingFiles sf disk c = (still, c')"
  shows "wire c' @ files_bytes disk (pendingFiles c') = acc \<and>
    (still \<longleftrightarrow> pendingFiles c' \<noteq> []) \<and> (\<forall>pf \<in> set (pendingFiles c'). 0 < pf_remaining pf) \<and>
    outputBuffer c' = outputBuffer c \<and> conn_state c' = conn_state c \<and>
    lp c' = lp c \<and> chan c' = chan c \<and> writeShut c' = writeShut c"
proof -
  obtain s2 fs out cl where f: "drain_files sf disk (pendingFiles c) = (s2, fs, out, cl)"
    by (metis prod_cases4)
  have "out @ files_bytes disk fs = files_bytes disk (pendingFiles c) \<and> (s2 \<longleftrightarrow> fs \<noteq> []) \<and>
      (\<forall>pf \<in> set fs. 0 < pf_remaining pf)"
    using drain_files_stream [OF kernel left f] .
  with acc d f show ?thesis by (auto simp: drainPendingFiles_def)
qed

lemma conn_inv_sendFile:
  assumes inv: "conn_inv disk acc c" and up: "conn_state c = kConnected" and kernel: "honest_sendfile sf"
  shows "conn_inv disk (acc @ file_slice disk fd offset count) (sendFile accept True sf disk fd offset count c)"
proof (cases "count = 0")
  case True
  then show ?thesis using inv by (simp add: sendFile_def file_slice_def)
next
  case False
  let ?acc = "acc @ file_slice disk fd offset count"
  define c1 where "c1 = c\<lparr>pendingFiles := pendingFiles c @ [\<lparr>pf_fd = fd, pf_offset = offset, pf_remaining = count\<rparr>]\<rparr>"
  have inv1: "Buffer_inv (outputBuffer c1)" "\<forall>pf \<in> set (pendingFiles c1). 0 < pf_remaining pf"
      "wire c1 @ contents (outputBuffer c1) @ files_bytes disk (pendingFiles c1) = ?acc"
      "conn_state c1 = kConnected" "pendingFiles c1 \<noteq> []" "conn_writing c1 = conn_writing c"
    using inv up False by (auto simp: c1_def conn_inv_def conn_writing_def file_bytes_def file_slice_def)
  show ?thesis
  proof (cases "conn_writing c")
    case True
    then have "sendFile accept True sf disk fd offset count c = c1"
      using up False inv1(6) by (simp add: sendFile_def c1_def)
    with True inv1 show ?thesis by (simp add: conn_inv_def)
  next
    case idle: False
    with inv up have empty: "contents (outputBuffer c1) = []" "readableBytes (outputBuffer c1) = 0"
      by (auto simp: c1_def conn_inv_def readableBytes_0_iff)
    obtain still c2 where d: "drainPendingFiles sf disk c1 = (still, c2)" by (meson surj_pair)
    have "wire c1 @ files_bytes disk (pendingFiles c1) = ?acc" using inv1(3) empty by simp
    note c2 = drainPendingFiles_stream [OF this inv1(2) kernel d]
    have "sendFile accept True sf disk fd offset count c =
        (if still then conn_enableWriting accept c2 else queueWriteComplete c2)"
      using up False idle inv1(6) empty d c2 by (simp add: sendFile_def conn_writing_def flip: c1_def)
    then show ?thesis
      using c2 inv1 empty idle by (auto simp: conn_inv_def conn_defs)
  qed
qed

text \<open>
  \<^verbatim>\<open>handleWrite\<close> moves bytes from the front of the backlog to the wire.  When nothing is left it drops
  the write interest, and it is the place where a pending shutdown is carried out.
\<close>

definition write_finished :: "kernel \<Rightarrow> sendfile_answers \<Rightarrow> (int \<Rightarrow> string) \<Rightarrow> tcp_conn \<Rightarrow> tcp_conn" where
  "write_finished accept sf disk c =
     (let (stillNeedWrite, c2) = drainPendingFiles sf disk c in
      if stillNeedWrite then c2
      else let c3 = queueWriteComplete (c2\<lparr>lp := disableWriting accept (chan c2) (lp c2)\<rparr>)
           in if conn_state c3 = kDisconnecting then shutdownInLoop c3 else c3)"

lemma write_finished_stream:
  fixes accept :: kernel
  assumes acc: "wire c @ files_bytes disk (pendingFiles c) = acc"
    and left: "\<forall>pf \<in> set (pendingFiles c). 0 < pf_remaining pf"
    and buf: "Buffer_inv (outputBuffer c)" "contents (outputBuffer c) = []"
    and w: "conn_writing c" and up: "conn_state c \<noteq> kDisconnected" and kernel: "honest_sendfile sf"
  defines "c' \<equiv> write_finished accept sf disk c"
  shows "conn_inv disk acc c' \<and> (writeShut c' \<longrightarrow> writeShut c \<or> (conn_state c = kDisconnecting \<and> wire c' = acc))"
proof -
  obtain still c2 where d: "drainPendingFiles sf disk c = (still, c2)" by (meson surj_pair)
  note c2 = drainPendingFiles_stream [OF acc left kernel d]
  show ?thesis
    using c2 buf w up unfolding c'_def write_finished_def d
    by (auto simp: conn_inv_def conn_defs shutdownInLoop_def Let_def)
qed

lemma handleWrite_cases:
  assumes b: "Buffer_inv (outputBuffer c)" and w: "conn_writing c"
  defines "out \<equiv> contents (outputBuffer c)"
  shows "handleWrite accept write sf disk c =
    (if out = [] then write_finished accept sf disk c
     else case write out of
       Inr n \<Rightarrow>
         if n = 0 then c
         else let c1 = c\<lparr>wire := wire c @ take n out, outputBuffer := retrieve (outputBuffer c) n\<rparr>
              in if drop n out = [] then write_finished accept sf disk c1 else c1
     | Inl _ \<Rightarrow> c)"
proof -
  have "0 < readableBytes (retrieve (outputBuffer c) n) \<longleftrightarrow> drop n out \<noteq> []" for n
    using b by (simp add: readableBytes_pos_iff Buffer_inv_retrieve out_def)
  moreover have "0 < readableBytes (outputBuffer c) \<longleftrightarrow> out \<noteq> []"
    using b by (simp add: readableBytes_pos_iff out_def)
  moreover have "writeFd write (outputBuffer c) = write out"
      "take (readableBytes (outputBuffer c)) (peek (outputBuffer c)) = out"
    by (simp_all add: writeFd_def out_def flip: contents_eq_peek)
  ultimately show ?thesis
    using w by (simp add: handleWrite_def write_finished_def Let_def split: sum.split)
qed

lemma handleWrite_stream:
  fixes accept :: kernel
  assumes inv: "conn_inv disk acc c"
    and kw: "honest_write write length (contents (outputBuffer c))" and kernel: "honest_sendfile sf"
  defines "c' \<equiv> handleWrite accept write sf disk c"
  shows "conn_inv disk acc c' \<and> (writeShut c' \<longrightarrow> writeShut c \<or> (conn_state c = kDisconnecting \<and> wire c' = acc))"
proof (cases "conn_writing c")
  case False
  then show ?thesis using inv by (simp add: c'_def handleWrite_def)
next
  case w: True
  let ?out = "contents (outputBuffer c)"
  have up: "conn_state c \<noteq> kDisconnected" and b: "Buffer_inv (outputBuffer c)"
      and left: "\<forall>pf \<in> set (pendingFiles c). 0 < pf_remaining pf"
      and acc: "wire c @ ?out @ files_bytes disk (pendingFiles c) = acc"
    using inv w by (auto simp: conn_inv_def)
  note hw = handleWrite_cases [OF b w]
  show ?thesis
  proof (cases "?out = []")
    case True
    then show ?thesis
      using write_finished_stream [OF _ left b True w up kernel, where acc = acc and accept = accept] acc by (simp add: c'_def hw)
  next
    case out: False
    define c1 where "c1 n = c\<lparr>wire := wire c @ take n ?out, outputBuffer := retrieve (outputBuffer c) n\<rparr>" for n
    have td: "take n ?out @ drop n ?out @ ys = ?out @ ys" for n ys
      by (simp flip: append_assoc)
    have c1: "Buffer_inv (outputBuffer (c1 n))" "contents (outputBuffer (c1 n)) = drop n ?out"
        "\<forall>pf \<in> set (pendingFiles (c1 n)). 0 < pf_remaining pf" "conn_writing (c1 n)" "conn_state (c1 n) = conn_state c"
        "wire (c1 n) @ contents (outputBuffer (c1 n)) @ files_bytes disk (pendingFiles (c1 n)) = acc"
        "writeShut (c1 n) = writeShut c" for n
      using b left w acc by (auto simp: c1_def conn_writing_def Buffer_inv_retrieve td)
    have fin: "conn_inv disk acc (write_finished accept sf disk (c1 n)) \<and>
        (writeShut (write_finished accept sf disk (c1 n)) \<longrightarrow>
          writeShut c \<or> (conn_state c = kDisconnecting \<and> wire (write_finished accept sf disk (c1 n)) = acc))"
      if "drop n ?out = []" for n
    proof -
      have "wire (c1 n) @ files_bytes disk (pendingFiles (c1 n)) = acc" using c1(6) [of n] that c1(2) by simp
      from write_finished_stream [OF this c1(3,1) _ c1(4) _ kernel, where accept = accept]
      show ?thesis using c1(2,5,7) that up by simp
    qed
    have part: "conn_inv disk acc (c1 n)" if "drop n ?out \<noteq> []" for n
      using c1 that up by (auto simp: conn_inv_def)
    show ?thesis
      using fin part c1(7) out inv
      by (auto simp: c'_def hw Let_def split: sum.split simp flip: c1_def)
  qed
qed

lemma conn_inv_shutdownInLoop [simp]: "conn_inv disk acc (shutdownInLoop c) = conn_inv disk acc c"
  by (simp add: shutdownInLoop_def conn_inv_def conn_writing_def)

lemma conn_inv_handleClose: "conn_inv disk acc c \<Longrightarrow> conn_inv disk acc (handleClose accept c)"
  by (simp add: handleClose_def Let_def conn_inv_def conn_writing_def callUser_def)

lemma conn_inv_handleRead: "conn_inv disk acc c \<Longrightarrow> conn_inv disk acc (handleRead accept readv c)"
  by (auto simp: handleRead_def handleError_def split_beta Let_def conn_inv_handleClose split: sum.split)

lemma conn_inv_shutdown: "conn_inv disk acc c \<Longrightarrow> conn_inv disk acc (shutdown inLoop c)"
  by (auto simp: shutdown_def shutdownInLoop_def Let_def conn_inv_def conn_defs)

lemma conn_inv_connectDestroyed:
  "conn_inv disk acc c \<Longrightarrow> conn_state c \<noteq> kDisconnecting \<Longrightarrow> conn_inv disk acc (connectDestroyed accept c)"
  by (auto simp: connectDestroyed_def Let_def conn_inv_def conn_writing_def callUser_def)

lemma sendInLoop_disconnected [simp]: "conn_state c = kDisconnected \<Longrightarrow> sendInLoop accept write data c = c"
  by (simp add: sendInLoop_def)

lemma conn_inv_sendFile_refused:
  "conn_inv disk acc c \<Longrightarrow> conn_state c \<noteq> kConnected \<or> \<not> inLoop \<Longrightarrow>
     conn_inv disk acc (sendFile accept inLoop sf disk fd offset count c)"
  by (auto simp: sendFile_def)

lemma conn_inv_runTask:
  assumes inv: "conn_inv disk acc c" and sf: "honest_sendfile sf"
    and w: "\<And>msg. t = SendInLoop msg \<Longrightarrow> pendingFiles c = [] \<and> honest_write write length msg"
  shows "conn_inv disk (acc @ task_bytes disk (conn_state c) t) (runTask accept write sf disk t c)"
proof (cases t)
  case (SendInLoop msg)
  then show ?thesis using inv w [OF SendInLoop]
    by (cases "conn_state c = kDisconnected") (auto simp: runTask_def conn_inv_sendInLoop)
next
  case (SendFileTask fd offset count)
  then show ?thesis using inv conn_inv_sendFile [OF inv _ sf]
    by (cases "conn_state c = kConnected") (auto simp: runTask_def conn_inv_sendFile_refused)
qed (use inv in \<open>auto simp: runTask_def\<close>)

lemma conn_inv_established:
  "\<not> isWriting (store p ch) \<Longrightarrow> conn_inv disk [] (connectEstablished accept (TcpConnection_new ch p wc hw))"
  by (simp add: connectEstablished_def TcpConnection_new_def Let_def conn_inv_def conn_writing_def
      callUser_def Buffer_new_inv)

lemma conn_step_inv:
  "conn_step accept disk c bytes c' \<Longrightarrow> conn_inv disk acc c \<Longrightarrow> conn_inv disk (acc @ bytes) c'"
proof (induction rule: conn_step.induct)
  case (iov_local c slices writev)
  then show ?case
    by (intro conn_inv_streams [of disk acc c] sendIov_streams conn_inv_backlog) auto
next
  case (run_task c t ts sf "write")
  then show ?case using conn_inv_runTask [of disk acc "c\<lparr>functors := ts\<rparr>" sf t] by simp
qed (auto simp: send_def sendIov_def handleWrite_stream
    intro: conn_inv_sendInLoop conn_inv_sendFile conn_inv_sendFile_refused conn_inv_handleRead conn_inv_shutdown conn_inv_handleClose
      conn_inv_connectDestroyed)

lemma conn_reach_inv: "conn_reach accept disk c acc \<Longrightarrow> conn_inv disk acc c"
  by (induction rule: conn_reach.induct) (auto intro: conn_inv_established conn_step_inv)

text \<open>Only three steps can close the write side; each finds nothing waiting.\<close>

lemma writeShut_sendInLoop [simp]: "writeShut (sendInLoop accept write data c) = writeShut c"
  by (simp add: sendInLoop_def conn_defs Let_def split: sum.split)

lemma writeShut_sendIov [simp]: "writeShut (sendIov accept inLoop writev slices c) = writeShut c"
  by (simp add: sendIov_def conn_defs Let_def split: sum.split)

lemma writeShut_sendFile [simp]: "writeShut (sendFile accept inLoop sf disk fd offset count c) = writeShut c"
  by (simp add: sendFile_def drainPendingFiles_def conn_defs Let_def split_beta)

lemma writeShut_handlers [simp]:
  "writeShut (handleClose accept c) = writeShut c" "writeShut (handleRead accept readv c) = writeShut c"
  "writeShut (connectDestroyed accept c) = writeShut c"
  by (auto simp: handleClose_def handleRead_def handleError_def connectDestroyed_def callUser_def Let_def
      split_beta split: sum.split)

lemma shutdownInLoop_empty:
  "conn_inv disk acc c \<Longrightarrow> writeShut (shutdownInLoop c) \<Longrightarrow> \<not> writeShut c \<Longrightarrow> conn_state c \<noteq> kDisconnected \<Longrightarrow>
     wire (shutdownInLoop c) = acc"
  by (auto simp: shutdownInLoop_def conn_inv_def split: if_splits)

lemma conn_step_writeShut:
  "conn_step accept disk c bytes c' \<Longrightarrow> conn_inv disk acc c \<Longrightarrow> \<not> writeShut c \<Longrightarrow> writeShut c' \<Longrightarrow>
     conn_state c' \<noteq> kDisconnected \<Longrightarrow> wire c' = acc @ bytes"
proof (induction rule: conn_step.induct)
  case (run_task c t ts sf "write")
  then show ?case
    by (cases t) (auto simp: runTask_def shutdownInLoop_def conn_inv_def conn_writing_def split: if_splits)
next
  case (writable "write" c sf)
  then show ?case using handleWrite_stream [OF writable(3,1,2), of accept] by auto
next
  case (shut c inLoop)
  then show ?case
    by (auto simp: shutdown_def shutdownInLoop_def conn_inv_def conn_defs Let_def split: if_splits)
qed (auto simp: send_def queueTask_def split: if_splits)

section \<open>Properties\<close>

abbreviation sample_conn :: tcp_conn where
  "sample_conn \<equiv> connectEstablished legal_call (TcpConnection_new 0 (EPollPoller_new (\<lambda>_. Channel_new 5)) True True)"

lemma sample_conn_idle:
  "conn_state sample_conn = kConnected" "pendingFiles sample_conn = []" "functors sample_conn = []"
  "wire sample_conn = []" "contents (outputBuffer sample_conn) = []" "readableBytes (outputBuffer sample_conn) = 0"
  "\<not> conn_writing sample_conn" "writeShut sample_conn = False" "Buffer_inv (outputBuffer sample_conn)"
  "highWaterMark sample_conn = 64 * 1024 * 1024"
  by (simp_all add: connectEstablished_def TcpConnection_new_def callUser_def conn_writing_def Let_def
      EPollPoller_new_def Buffer_new_inv readableBytes_0_iff)

lemma sample_conn_reach: "conn_reach legal_call disk sample_conn []"
  by (rule conn_reach.established) (simp add: EPollPoller_new_def)

lemma sample_send_reach:
  "conn_reach legal_call disk (send legal_call True (\<lambda>_. Inr 5) ''hello'' sample_conn) ''hello''"
proof -
  have "conn_step legal_call disk sample_conn ''hello'' (send legal_call True (\<lambda>_. Inr 5) ''hello'' sample_conn)"
    by (rule conn_step.send_local) (simp_all add: sample_conn_idle honest_write_def)
  from conn_reach.step [OF sample_conn_reach this] show ?thesis by simp
qed



text \<open>
  No lost wakeup and no busy loop: while a connection is not disconnected, its channel has write
  interest exactly when bytes or files wait to be sent.
\<close>

theorem write_interest_iff_backlog:
  assumes "conn_reach accept disk c acc" and "conn_state c \<noteq> kDisconnected"
  shows "conn_writing c \<longleftrightarrow> contents (outputBuffer c) \<noteq> [] \<or> pendingFiles c \<noteq> []"
  using conn_reach_inv [OF assms(1)] assms(2) by (simp add: conn_inv_def)

theorem write_interest_iff_backlog_witness:
  "conn_state sample_conn \<noteq> kDisconnected \<and>
   (conn_writing sample_conn \<longleftrightarrow> contents (outputBuffer sample_conn) \<noteq> [] \<or> pendingFiles sample_conn \<noteq> [])"
  using write_interest_iff_backlog [OF sample_conn_reach] by (simp add: sample_conn_idle(1))

text \<open>
  (C18) Graceful shutdown: in the step that closes the write side of a connection that is not
  disconnected, everything accepted so far is on the wire.
\<close>

theorem shutdown_after_last_byte:
  assumes "conn_reach accept disk c acc" and "conn_step accept disk c bytes c'"
    and "\<not> writeShut c" and "writeShut c'" and "conn_state c' \<noteq> kDisconnected"
  shows "wire c' = acc @ bytes"
  using conn_step_writeShut [OF assms(2) conn_reach_inv [OF assms(1)]] assms(3-5) by blast

theorem shutdown_after_last_byte_witness:
  "let c = send legal_call True (\<lambda>_. Inr 5) ''hello'' sample_conn; c' = shutdown True c
   in writeShut c' \<and> conn_state c' = kDisconnecting \<and> wire c' = ''hello''"
proof -
  let ?c = "send legal_call True (\<lambda>_. Inr 5) ''hello'' sample_conn"
  have c: "conn_state ?c = kConnected" "\<not> conn_writing ?c" "\<not> writeShut ?c"
    using sample_conn_idle
    by (simp_all add: send_def sendInLoop_def queueWriteComplete_def queueTask_def Let_def conn_writing_def)
  then have "conn_state (shutdown True ?c) = kDisconnecting \<and> writeShut (shutdown True ?c)"
    by (simp add: shutdown_def shutdownInLoop_def conn_writing_def Let_def)
  then show ?thesis
    using shutdown_after_last_byte [OF sample_send_reach [of "\<lambda>_. []"] conn_step.shut [of _ _ _ True]] c(3)
    by (simp add: Let_def)
qed

text \<open>
  \<^verbatim>\<open>sendIov\<close> with at most sixteen slices does what \<^verbatim>\<open>sendInLoop\<close> does with the concatenation, under
  a kernel whose \<^verbatim>\<open>writev\<close> takes what its \<^verbatim>\<open>write\<close> would take: same bytes on the wire, same backlog, same
  queued callbacks, same write interest.
\<close>

theorem sendIov_equals_send:
  assumes "backlog_ok c" and "conn_state c = kConnected" and "slices \<noteq> []" and "length slices \<le> kMaxIov"
    and "0 < highWaterMark c" and "writev slices = write (concat slices)"
  shows "conn_view (sendIov accept True writev slices c) = conn_view (send accept True write (concat slices) c)"
  unfolding send_def by (simp add: assms(2)) (rule sendIov_refines_sendInLoop; fact assms)

theorem sendIov_equals_send_witness:
  "conn_view (sendIov legal_call True (\<lambda>_. Inr 3) [''head'', ''body''] sample_conn) =
   conn_view (send legal_call True (\<lambda>_. Inr 3) ''headbody'' sample_conn)"
  using sendIov_equals_send [of sample_conn "[''head'', ''body'']" "\<lambda>_. Inr 3" "\<lambda>_. Inr 3" legal_call]
  by (simp add: sample_conn_idle backlog_ok_def kMaxIov_def)

text \<open>
  \<^verbatim>\<open>sendIov\<close> loses the slices after the sixteenth: when the socket takes everything \<^verbatim>\<open>writev\<close> is
  given, the first sixteen slices are on the wire and the others are neither sent nor buffered.
\<close>

theorem sendIov_drops_tail:
  assumes "backlog_ok c" and "conn_state c = kConnected" and "\<not> conn_writing c" and "kMaxIov < length slices"
    and "writev (take kMaxIov slices) = Inr (length (concat (take kMaxIov slices)))"
  shows "wire (sendIov accept True writev slices c) = wire c @ concat (take kMaxIov slices) \<and>
         contents (outputBuffer (sendIov accept True writev slices c)) = []"
proof -
  have "contents (outputBuffer c) = []" "readableBytes (outputBuffer c) = 0"
    using assms(1,3) by (auto simp: backlog_ok_def readableBytes_0_iff)
  moreover have "min (length slices) kMaxIov = kMaxIov" "slices \<noteq> []" using assms(4) by auto
  ultimately show ?thesis
    using assms(2,3,5)
    by (simp add: sendIov_def sum_list_lengths queueWriteComplete_def queueTask_def Let_def)
qed

theorem sendIov_drops_tail_witness:
  "let c = sendIov legal_call True (\<lambda>_. Inr 16) (replicate 17 ''x'') sample_conn
   in wire c = replicate 16 (CHR ''x'') \<and> contents (outputBuffer c) = []"
proof -
  have "concat (take kMaxIov (replicate 17 ''x'')) = replicate 16 (CHR ''x'')" by code_simp
  then show ?thesis
    using sendIov_drops_tail [of sample_conn "replicate 17 ''x''" "\<lambda>_. Inr 16" legal_call]
    by (simp add: sample_conn_idle backlog_ok_def kMaxIov_def Let_def)
qed

text \<open>
  Bytes overtake files: a message sent while a file is queued is written before the rest of that
  file, because \<^verbatim>\<open>handleWrite\<close> empties the output buffer first.
\<close>

theorem send_overtakes_file:
  assumes "backlog_ok c" and "conn_state c = kConnected" and "pendingFiles c \<noteq> []" and "msg \<noteq> []"
  shows "let c1 = send accept True write1 msg c; c2 = handleWrite accept (\<lambda>bs. Inr (length bs)) sf disk c1
         in pendingFiles c1 = pendingFiles c \<and> prefix (wire c @ contents (outputBuffer c) @ msg) (wire c2)"
proof -
  define c1 where "c1 = send accept True write1 msg c"
  have b: "Buffer_inv (outputBuffer c)" and w: "conn_writing c"
    using assms(1,3) by (auto simp: backlog_ok_def)
  have c1: "wire c1 = wire c" "pendingFiles c1 = pendingFiles c" "conn_writing c1" "Buffer_inv (outputBuffer c1)"
      "contents (outputBuffer c1) = contents (outputBuffer c) @ msg"
    using b w assms(2,4)
    by (auto simp: c1_def send_def sendInLoop_def conn_defs Let_def intro: inv_intros)
  have "prefix (wire x) (wire (write_finished accept sf disk x))" for x
    by (auto simp: write_finished_def drainPendingFiles_def shutdownInLoop_def conn_defs Let_def split_beta)
  from this [of "c1\<lparr>wire := wire c @ contents (outputBuffer c) @ msg,
      outputBuffer := retrieve (outputBuffer c1) (length (contents (outputBuffer c) @ msg))\<rparr>"]
  have "prefix (wire c @ contents (outputBuffer c) @ msg) (wire (handleWrite accept (\<lambda>bs. Inr (length bs)) sf disk c1))"
    using c1 assms(4) by (simp add: handleWrite_cases [OF c1(4,3)] Let_def)
  then show ?thesis using c1(2) by (simp add: Let_def flip: c1_def)
qed

theorem send_overtakes_file_witness:
  "let c0 = sendFile legal_call True (\<lambda>_ _ _. Inl EAGAIN) (\<lambda>_. ''FILE'') 7 0 4 sample_conn;
       c1 = send legal_call True (\<lambda>_. Inr 0) ''msg'' c0;
       c2 = handleWrite legal_call (\<lambda>bs. Inr (length bs)) (\<lambda>_ _ k. Inr k) (\<lambda>_. ''FILE'') c1
   in prefix ''msg'' (wire c2)"
proof -
  let ?c0 = "sendFile legal_call True (\<lambda>_ _ _. Inl EAGAIN) (\<lambda>_. ''FILE'') 7 0 4 sample_conn"
  have c0: "wire ?c0 = []" "conn_state ?c0 = kConnected" "pendingFiles ?c0 \<noteq> []" "conn_writing ?c0"
      "outputBuffer ?c0 = outputBuffer sample_conn"
    using sample_conn_idle
    by (simp_all add: sendFile_def drainPendingFiles_def conn_defs Let_def)
  then show ?thesis
    using send_overtakes_file [of ?c0 "''msg''" legal_call "\<lambda>_. Inr 0" "\<lambda>_ _ k. Inr k" "\<lambda>_. ''FILE''"]
    by (simp add: backlog_ok_def sample_conn_idle Let_def)
qed

end
