(* ===== verification/TimerWheel.thy ===== *)
theory TimerWheel
  imports Prelude "HOL-Library.Signed_Division"
begin

text \<open>
  \<^verbatim>\<open>src/timer/Timer.h\<close> and \<^verbatim>\<open>TimerQueue.h\<close>: the hashed timing wheel behind \<^verbatim>\<open>EventLoop::runAfter\<close> and
  \<^verbatim>\<open>runEvery\<close>.  Timers are shared objects (the wheel and the id table hold pointers to them), so the
  state keeps a store from timer ids to timers; an id is never reused, so it also stands for the pointer.
  The clock is an argument.  The loop of \<^verbatim>\<open>tick()\<close> walks a list that it may itself extend, and is
  shown equal to a specification written with filters.
\<close>

section \<open>Timers\<close>

record timer =
  expiration :: int
  interval :: int
  has_callback :: bool
  cancelled :: bool

definition Timer_new :: "bool \<Rightarrow> int \<Rightarrow> int \<Rightarrow> timer" where
  "Timer_new cb whn iv = \<lparr>expiration = whn, interval = iv, has_callback = cb, cancelled = False\<rparr>"

text \<open>\<^verbatim>\<open>repeat_\<close> is set once, from the interval.\<close>

definition repeat :: "timer \<Rightarrow> bool" where
  "repeat t \<longleftrightarrow> interval t > 0"

definition restart :: "int \<Rightarrow> timer \<Rightarrow> timer" where
  "restart now t = (if repeat t then t\<lparr>expiration := now + interval t\<rparr> else t)"

definition Timer_cancel :: "timer \<Rightarrow> timer" where
  "Timer_cancel t = t\<lparr>cancelled := True\<rparr>"

section \<open>The wheel\<close>

record timer_queue =
  buckets :: nat
  tickMs :: int
  currentBucket :: nat
  wheel :: "nat list list"
  timers :: "nat set"
  tstore :: "nat \<Rightarrow> timer"
  nextId :: nat

definition TimerQueue_new :: "nat \<Rightarrow> int \<Rightarrow> timer_queue" where
  "TimerQueue_new n tickms =
     \<lparr>buckets = n, tickMs = tickms, currentBucket = 0, wheel = replicate n [], timers = {},
      tstore = (\<lambda>_. Timer_new False 0 0), nextId = 0\<rparr>"

text \<open>Conversion to \<^verbatim>\<open>size_t\<close>, and the bucket \<open>ms\<close> milliseconds ahead (\<^verbatim>\<open>/\<close> truncates towards zero).\<close>

definition size_t :: "int \<Rightarrow> nat" where
  "size_t i = nat (i mod 2 ^ 64)"

definition ticks_of :: "timer_queue \<Rightarrow> int \<Rightarrow> nat" where
  "ticks_of q ms = size_t ((ms + tickMs q - 1) sdiv tickMs q)"

definition bucket_at :: "timer_queue \<Rightarrow> nat \<Rightarrow> nat" where
  "bucket_at q ticks = size_t (int (currentBucket q) + int ticks) mod buckets q"

definition push_timer :: "nat \<Rightarrow> nat \<Rightarrow> timer_queue \<Rightarrow> timer_queue" where
  "push_timer b i q = q\<lparr>wheel := (wheel q)[b := wheel q ! b @ [i]]\<rparr>"

definition addTimer :: "bool \<Rightarrow> int \<Rightarrow> int \<Rightarrow> int \<Rightarrow> timer_queue \<Rightarrow> nat \<times> timer_queue" where
  "addTimer cb delayMs intervalMs now q =
     (let timerId = nextId q;
          q1 = q\<lparr>tstore := (tstore q)(timerId := Timer_new cb (now + delayMs) intervalMs), nextId := timerId + 1\<rparr>;
          ticks0 = ticks_of q1 delayMs;
          ticks = (if ticks0 = 0 then 1 else ticks0);
          q2 = push_timer (bucket_at q1 ticks) timerId q1
      in (timerId, q2\<lparr>timers := insert timerId (timers q2)\<rparr>))"

definition cancelTimer :: "nat \<Rightarrow> timer_queue \<Rightarrow> timer_queue" where
  "cancelTimer i q =
     (if i \<in> timers q
      then q\<lparr>tstore := (tstore q)(i := Timer_cancel (tstore q i)), timers := timers q - {i}\<rparr>
      else q)"

definition due :: "int \<Rightarrow> timer \<Rightarrow> bool" where
  "due now t \<longleftrightarrow> expiration t \<le> now \<and> \<not> cancelled t"

definition restarted :: "int \<Rightarrow> nat \<Rightarrow> timer_queue \<Rightarrow> timer_queue" where
  "restarted now i q = q\<lparr>tstore := (tstore q)(i := restart now (tstore q i))\<rparr>"

lemma restart_not_due: "repeat t \<Longrightarrow> \<not> due now (restart now t)"
  by (auto simp: restart_def due_def repeat_def)

lemma restart_due: "due now (restart now t) \<Longrightarrow> due now t"
  by (auto simp: restart_def due_def repeat_def split: if_splits)

text \<open>
  The loop of \<^verbatim>\<open>tick()\<close> over the current bucket: \<open>kept\<close> are the entries before the iterator, \<open>todo\<close>
  those from it on, and \<open>fired\<close> is \<^verbatim>\<open>expiredTimers\<close>.  A periodic timer whose new bucket is the current
  one is appended to the list being walked.
\<close>

function tick_loop :: "int \<Rightarrow> nat list \<Rightarrow> nat list \<Rightarrow> nat list \<Rightarrow> timer_queue \<Rightarrow> nat list \<times> nat list \<times> timer_queue" where
  "tick_loop now kept [] fired q = (kept, fired, q)"
| "tick_loop now kept (i # todo) fired q =
     (let t = tstore q i in
      if due now t then
        if repeat t then
          (let q1 = restarted now i q;
               newBucket = bucket_at q (ticks_of q (interval t)) in
           if newBucket = currentBucket q
           then tick_loop now kept (todo @ [i]) (fired @ [i]) q1
           else tick_loop now kept todo (fired @ [i]) (push_timer newBucket i q1))
        else tick_loop now kept todo (fired @ [i]) (q\<lparr>timers := timers q - {i}\<rparr>)
      else if cancelled t then tick_loop now kept todo fired (q\<lparr>timers := timers q - {i}\<rparr>)
      else tick_loop now (kept @ [i]) todo fired q)"
  by pat_completeness auto
termination
proof (relation "measures [\<lambda>(now, kept, todo, fired, q). length (filter (\<lambda>i. due now (tstore q i)) todo),
      \<lambda>(now, kept, todo, fired, q). length todo]", goal_cases)
  case (2 now kept i todo fired q t q1 newBucket)
  have "length (filter (\<lambda>j. due now (tstore q1 j)) todo) \<le> length (filter (\<lambda>j. due now (tstore q j)) todo)"
    by (induction todo) (auto simp: 2 restarted_def dest: restart_due)
  moreover have "\<not> due now (tstore q1 i)" using 2 by (simp add: restarted_def restart_not_due)
  ultimately show ?case using 2 by simp
next
  case (3 now kept i todo fired q t q1 newBucket)
  have "length (filter (\<lambda>j. due now (tstore q1 j)) todo) \<le> length (filter (\<lambda>j. due now (tstore q j)) todo)"
    by (induction todo) (auto simp: 3 restarted_def dest: restart_due)
  then show ?case using 3 by (simp add: push_timer_def)
qed auto

declare tick_loop.simps(2) [simp del]

text \<open>\<^verbatim>\<open>tick()\<close> up to the point where the lock is released: the timers to run, and the new queue.\<close>

definition tick :: "int \<Rightarrow> timer_queue \<Rightarrow> nat list \<times> timer_queue" where
  "tick now q =
     (let (kept, fired, q1) = tick_loop now [] (wheel q ! currentBucket q) [] q
      in (fired, q1\<lparr>wheel := (wheel q1)[currentBucket q := kept],
                    currentBucket := (currentBucket q1 + 1) mod buckets q1\<rparr>))"

text \<open>
  \<^verbatim>\<open>timer->run()\<close> outside the lock: the flag is read when the turn of the timer comes, and the callback
  \<open>cb i\<close> may use the queue.
\<close>

fun run_expired :: "(nat \<Rightarrow> timer_queue \<Rightarrow> timer_queue) \<Rightarrow> nat list \<Rightarrow> timer_queue \<Rightarrow> nat list \<times> timer_queue" where
  "run_expired cb [] q = ([], q)"
| "run_expired cb (i # is) q =
     (if \<not> cancelled (tstore q i) \<and> has_callback (tstore q i)
      then let (ran, q') = run_expired cb is (cb i q) in (i # ran, q')
      else run_expired cb is q)"

section \<open>What a tick does\<close>

text \<open>The bucket a periodic timer moves to, and the entries of a bucket a tick sends to bucket \<open>k\<close>.\<close>

definition next_bucket :: "timer_queue \<Rightarrow> nat \<Rightarrow> nat" where
  "next_bucket q i = bucket_at q (ticks_of q (interval (tstore q i)))"

definition fires :: "int \<Rightarrow> timer_queue \<Rightarrow> nat list \<Rightarrow> nat list" where
  "fires now q is = filter (\<lambda>i. due now (tstore q i)) is"

definition stays :: "int \<Rightarrow> timer_queue \<Rightarrow> nat list \<Rightarrow> nat list" where
  "stays now q is = filter (\<lambda>i. \<not> due now (tstore q i) \<and> \<not> cancelled (tstore q i)) is"

definition moves :: "int \<Rightarrow> timer_queue \<Rightarrow> nat \<Rightarrow> nat list \<Rightarrow> nat list" where
  "moves now q k is = filter (\<lambda>i. repeat (tstore q i) \<and> next_bucket q i = k) (fires now q is)"

definition ends :: "int \<Rightarrow> timer_queue \<Rightarrow> nat list \<Rightarrow> nat set" where
  "ends now q is = {i \<in> set is. cancelled (tstore q i) \<or> (due now (tstore q i) \<and> \<not> repeat (tstore q i))}"

definition tick_effect :: "int \<Rightarrow> nat list \<Rightarrow> timer_queue \<Rightarrow> timer_queue" where
  "tick_effect now is q =
     q\<lparr>tstore := (\<lambda>i. if i \<in> set (fires now q is) then restart now (tstore q i) else tstore q i),
       timers := timers q - ends now q is,
       wheel := map (\<lambda>k. wheel q ! k @ (if k = currentBucket q then [] else moves now q k is)) [0..<length (wheel q)]\<rparr>"

lemmas tick_views = fires_def stays_def moves_def ends_def next_bucket_def ticks_of_def bucket_at_def

lemma tick_views_Nil [simp]:
  "fires now q [] = []" "stays now q [] = []" "moves now q k [] = []" "ends now q [] = {}"
  by (simp_all add: tick_views)

lemma tick_effect_Nil [simp]: "tick_effect now [] q = q"
  by (simp add: tick_effect_def map_nth cong: if_cong)

lemma tick_views_cong:
  assumes "\<And>i. i \<in> set is \<Longrightarrow> tstore q' i = tstore q i"
    and "tickMs q' = tickMs q" "currentBucket q' = currentBucket q" "buckets q' = buckets q"
  shows "fires now q' is = fires now q is" "stays now q' is = stays now q is"
    "moves now q' k is = moves now q k is" "ends now q' is = ends now q is"
  using assms by (auto simp: tick_views intro!: filter_cong)

lemma tick_loop_kept:
  "\<forall>i \<in> set re. \<not> due now (tstore q i) \<and> \<not> cancelled (tstore q i) \<Longrightarrow>
     tick_loop now kept re fired q = (kept @ re, fired, q)"
  by (induction re arbitrary: kept) (auto simp: tick_loop.simps(2) Let_def)

text \<open>One turn of the loop, and how the effect of the whole bucket is built from turns.\<close>

definition visit :: "int \<Rightarrow> nat \<Rightarrow> timer_queue \<Rightarrow> timer_queue" where
  "visit now i q =
     (let t = tstore q i; b = next_bucket q i in
      if due now t \<and> repeat t
      then if b = currentBucket q then restarted now i q else push_timer b i (restarted now i q)
      else if due now t \<or> cancelled t then q\<lparr>timers := timers q - {i}\<rparr> else q)"

lemma tick_loop_visit:
  "tick_loop now kept (i # todo) fired q =
     tick_loop now (kept @ stays now q [i]) (todo @ moves now q (currentBucket q) [i]) (fired @ fires now q [i])
       (visit now i q)"
  by (simp add: tick_loop.simps(2) visit_def stays_def moves_def fires_def next_bucket_def Let_def)

lemma visit_fields [simp]:
  "tickMs (visit now i q) = tickMs q" "currentBucket (visit now i q) = currentBucket q"
  "buckets (visit now i q) = buckets q" "length (wheel (visit now i q)) = length (wheel q)"
  "j \<noteq> i \<Longrightarrow> tstore (visit now i q) j = tstore q j"
  by (simp_all add: visit_def restarted_def push_timer_def Let_def)

lemma visit_tstore:
  "tstore (visit now i q) = (tstore q)(i := if due now (tstore q i) then restart now (tstore q i) else tstore q i)"
  by (auto simp: visit_def restarted_def push_timer_def restart_def Let_def)

lemma visit_timers: "timers (visit now i q) = timers q - ends now q [i]"
  by (auto simp: visit_def restarted_def push_timer_def ends_def due_def Let_def)

lemma next_bucket_less: "0 < buckets q \<Longrightarrow> next_bucket q i < buckets q"
  by (simp add: next_bucket_def bucket_at_def)

lemma visit_wheel:
  assumes "0 < buckets q" "length (wheel q) = buckets q" "k < length (wheel q)"
  shows "wheel (visit now i q) ! k = wheel q ! k @ (if k = currentBucket q then [] else moves now q k [i])"
  using assms next_bucket_less [OF assms(1), of i]
  by (auto simp: visit_def moves_def fires_def restarted_def push_timer_def Let_def nth_list_update)

lemma tick_effect_Cons:
  assumes i: "i \<notin> set is" and len: "0 < buckets q" "length (wheel q) = buckets q"
  shows "tick_effect now (i # is) q = tick_effect now is (visit now i q)"
proof -
  have same: "\<And>j. j \<in> set is \<Longrightarrow> tstore (visit now i q) j = tstore q j" using i by (metis visit_fields(5))
  note views = tick_views_cong [OF same visit_fields(1-3)]
  have cons: "moves now q k (i # is) = moves now q k [i] @ moves now q k is" for k
    by (simp add: moves_def fires_def)
  have "wheel (tick_effect now (i # is) q) = wheel (tick_effect now is (visit now i q))"
    using visit_wheel [OF len] by (auto simp: tick_effect_def views cons)
  moreover have "tstore (tick_effect now (i # is) q) = tstore (tick_effect now is (visit now i q))"
    using i by (auto simp: tick_effect_def views visit_tstore fires_def fun_eq_iff)
  moreover have "timers (tick_effect now (i # is) q) = timers (tick_effect now is (visit now i q))"
    by (auto simp: tick_effect_def views visit_timers) (auto simp: ends_def)
  ultimately show ?thesis
    by (simp add: tick_effect_def visit_def restarted_def push_timer_def Let_def)
qed

lemma tick_loop_effect:
  assumes "distinct (is @ re)"
    and "\<forall>i \<in> set re. \<not> due now (tstore q i) \<and> \<not> cancelled (tstore q i)"
    and "0 < buckets q" "length (wheel q) = buckets q"
  shows "tick_loop now kept (is @ re) fired q =
     (kept @ stays now q is @ re @ moves now q (currentBucket q) is, fired @ fires now q is, tick_effect now is q)"
  using assms
proof (induction "is" arbitrary: re kept fired q)
  case Nil
  then show ?case by (simp add: tick_loop_kept)
next
  case (Cons i "is")
  let ?q = "visit now i q"
  let ?re = "re @ moves now q (currentBucket q) [i]"
  have i: "i \<notin> set is" "i \<notin> set re" and d: "distinct (is @ ?re)"
    using Cons.prems(1) by (auto simp: moves_def fires_def)
  have same: "\<And>j. j \<in> set is \<Longrightarrow> tstore ?q j = tstore q j" using i by (metis visit_fields(5))
  have re: "\<forall>j \<in> set ?re. \<not> due now (tstore ?q j) \<and> \<not> cancelled (tstore ?q j)"
    using Cons.prems(2) i(2)
    by (auto simp: moves_def fires_def visit_tstore restart_not_due) (auto simp: restart_def due_def)
  have "stays now q (i # is) = stays now q [i] @ stays now q is"
      "fires now q (i # is) = fires now q [i] @ fires now q is"
      "moves now q k (i # is) = moves now q k [i] @ moves now q k is" for k
    by (simp_all add: moves_def fires_def stays_def)
  then show ?case
    using Cons.IH [OF d re] Cons.prems(3,4) tick_views_cong [OF same visit_fields(1-3)]
    by (simp add: tick_loop_visit tick_effect_Cons i(1))
qed

section \<open>Invariant\<close>

text \<open>Every id is in at most one place of the wheel, and the id table holds the live ones.\<close>

definition wheel_ok :: "nat list list \<Rightarrow> bool" where
  "wheel_ok w \<longleftrightarrow> (\<forall>k < length w. distinct (w ! k)) \<and>
     (\<forall>k < length w. \<forall>l < length w. k \<noteq> l \<longrightarrow> set (w ! k) \<inter> set (w ! l) = {})"

lemma wheel_ok_unique:
  "wheel_ok w \<Longrightarrow> k < length w \<Longrightarrow> l < length w \<Longrightarrow> i \<in> set (w ! k) \<Longrightarrow> i \<in> set (w ! l) \<Longrightarrow> k = l"
  unfolding wheel_ok_def by (meson disjoint_iff)

definition placed :: "timer_queue \<Rightarrow> nat \<Rightarrow> bool" where
  "placed q i \<longleftrightarrow> (\<exists>k < length (wheel q). i \<in> set (wheel q ! k))"

definition tq_inv :: "timer_queue \<Rightarrow> bool" where
  "tq_inv q \<longleftrightarrow> 0 < buckets q \<and> length (wheel q) = buckets q \<and> currentBucket q < buckets q \<and> 0 < tickMs q \<and>
     wheel_ok (wheel q) \<and> (\<forall>i. placed q i \<longrightarrow> i < nextId q) \<and>
     (\<forall>i. i \<in> timers q \<longleftrightarrow> placed q i \<and> \<not> cancelled (tstore q i))"

lemma tq_invD:
  assumes "tq_inv q"
  shows "0 < buckets q" "length (wheel q) = buckets q" "currentBucket q < buckets q" "0 < tickMs q"
    "wheel_ok (wheel q)" "placed q i \<Longrightarrow> i < nextId q" "i \<in> timers q \<longleftrightarrow> placed q i \<and> \<not> cancelled (tstore q i)"
    "distinct (wheel q ! currentBucket q)"
  using assms unfolding tq_inv_def wheel_ok_def by (metis, metis, metis, metis, metis, metis, metis, metis)

lemma tick_effect_fields [simp]:
  "length (wheel (tick_effect now is q)) = length (wheel q)" "buckets (tick_effect now is q) = buckets q"
  "currentBucket (tick_effect now is q) = currentBucket q" "tickMs (tick_effect now is q) = tickMs q"
  "nextId (tick_effect now is q) = nextId q" "timers (tick_effect now is q) = timers q - ends now q is"
  "cancelled (tstore (tick_effect now is q) i) = cancelled (tstore q i)"
  by (simp_all add: tick_effect_def restart_def)

text \<open>A tick of a well-formed queue in closed form.\<close>

lemma tick_eq:
  assumes "tq_inv q"
  defines "b \<equiv> wheel q ! currentBucket q" and "c \<equiv> currentBucket q"
  shows "tick now q =
    (fires now q b,
     (tick_effect now b q)\<lparr>
       wheel := (wheel (tick_effect now b q))[c := stays now q b @ moves now q c b],
       currentBucket := (c + 1) mod buckets q\<rparr>)"
  using tick_loop_effect [of b "[]" now q "[]" "[]"] tq_invD [OF assms(1)]
  by (simp add: tick_def b_def c_def)

lemma tick_wheel:
  assumes "tq_inv q" "k < buckets q"
  defines "b \<equiv> wheel q ! currentBucket q"
  shows "wheel (snd (tick now q)) ! k =
    (if k = currentBucket q then stays now q b else wheel q ! k) @ moves now q k b"
  using assms(2) tq_invD [OF assms(1)]
  by (auto simp: tick_eq [OF assms(1)] b_def nth_list_update tick_effect_def)

lemma tick_fired:
  "tq_inv q \<Longrightarrow> i \<in> set (fst (tick now q)) \<longleftrightarrow> i \<in> set (wheel q ! currentBucket q) \<and> due now (tstore q i)"
  by (simp add: tick_eq fires_def)

lemma moves_iff:
  "i \<in> set (moves now q k is) \<longleftrightarrow> i \<in> set is \<and> due now (tstore q i) \<and> repeat (tstore q i) \<and> next_bucket q i = k"
  by (auto simp: moves_def fires_def)

lemma stays_iff:
  "i \<in> set (stays now q is) \<longleftrightarrow> i \<in> set is \<and> \<not> due now (tstore q i) \<and> \<not> cancelled (tstore q i)"
  by (auto simp: stays_def)

lemma tick_placed:
  assumes "tq_inv q"
  shows "placed (snd (tick now q)) i \<longleftrightarrow> placed q i \<and> i \<notin> ends now q (wheel q ! currentBucket q)"
proof -
  note inv = tq_invD [OF assms]
  let ?q = "snd (tick now q)" and ?b = "wheel q ! currentBucket q"
  have len: "length (wheel ?q) = buckets q" using inv by (simp add: tick_eq [OF assms])
  have here: "i \<in> set ?b \<Longrightarrow> i \<in> set (wheel q ! k) \<Longrightarrow> k < buckets q \<Longrightarrow> k = currentBucket q" for k
    using inv(2,3) wheel_ok_unique [OF inv(5)] by simp
  have "placed ?q i \<longleftrightarrow> (\<exists>k < buckets q. i \<in> set (wheel ?q ! k))" by (simp add: placed_def len)
  also have "\<dots> \<longleftrightarrow> (\<exists>k < buckets q. k \<noteq> currentBucket q \<and> i \<in> set (wheel q ! k)) \<or>
      i \<in> set (stays now q ?b) \<or> (\<exists>k < buckets q. i \<in> set (moves now q k ?b))"
    using inv(3) by (auto simp: tick_wheel [OF assms] split: if_splits)
  also have "\<dots> \<longleftrightarrow> placed q i \<and> i \<notin> ends now q ?b"
    using inv(2,3) here next_bucket_less [OF inv(1), of i]
    by (auto simp: stays_iff moves_iff ends_def placed_def due_def)
  finally show ?thesis .
qed

lemma tick_wheel_ok:
  assumes "tq_inv q"
  shows "wheel_ok (wheel (snd (tick now q)))"
proof -
  note inv = tq_invD [OF assms]
  let ?q = "snd (tick now q)" and ?c = "currentBucket q" and ?b = "wheel q ! currentBucket q"
  have len: "length (wheel ?q) = buckets q" using inv by (simp add: tick_eq [OF assms])
  have at: "i \<in> set (wheel ?q ! k) \<longleftrightarrow>
      (if due now (tstore q i) \<and> i \<in> set ?b then repeat (tstore q i) \<and> next_bucket q i = k
       else i \<in> set (wheel q ! k) \<and> \<not> (k = ?c \<and> cancelled (tstore q i)))" if "k < buckets q" for i k
    using that inv(2,3) wheel_ok_unique [OF inv(5), of k ?c i]
    by (auto simp: tick_wheel [OF assms] stays_iff moves_iff due_def)
  have "set (wheel q ! k) \<inter> set (moves now q k ?b) = {}" if "k < buckets q" "k \<noteq> ?c" for k
    using that inv(2,3) wheel_ok_unique [OF inv(5), of k ?c] by (auto simp: moves_iff)
  then have "distinct (wheel ?q ! k)" if "k < buckets q" for k
    using that inv(2,5,8) by (auto simp: tick_wheel [OF assms] wheel_ok_def stays_def moves_def fires_def)
  moreover have "set (wheel ?q ! k) \<inter> set (wheel ?q ! l) = {}" if "k < buckets q" "l < buckets q" "k \<noteq> l" for k l
    using that at inv(2) wheel_ok_unique [OF inv(5), of k l] by (auto split: if_splits)
  ultimately show ?thesis unfolding wheel_ok_def len by blast
qed

lemma tq_inv_tick [inv_intros]: "tq_inv q \<Longrightarrow> tq_inv (snd (tick now q))"
proof -
  assume q: "tq_inv q"
  note inv = tq_invD [OF q]
  have "timers (snd (tick now q)) = timers q - ends now q (wheel q ! currentBucket q)"
      "cancelled (tstore (snd (tick now q)) i) = cancelled (tstore q i)" for i
    by (simp_all add: tick_eq [OF q])
  then show ?thesis
    using inv tick_placed [OF q] tick_wheel_ok [OF q]
    unfolding tq_inv_def by (auto simp: tick_eq [OF q])
qed

lemma tq_inv_new [inv_intros]: "0 < n \<Longrightarrow> 0 < ms \<Longrightarrow> tq_inv (TimerQueue_new n ms)"
  by (auto simp: tq_inv_def TimerQueue_new_def wheel_ok_def placed_def)

lemma tq_inv_cancel [inv_intros]: "tq_inv q \<Longrightarrow> tq_inv (cancelTimer i q)"
  by (auto simp: tq_inv_def cancelTimer_def placed_def Timer_cancel_def)

definition add_ticks :: "timer_queue \<Rightarrow> int \<Rightarrow> nat" where
  "add_ticks q d = (if ticks_of q d = 0 then 1 else ticks_of q d)"

lemma addTimer_wheel:
  "wheel (snd (addTimer cb d iv now q)) =
     (wheel q)[bucket_at q (add_ticks q d) := wheel q ! bucket_at q (add_ticks q d) @ [nextId q]]"
  by (simp add: addTimer_def add_ticks_def push_timer_def bucket_at_def ticks_of_def Let_def)

lemma bucket_at_less: "0 < buckets q \<Longrightarrow> bucket_at q n < buckets q"
  by (simp add: bucket_at_def)

lemma tq_inv_addTimer [inv_intros]:
  assumes q: "tq_inv q"
  shows "tq_inv (snd (addTimer cb d iv now q))"
proof -
  let ?q = "snd (addTimer cb d iv now q)"
  note inv = tq_invD [OF q]
  obtain b where b: "b < buckets q" and w: "wheel ?q = (wheel q)[b := wheel q ! b @ [nextId q]]"
    using addTimer_wheel bucket_at_less [OF inv(1)] by blast
  have rest: "buckets ?q = buckets q" "currentBucket ?q = currentBucket q" "tickMs ?q = tickMs q"
      "nextId ?q = nextId q + 1" "timers ?q = insert (nextId q) (timers q)"
      "tstore ?q = (tstore q)(nextId q := Timer_new cb (now + d) iv)"
    by (simp_all add: addTimer_def push_timer_def Let_def)
  have new: "nextId q \<notin> set (wheel q ! k)" if "k < buckets q" for k
    using inv(2,6) that unfolding placed_def by (metis less_irrefl)
  have placed: "placed ?q i \<longleftrightarrow> placed q i \<or> i = nextId q" for i
    using b inv(2) by (auto simp: placed_def w nth_list_update split: if_splits)
  have "\<not> placed q (nextId q)" using inv(6) [of "nextId q"] by auto
  moreover have "wheel_ok (wheel ?q)"
    using inv(2,5) new b by (auto simp: wheel_ok_def w nth_list_update)
  moreover have "i < nextId ?q" if "placed ?q i" for i
    using that inv(6) [of i] by (auto simp: placed rest)
  ultimately show ?thesis
    using inv rest w unfolding tq_inv_def
    by (auto simp: placed Timer_new_def)
qed

section \<open>Runs\<close>

text \<open>Successive ticks at the given times, with the timers each fires.\<close>

fun ticks_run :: "int list \<Rightarrow> timer_queue \<Rightarrow> nat list \<times> timer_queue" where
  "ticks_run [] q = ([], q)"
| "ticks_run (now # ts) q =
     (let (fired, q1) = tick now q; (more, q2) = ticks_run ts q1 in (fired @ more, q2))"

lemma tq_inv_ticks_run: "tq_inv q \<Longrightarrow> tq_inv (snd (ticks_run ts q))"
  by (induction ts arbitrary: q) (auto simp: Let_def split_beta intro: inv_intros)

lemma tick_elsewhere:
  assumes q: "tq_inv q" and k: "k < buckets q" "k \<noteq> currentBucket q" and i: "i \<in> set (wheel q ! k)"
  shows "i \<in> set (wheel (snd (tick now q)) ! k)" "i \<notin> set (fst (tick now q))"
    "tstore (snd (tick now q)) i = tstore q i"
proof -
  have out: "i \<notin> set (wheel q ! currentBucket q)"
    using wheel_ok_unique [OF tq_invD(5) [OF q], of k "currentBucket q" i] k i tq_invD(2,3) [OF q] by auto
  show "i \<in> set (wheel (snd (tick now q)) ! k)" using i k by (simp add: tick_wheel [OF q])
  show "i \<notin> set (fst (tick now q))" "tstore (snd (tick now q)) i = tstore q i"
    using out by (simp_all add: tick_eq [OF q] fires_def tick_effect_def)
qed

lemma tick_current:
  "tq_inv q \<Longrightarrow> currentBucket (snd (tick now q)) = (currentBucket q + 1) mod buckets q"
  "tq_inv q \<Longrightarrow> buckets (snd (tick now q)) = buckets q"
  by (simp_all add: tick_eq)

text \<open>A timer \<open>n\<close> buckets ahead is not touched by the next \<open>n\<close> ticks, and then its bucket is the current one.\<close>

lemma ticks_run_ahead:
  assumes "tq_inv q" and "length ts = n" and "n < buckets q"
    and "i \<in> set (wheel q ! ((currentBucket q + n) mod buckets q))"
  shows "i \<notin> set (fst (ticks_run ts q)) \<and> tstore (snd (ticks_run ts q)) i = tstore q i \<and>
    currentBucket (snd (ticks_run ts q)) = (currentBucket q + n) mod buckets q \<and>
    i \<in> set (wheel (snd (ticks_run ts q)) ! currentBucket (snd (ticks_run ts q)))"
  using assms
proof (induction ts arbitrary: q n)
  case Nil
  then show ?case using tq_invD(3) [OF Nil(1)] by simp
next
  case (Cons now ts)
  let ?k = "(currentBucket q + n) mod buckets q" and ?q = "snd (tick now q)"
  obtain m where n: "n = Suc m" using Cons.prems(2) by (cases n) auto
  have cur: "currentBucket q < buckets q" using Cons.prems(1) by (rule tq_invD)
  have k: "?k < buckets q" using cur by simp
  have ne: "?k \<noteq> currentBucket q"
    using cur Cons.prems(3) n by (cases "currentBucket q + n < buckets q") (auto simp: mod_if)
  note el = tick_elsewhere [OF Cons.prems(1) k ne Cons.prems(4), of now]
  have cur': "(currentBucket ?q + m) mod buckets ?q = ?k"
    using tick_current [OF Cons.prems(1), of now] by (simp add: n mod_simps)
  have "i \<notin> set (fst (ticks_run ts ?q)) \<and> tstore (snd (ticks_run ts ?q)) i = tstore ?q i \<and>
      currentBucket (snd (ticks_run ts ?q)) = ?k \<and>
      i \<in> set (wheel (snd (ticks_run ts ?q)) ! currentBucket (snd (ticks_run ts ?q)))"
    using Cons.IH [OF tq_inv_tick [OF Cons.prems(1)], of m now] Cons.prems(2,3) el(1) cur' n
      tick_current(2) [OF Cons.prems(1), of now] by auto
  then show ?case using el(2,3) by (auto simp: Let_def split_beta)
qed

text \<open>What can happen to a queue, with the timers that fire.\<close>

inductive tq_step :: "timer_queue \<Rightarrow> nat list \<Rightarrow> timer_queue \<Rightarrow> bool" where
  add: "tq_step q [] (snd (addTimer cb d iv now q))"
| cancel: "tq_step q [] (cancelTimer i q)"
| tick: "tq_step q (fst (tick now q)) (snd (tick now q))"

inductive tq_steps :: "timer_queue \<Rightarrow> nat list \<Rightarrow> timer_queue \<Rightarrow> bool" where
  start: "tq_steps q [] q"
| step: "tq_steps q fired q' \<Longrightarrow> tq_step q' fired' q'' \<Longrightarrow> tq_steps q (fired @ fired') q''"

lemma tq_step_inv: "tq_step q fired q' \<Longrightarrow> tq_inv q \<Longrightarrow> tq_inv q'"
  by (induction rule: tq_step.induct) (auto intro: inv_intros)

lemma tq_steps_inv: "tq_steps q fired q' \<Longrightarrow> tq_inv q \<Longrightarrow> tq_inv q'"
  by (induction rule: tq_steps.induct) (auto intro: tq_step_inv)

lemma tq_step_cancelled:
  "tq_step q fired q' \<Longrightarrow> tq_inv q \<Longrightarrow> cancelled (tstore q i) \<Longrightarrow> i < nextId q \<Longrightarrow>
     i \<notin> set fired \<and> cancelled (tstore q' i) \<and> i < nextId q'"
  by (induction rule: tq_step.induct)
    (auto simp: addTimer_def cancelTimer_def Timer_cancel_def push_timer_def tick_eq fires_def due_def Let_def)

lemma tq_steps_cancelled:
  "tq_steps q fired q' \<Longrightarrow> tq_inv q \<Longrightarrow> cancelled (tstore q i) \<Longrightarrow> i < nextId q \<Longrightarrow>
     i \<notin> set fired \<and> cancelled (tstore q' i) \<and> i < nextId q'"
proof (induction rule: tq_steps.induct)
  case (step q fired q' fired2 q'')
  then show ?case using tq_step_cancelled [OF step(2) tq_steps_inv [OF step(1)]] by auto
qed simp

lemma ticks_of_nonneg:
  "0 \<le> d \<Longrightarrow> 0 < tickMs q \<Longrightarrow> (d + tickMs q - 1) div tickMs q < 2 ^ 64 \<Longrightarrow>
     ticks_of q d = nat ((d + tickMs q - 1) div tickMs q)"
proof -
  assume a: "0 \<le> d" "0 < tickMs q" "(d + tickMs q - 1) div tickMs q < 2 ^ 64"
  have "(d + tickMs q - 1) sdiv tickMs q = (d + tickMs q - 1) div tickMs q"
    using a by (simp add: signed_divide_int_def sgn_if)
  then show ?thesis using a by (simp add: ticks_of_def size_t_def pos_imp_zdiv_nonneg_iff)
qed

lemma bucket_at_small:
  "currentBucket q < buckets q \<Longrightarrow> n < 2 ^ 32 \<Longrightarrow> buckets q < 2 ^ 32 \<Longrightarrow>
     bucket_at q n = (currentBucket q + n) mod buckets q"
  by (simp add: bucket_at_def size_t_def nat_add_distrib)

section \<open>Properties\<close>

text \<open>
  (C12) A tick fires exactly the live, expired timers of the current bucket, in their order; the expired
  one-shot and the cancelled ones leave the queue, the periodic ones move to the bucket of their
  interval with a new expiration, and nothing else changes: the list walk that extends and erases its
  own list equals the specification with filters.
\<close>

theorem tick_refines_spec:
  assumes "tq_inv q" and "k < buckets q"
  shows "let b = wheel q ! currentBucket q; (fired, q') = tick now q in
    fired = filter (\<lambda>i. due now (tstore q i)) b \<and>
    wheel q' ! k = (if k = currentBucket q then stays now q b else wheel q ! k) @ moves now q k b \<and>
    tstore q' = (\<lambda>i. if i \<in> set fired then restart now (tstore q i) else tstore q i) \<and>
    timers q' = timers q - ends now q b \<and> currentBucket q' = (currentBucket q + 1) mod buckets q"
proof -
  obtain fired q' where t: "tick now q = (fired, q')" by (meson surj_pair)
  then show ?thesis
    using tick_eq [OF assms(1), of now] tick_wheel [OF assms, of now]
    by (auto simp: Let_def fires_def tick_effect_def)
qed

theorem tick_refines_spec_witness:
  "let q = snd (addTimer True 0 0 5 (TimerQueue_new 4 1000)); b = wheel q ! currentBucket q; (fired, q') = tick 7 q in
    fired = filter (\<lambda>i. due 7 (tstore q i)) b \<and>
    wheel q' ! 1 = (if 1 = currentBucket q then stays 7 q b else wheel q ! 1) @ moves 7 q 1 b \<and>
    tstore q' = (\<lambda>i. if i \<in> set fired then restart 7 (tstore q i) else tstore q i) \<and>
    timers q' = timers q - ends 7 q b \<and> currentBucket q' = (currentBucket q + 1) mod buckets q"
proof -
  have a: "tq_inv (snd (addTimer True 0 0 5 (TimerQueue_new 4 1000)))"
    by (intro inv_intros) simp_all
  have b: "1 < buckets (snd (addTimer True 0 0 5 (TimerQueue_new 4 1000)))"
    by (simp add: addTimer_def push_timer_def TimerQueue_new_def Let_def)
  from tick_refines_spec [OF a b, of 7] show ?thesis by (simp only: Let_def)
qed

text \<open>
  The id table and the wheel agree after every sequence of additions, cancellations and ticks: an
  id is in the table exactly when it is in the wheel and not cancelled, and no id is in two buckets or
  twice in one.
\<close>

theorem timer_table_matches_wheel:
  assumes "tq_steps (TimerQueue_new n ms) fired q" and "0 < n" and "0 < ms"
  shows "wheel_ok (wheel q) \<and> (i \<in> timers q \<longleftrightarrow> placed q i \<and> \<not> cancelled (tstore q i))"
  using tq_steps_inv [OF assms(1) tq_inv_new [OF assms(2,3)]] tq_invD(5,7) by blast

theorem timer_table_matches_wheel_witness:
  "let q = snd (addTimer True 1500 0 0 (TimerQueue_new 60 1000))
   in wheel_ok (wheel q) \<and> (0 \<in> timers q \<longleftrightarrow> placed q 0 \<and> \<not> cancelled (tstore q 0))"
  unfolding Let_def
  by (rule timer_table_matches_wheel [OF tq_steps.step [OF tq_steps.start tq_step.add]]) simp_all

text \<open>
  A cancelled timer never fires again, whatever is added, cancelled or ticked afterwards.
\<close>

theorem cancelled_never_fires:
  assumes "tq_inv q" and "i \<in> timers q" and "tq_steps (cancelTimer i q) fired q'"
  shows "i \<notin> set fired"
proof -
  have "cancelled (tstore (cancelTimer i q) i)" "i < nextId (cancelTimer i q)"
    using assms(2) tq_invD(6,7) [OF assms(1), of i] by (auto simp: cancelTimer_def Timer_cancel_def)
  then show ?thesis
    using tq_steps_cancelled [OF assms(3) tq_inv_cancel [OF assms(1)]] by blast
qed

theorem cancelled_never_fires_witness:
  "let q = snd (addTimer True 0 0 0 (TimerQueue_new 60 1000)) in 0 \<in> timers q \<and> 0 \<notin> set (fst (tick 99 (cancelTimer 0 q)))"
proof -
  let ?q = "snd (addTimer True 0 0 0 (TimerQueue_new 60 1000))"
  have inv: "tq_inv ?q" by (intro inv_intros) simp_all
  have mem: "0 \<in> timers ?q" by (simp add: addTimer_def TimerQueue_new_def push_timer_def Let_def)
  have "tq_steps (cancelTimer 0 ?q) ([] @ fst (tick 99 (cancelTimer 0 ?q))) (snd (tick 99 (cancelTimer 0 ?q)))"
    by (rule tq_steps.step [OF tq_steps.start tq_step.tick])
  from cancelled_never_fires [OF inv mem this] mem show ?thesis by (simp add: Let_def)
qed

text \<open>
  A one-shot timer is punctual.  Added with a delay that fits in one revolution of the wheel, it
  does not fire during the next \<open>max 1 \<lceil>delay / tick\<rceil>\<close> ticks, whenever they happen, and it fires at the
  following tick if its delay has passed by then (which holds whenever ticks are at least a tick apart).
\<close>

theorem one_shot_fires_on_time:
  assumes "tq_inv q" and "buckets q < 2 ^ 32" and "0 \<le> d" and "(d + tickMs q - 1) div tickMs q < int (buckets q)"
    and "1 < buckets q" and "length ts = max 1 (nat ((d + tickMs q - 1) div tickMs q))" and "now + d \<le> t"
  shows "let (i, q1) = addTimer cb d 0 now q; (fired, q2) = ticks_run ts q1
         in i \<notin> set fired \<and> i \<in> set (fst (tick t q2))"
proof -
  let ?i = "nextId q" and ?q1 = "snd (addTimer cb d 0 now q)" and ?n = "max 1 (nat ((d + tickMs q - 1) div tickMs q))"
  note inv = tq_invD [OF assms(1)]
  have inv1: "tq_inv ?q1" by (rule tq_inv_addTimer [OF assms(1)])
  have fields: "buckets ?q1 = buckets q" "currentBucket ?q1 = currentBucket q"
      "tstore ?q1 ?i = Timer_new cb (now + d) 0" "fst (addTimer cb d 0 now q) = ?i"
    by (simp_all add: addTimer_def push_timer_def Let_def)
  have small: "(d + tickMs q - 1) div tickMs q < 2 ^ 32" using assms(2,4) by simp
  then have "ticks_of q d = nat ((d + tickMs q - 1) div tickMs q)"
    using ticks_of_nonneg [OF assms(3) inv(4)] by simp
  then have n: "add_ticks q d = ?n" by (auto simp: add_ticks_def)
  have lt: "?n < buckets q" using assms(4,5) inv(1) by (simp add: nat_less_iff)
  have "bucket_at q ?n = (currentBucket q + ?n) mod buckets q"
    using bucket_at_small [OF inv(3) _ assms(2), of ?n] lt assms(2) by simp
  then have at: "?i \<in> set (wheel ?q1 ! ((currentBucket ?q1 + ?n) mod buckets ?q1))"
    using inv(1,2) by (simp add: addTimer_wheel n fields)
  have ahead: "?n < buckets ?q1" using lt fields(1) by simp
  note run = ticks_run_ahead [OF inv1 assms(6) ahead at]
  have "due t (tstore (snd (ticks_run ts ?q1)) ?i)"
    using run fields(3) assms(7) by (simp add: due_def Timer_new_def)
  then have "?i \<in> set (fst (tick t (snd (ticks_run ts ?q1))))"
    using run tick_fired [OF tq_inv_ticks_run [OF inv1]] by blast
  then show ?thesis using run fields(4) by (simp add: Let_def split_beta)
qed

theorem one_shot_fires_on_time_witness:
  "let (i, q1) = addTimer True 1500 0 10 (TimerQueue_new 60 1000); (fired, q2) = ticks_run [900, 1900] q1
   in i \<notin> set fired \<and> i \<in> set (fst (tick 2900 q2))"
proof -
  have "tq_inv (TimerQueue_new 60 1000)" by (rule tq_inv_new) simp_all
  then show ?thesis
    using one_shot_fires_on_time [of "TimerQueue_new 60 1000" 1500 "[900, 1900]" 10 2900 True]
    by (simp add: TimerQueue_new_def)
qed

text \<open>
  A timer that is visited before it expires waits for a whole revolution: it does not fire at this
  tick nor at any of the next \<open>buckets - 1\<close> ticks, even when they happen after its expiration.  A
  periodic timer is placed exactly its interval ahead, so one millisecond of drift of the tick is enough.
\<close>

theorem early_visit_waits_a_revolution:
  assumes "tq_inv q" and "i \<in> set (wheel q ! currentBucket q)" and "\<not> cancelled (tstore q i)"
    and "now < expiration (tstore q i)" and "Suc (length ts) = buckets q"
  shows "i \<notin> set (fst (ticks_run (now # ts) q))"
proof -
  note inv = tq_invD [OF assms(1)]
  let ?q1 = "snd (tick now q)"
  have stay: "i \<in> set (wheel ?q1 ! currentBucket q)" "i \<notin> set (fst (tick now q))"
    using assms(2-4) inv(3)
    by (auto simp: tick_wheel [OF assms(1)] tick_fired [OF assms(1)] stays_iff due_def)
  have b: "buckets ?q1 = buckets q" "currentBucket ?q1 = (currentBucket q + 1) mod buckets q"
    by (simp_all add: tick_current [OF assms(1)])
  have "(currentBucket ?q1 + length ts) mod buckets ?q1 = (currentBucket q + buckets q) mod buckets q"
    using b assms(5) by (metis add.assoc add.commute mod_add_left_eq plus_1_eq_Suc)
  then have "(currentBucket ?q1 + length ts) mod buckets ?q1 = currentBucket q"
    using inv(3) by simp
  then have "i \<notin> set (fst (ticks_run ts ?q1))"
    using ticks_run_ahead [OF tq_inv_tick [OF assms(1)] refl, of ts now i] stay(1) assms(5) b by simp
  then show ?thesis using stay(2) by (simp add: Let_def split_beta)
qed

theorem early_visit_waits_a_revolution_witness:
  "let q = snd (tick 0 (snd (addTimer True 1 0 0 (TimerQueue_new 2 1000)))) in
   0 \<in> set (wheel q ! currentBucket q) \<and> 0 \<notin> set (fst (ticks_run [0, 5000] q))"
proof -
  let ?q = "snd (tick 0 (snd (addTimer True 1 0 0 (TimerQueue_new 2 1000))))"
  have inv: "tq_inv ?q" by (intro inv_intros) simp_all
  have "0 \<in> set (wheel ?q ! currentBucket ?q) \<and> \<not> cancelled (tstore ?q 0) \<and> 0 < expiration (tstore ?q 0) \<and> buckets ?q = 2"
    by code_simp
  then show ?thesis
    using early_visit_waits_a_revolution [OF inv, of 0 0 "[5000]"] by (simp add: Let_def)
qed

end
