(* ===== verification/EventLoopModel.thy ===== *)
theory EventLoopModel
  imports TimerWheel
begin

text \<open>
  \<^verbatim>\<open>src/net/EventLoop.cc\<close>, \<^verbatim>\<open>TimerId.h\<close> and \<^verbatim>\<open>EventLoopThreadPool.cc\<close>: the functor queue of a loop, its
  wakeup descriptor, its timers, and the round robin over loops.  The loop body is split at its
  scheduling points (waiting in \<^verbatim>\<open>poll\<close>, handling events, running functors), so that steps of other
  threads interleave with it.  The theory shows that a functor is never forgotten while the loop sleeps
  and that functors run once each, in the order they were queued.
\<close>

section \<open>State and operations\<close>

text \<open>The closures this component queues itself, and those of its users (identified by a number).\<close>

datatype loop_functor = UserFunctor nat | AddTimerFunctor bool int int | CancelTimerFunctor int

text \<open>Where the loop thread is: outside \<^verbatim>\<open>loop()\<close>, in \<^verbatim>\<open>poll()\<close>, in the event handlers, or in
  \<^verbatim>\<open>doPendingFunctors()\<close> with the functors of its local vector still to run.\<close>

datatype phase = Stopped | Polling | Handling | Calling "loop_functor list"

record event_loop =
  looping :: bool
  quit_flag :: bool
  callingPendingFunctors :: bool
  pendingFunctors :: "loop_functor list"
  wakeups :: nat
  timerQueue :: timer_queue
  phase :: phase
  executed :: "loop_functor list"

definition kTimerBuckets :: nat where "kTimerBuckets = 60"
definition kTimerTickMs :: int where "kTimerTickMs = 1000"

definition EventLoop_new :: event_loop where
  "EventLoop_new =
     \<lparr>looping = False, quit_flag = False, callingPendingFunctors = False, pendingFunctors = [], wakeups = 0,
      timerQueue = TimerQueue_new kTimerBuckets kTimerTickMs, phase = Stopped, executed = []\<rparr>"

text \<open>\<^verbatim>\<open>wakeup()\<close> adds one to the eventfd counter, \<^verbatim>\<open>handleRead()\<close> reads and clears it.\<close>

definition wakeup :: "event_loop \<Rightarrow> event_loop" where
  "wakeup l = l\<lparr>wakeups := wakeups l + 1\<rparr>"

definition EventLoop_handleRead :: "event_loop \<Rightarrow> event_loop" where
  "EventLoop_handleRead l = l\<lparr>wakeups := 0\<rparr>"

definition queueInLoop :: "bool \<Rightarrow> loop_functor \<Rightarrow> event_loop \<Rightarrow> event_loop" where
  "queueInLoop inLoop cb l =
     (let l1 = l\<lparr>pendingFunctors := pendingFunctors l @ [cb]\<rparr>
      in if \<not> inLoop \<or> callingPendingFunctors l1 then wakeup l1 else l1)"

text \<open>Running a closure: the loop's own ones act on its timers.\<close>

definition cancel_id :: "int \<Rightarrow> event_loop \<Rightarrow> event_loop" where
  "cancel_id i l = l\<lparr>timerQueue := cancelTimer (nat i) (timerQueue l)\<rparr>"

definition run_functor :: "int \<Rightarrow> loop_functor \<Rightarrow> event_loop \<Rightarrow> event_loop" where
  "run_functor now f l =
     (case f of
        UserFunctor _ \<Rightarrow> l
      | AddTimerFunctor cb delayMs intervalMs \<Rightarrow>
          l\<lparr>timerQueue := snd (addTimer cb delayMs intervalMs now (timerQueue l))\<rparr>
      | CancelTimerFunctor i \<Rightarrow> cancel_id i l)"

definition runInLoop :: "int \<Rightarrow> bool \<Rightarrow> loop_functor \<Rightarrow> event_loop \<Rightarrow> event_loop" where
  "runInLoop now inLoop cb l = (if inLoop then run_functor now cb l else queueInLoop inLoop cb l)"

definition quit :: "bool \<Rightarrow> event_loop \<Rightarrow> event_loop" where
  "quit inLoop l = (let l1 = l\<lparr>quit_flag := True\<rparr> in if \<not> inLoop then wakeup l1 else l1)"

text \<open>\<^verbatim>\<open>handleTimerRead\<close>: one tick of the wheel, whatever the number of expirations read.\<close>

definition handleTimerRead :: "int \<Rightarrow> event_loop \<Rightarrow> nat list \<times> event_loop" where
  "handleTimerRead now l =
     (let (fired, q) = tick now (timerQueue l) in (fired, l\<lparr>timerQueue := q\<rparr>))"

text \<open>
  \<^verbatim>\<open>runAfter\<close> and \<^verbatim>\<open>runEvery\<close>, after the conversion of the argument to milliseconds.  From another
  thread the timer is added by a functor, and the id returned is read before that functor runs.
\<close>

definition runAfter :: "int \<Rightarrow> bool \<Rightarrow> bool \<Rightarrow> int \<Rightarrow> event_loop \<Rightarrow> int \<times> event_loop" where
  "runAfter now inLoop cb delayMs0 l =
     (let delayMs = (if delayMs0 < 0 then 0 else delayMs0) in
      if inLoop
      then let (i, q) = addTimer cb delayMs 0 now (timerQueue l) in (int i, l\<lparr>timerQueue := q\<rparr>)
      else (-1, runInLoop now inLoop (AddTimerFunctor cb delayMs 0) l))"

definition runEvery :: "int \<Rightarrow> bool \<Rightarrow> bool \<Rightarrow> int \<Rightarrow> event_loop \<Rightarrow> int \<times> event_loop" where
  "runEvery now inLoop cb intervalMs0 l =
     (let intervalMs = (if intervalMs0 \<le> 0 then 1 else intervalMs0) in
      if inLoop
      then let (i, q) = addTimer cb intervalMs intervalMs now (timerQueue l) in (int i, l\<lparr>timerQueue := q\<rparr>)
      else (-1, runInLoop now inLoop (AddTimerFunctor cb intervalMs intervalMs) l))"

definition TimerId_valid :: "int \<Rightarrow> bool" where
  "TimerId_valid i \<longleftrightarrow> i \<ge> 0"

definition EventLoop_cancel :: "int \<Rightarrow> bool \<Rightarrow> int \<Rightarrow> event_loop \<Rightarrow> event_loop" where
  "EventLoop_cancel now inLoop timerId l =
     (if \<not> TimerId_valid timerId then l
      else if inLoop then cancel_id timerId l
      else runInLoop now inLoop (CancelTimerFunctor timerId) l)"

text \<open>The pieces of \<^verbatim>\<open>loop()\<close>.\<close>

definition loop_enter :: "event_loop \<Rightarrow> event_loop" where
  "loop_enter l = l\<lparr>looping := True, quit_flag := False, phase := Polling\<rparr>"

definition poll_returns :: "event_loop \<Rightarrow> event_loop" where
  "poll_returns l = l\<lparr>phase := Handling\<rparr>"

definition doPendingFunctors_swap :: "event_loop \<Rightarrow> event_loop" where
  "doPendingFunctors_swap l =
     l\<lparr>callingPendingFunctors := True, pendingFunctors := [], phase := Calling (pendingFunctors l)\<rparr>"

definition doPendingFunctors_next :: "int \<Rightarrow> event_loop \<Rightarrow> event_loop" where
  "doPendingFunctors_next now l =
     (case phase l of
        Calling (f # fs) \<Rightarrow> (run_functor now f l)\<lparr>phase := Calling fs, executed := executed l @ [f]\<rparr>
      | Calling [] \<Rightarrow>
          (let l1 = l\<lparr>callingPendingFunctors := False\<rparr>
           in if quit_flag l1 then l1\<lparr>looping := False, phase := Stopped\<rparr> else l1\<lparr>phase := Polling\<rparr>)
      | _ \<Rightarrow> l)"

section \<open>The thread pool\<close>

record loop_pool =
  baseLoop :: nat
  loops :: "nat list"
  next_loop :: nat

definition getNextLoop :: "loop_pool \<Rightarrow> nat \<times> loop_pool" where
  "getNextLoop p =
     (if loops p \<noteq> []
      then let n = next_loop p + 1
           in (loops p ! next_loop p, p\<lparr>next_loop := (if n \<ge> length (loops p) then 0 else n)\<rparr>)
      else (baseLoop p, p))"

definition getAllLoops :: "nat \<Rightarrow> loop_pool \<Rightarrow> nat list" where
  "getAllLoops numThreads p = (if numThreads = 0 then [baseLoop p] else loops p)"

section \<open>Interleavings\<close>

text \<open>
  The label of a step is the functor it queues.  The loop thread queues functors from inside the loop
  only; before \<^verbatim>\<open>loop()\<close> runs it has no handler to do so.  Code running in the loop thread (an event handler or a
  functor) and code of other threads use the same operations with a different \<open>inLoop\<close>.
\<close>

inductive loop_step :: "event_loop \<Rightarrow> loop_functor list \<Rightarrow> event_loop \<Rightarrow> bool" where
  enter: "phase l = Stopped \<Longrightarrow> loop_step l [] (loop_enter l)"
| poll_returns: "phase l = Polling \<Longrightarrow> loop_step l [] (poll_returns l)"
| read_wakeup: "phase l = Handling \<Longrightarrow> loop_step l [] (EventLoop_handleRead l)"
| read_timer: "phase l = Handling \<Longrightarrow> loop_step l [] (snd (handleTimerRead now l))"
| swap: "phase l = Handling \<Longrightarrow> loop_step l [] (doPendingFunctors_swap l)"
| next_functor: "phase l = Calling fs \<Longrightarrow> loop_step l [] (doPendingFunctors_next now l)"
| local_queue: "phase l \<notin> {Stopped, Polling} \<Longrightarrow> loop_step l [f] (queueInLoop True f l)"
| local_run: "phase l \<notin> {Stopped, Polling} \<Longrightarrow> loop_step l [] (runInLoop now True f l)"
| local_quit: "phase l \<notin> {Stopped, Polling} \<Longrightarrow> loop_step l [] (quit True l)"
| local_after: "phase l \<notin> {Stopped, Polling} \<Longrightarrow> loop_step l [] (snd (runAfter now True cb d l))"
| local_every: "phase l \<notin> {Stopped, Polling} \<Longrightarrow> loop_step l [] (snd (runEvery now True cb d l))"
| local_cancel: "phase l \<notin> {Stopped, Polling} \<Longrightarrow> loop_step l [] (EventLoop_cancel now True i l)"
| remote_queue: "loop_step l [f] (queueInLoop False f l)"
| remote_quit: "loop_step l [] (quit False l)"

inductive loop_reach :: "event_loop \<Rightarrow> loop_functor list \<Rightarrow> bool" where
  created: "loop_reach EventLoop_new []"
| step: "loop_reach l queued \<Longrightarrow> loop_step l fs l' \<Longrightarrow> loop_reach l' (queued @ fs)"

text \<open>The functors taken over by \<^verbatim>\<open>doPendingFunctors\<close> and not run yet.\<close>

definition running :: "event_loop \<Rightarrow> loop_functor list" where
  "running l = (case phase l of Calling fs \<Rightarrow> fs | _ \<Rightarrow> [])"

definition loop_inv :: "loop_functor list \<Rightarrow> event_loop \<Rightarrow> bool" where
  "loop_inv queued l \<longleftrightarrow>
     executed l @ running l @ pendingFunctors l = queued \<and>
     (callingPendingFunctors l \<longleftrightarrow> (\<exists>fs. phase l = Calling fs)) \<and>
     (phase l \<noteq> Handling \<longrightarrow> pendingFunctors l \<noteq> [] \<longrightarrow> 0 < wakeups l) \<and>
     (phase l = Polling \<longrightarrow> quit_flag l \<longrightarrow> 0 < wakeups l) \<and>
     tq_inv (timerQueue l)"

lemmas loop_defs = running_def loop_enter_def poll_returns_def EventLoop_handleRead_def handleTimerRead_def
  doPendingFunctors_swap_def doPendingFunctors_next_def queueInLoop_def runInLoop_def quit_def runAfter_def
  runEvery_def EventLoop_cancel_def run_functor_def cancel_id_def wakeup_def Let_def

lemma loop_inv_new: "loop_inv [] EventLoop_new"
  by (simp add: loop_inv_def EventLoop_new_def running_def kTimerBuckets_def kTimerTickMs_def tq_inv_new)

lemma loop_inv_run_functor: "loop_inv queued l \<Longrightarrow> loop_inv queued (run_functor now f l)"
  by (auto simp: loop_inv_def run_functor_def running_def cancel_id_def split: loop_functor.split intro: inv_intros)

lemma loop_inv_timers: "loop_inv queued l \<Longrightarrow> tq_inv q \<Longrightarrow> loop_inv queued (l\<lparr>timerQueue := q\<rparr>)"
  by (simp add: loop_inv_def running_def)

lemma loop_inv_next:
  assumes "loop_inv queued l"
  shows "loop_inv queued (doPendingFunctors_next now l)"
proof (cases "\<exists>f fs. phase l = Calling (f # fs)")
  case True
  then obtain f fs where p: "phase l = Calling (f # fs)" by blast
  have same: "executed (run_functor now f l) = executed l" "phase (run_functor now f l) = phase l"
      "pendingFunctors (run_functor now f l) = pendingFunctors l" "wakeups (run_functor now f l) = wakeups l"
      "callingPendingFunctors (run_functor now f l) = callingPendingFunctors l"
    by (simp_all add: run_functor_def cancel_id_def split: loop_functor.split)
  show ?thesis
    using loop_inv_run_functor [OF assms, of now f] assms
    by (auto simp: loop_inv_def doPendingFunctors_next_def running_def p same)
next
  case False
  then show ?thesis
    using assms
    by (cases "phase l")
      (auto simp: loop_inv_def doPendingFunctors_next_def running_def Let_def split: list.split)
qed

lemma loop_step_inv: "loop_step l fs l' \<Longrightarrow> loop_inv queued l \<Longrightarrow> loop_inv (queued @ fs) l'"
proof (induction rule: loop_step.induct)
  case (next_functor l fs now)
  then show ?case using loop_inv_next by simp
next
  case (read_timer l now)
  then show ?case
    by (simp add: handleTimerRead_def split_beta Let_def loop_inv_timers tq_inv_tick) (simp add: loop_inv_def running_def tq_inv_tick)
next
  case (local_run l now f)
  then show ?case by (simp add: runInLoop_def loop_inv_run_functor)
next
  case (local_after l now cb d)
  then show ?case
    by (simp add: runAfter_def split_beta Let_def) (simp add: loop_inv_def running_def tq_inv_addTimer)
next
  case (local_every l now cb d)
  then show ?case
    by (simp add: runEvery_def split_beta Let_def) (simp add: loop_inv_def running_def tq_inv_addTimer)
next
  case (local_cancel l now i)
  then show ?case
    by (simp add: EventLoop_cancel_def cancel_id_def loop_inv_timers) (simp add: loop_inv_def running_def tq_inv_cancel)
qed (auto simp: loop_inv_def running_def loop_enter_def poll_returns_def EventLoop_handleRead_def
    doPendingFunctors_swap_def queueInLoop_def quit_def wakeup_def Let_def split: phase.splits)

lemma loop_reach_inv: "loop_reach l queued \<Longrightarrow> loop_inv queued l"
  by (induction rule: loop_reach.induct) (auto intro: loop_inv_new loop_step_inv)

lemma pool_cycle:
  assumes "loops p \<noteq> []" and "next_loop p < length (loops p)"
  shows "fst (getNextLoop p) = loops p ! next_loop p"
    and "next_loop (snd (getNextLoop p)) = (next_loop p + 1) mod length (loops p)"
    and "loops (snd (getNextLoop p)) = loops p"
  using assms by (auto simp: getNextLoop_def Let_def mod_if)

section \<open>Properties\<close>



text \<open>
  Functors run exactly once and in the order they were queued, over every interleaving of the loop
  thread with other threads and with functors that queue functors.
\<close>

theorem functors_run_once_in_order:
  assumes "loop_reach l queued"
  shows "executed l @ running l @ pendingFunctors l = queued"
  using loop_reach_inv [OF assms] by (simp add: loop_inv_def)

theorem functors_run_once_in_order_witness:
  "let l = queueInLoop False (UserFunctor 2) (queueInLoop False (UserFunctor 1) EventLoop_new)
   in executed l @ running l @ pendingFunctors l = [UserFunctor 1, UserFunctor 2]"
proof -
  have "loop_reach (queueInLoop False (UserFunctor 2) (queueInLoop False (UserFunctor 1) EventLoop_new))
      (([] @ [UserFunctor 1]) @ [UserFunctor 2])"
    by (rule loop_reach.step [OF loop_reach.step [OF loop_reach.created loop_step.remote_queue] loop_step.remote_queue])
  from functors_run_once_in_order [OF this] show ?thesis by (simp add: Let_def)
qed

text \<open>
  A timer started from another thread cannot be cancelled: \<^verbatim>\<open>runAfter\<close> and \<^verbatim>\<open>runEvery\<close> return the
  invalid id, for which \<^verbatim>\<open>cancel\<close> does nothing, while the timer is added when the functor runs.
\<close>

theorem remote_timer_not_cancellable:
  "let (i, l1) = runAfter now False cb d l; (j, l2) = runEvery now False cb d l in
   \<not> TimerId_valid i \<and> \<not> TimerId_valid j \<and>
   EventLoop_cancel now inLoop i l1 = l1 \<and> EventLoop_cancel now inLoop j l2 = l2 \<and>
   pendingFunctors l1 = pendingFunctors l @ [AddTimerFunctor cb (max 0 d) 0] \<and>
   pendingFunctors l2 = pendingFunctors l @ [AddTimerFunctor cb (max 1 d) (max 1 d)]"
  by (auto simp: runAfter_def runEvery_def TimerId_valid_def EventLoop_cancel_def runInLoop_def queueInLoop_def
      wakeup_def Let_def max_def)

text \<open>
  A \<^verbatim>\<open>quit()\<close> that comes before \<^verbatim>\<open>loop()\<close> is forgotten: \<^verbatim>\<open>loop()\<close> clears the flag and waits.
\<close>

theorem quit_before_loop_is_lost:
  "phase (loop_enter (quit inLoop l)) = Polling \<and> \<not> quit_flag (loop_enter (quit inLoop l))"
  by (simp add: loop_enter_def)

text \<open>
  The thread pool is a round robin: the \<open>n\<close>-th next call of \<^verbatim>\<open>getNextLoop\<close> returns the loop \<open>n\<close> places
  after the current one, cyclically, and no index leaves the vector.
\<close>

theorem getNextLoop_round_robin:
  assumes "loops p \<noteq> []" and "next_loop p < length (loops p)"
  shows "let p' = ((\<lambda>p. snd (getNextLoop p)) ^^ n) p in
    next_loop p' < length (loops p) \<and> fst (getNextLoop p') = loops p ! ((next_loop p + n) mod length (loops p))"
proof -
  have "loops (((\<lambda>p. snd (getNextLoop p)) ^^ n) p) = loops p \<and>
      next_loop (((\<lambda>p. snd (getNextLoop p)) ^^ n) p) = (next_loop p + n) mod length (loops p)" for n
  proof (induction n)
    case (Suc n)
    then show ?case
      using assms pool_cycle [of "((\<lambda>p. snd (getNextLoop p)) ^^ n) p"] by (simp add: mod_Suc_eq)
  qed (use assms in simp)
  then show ?thesis
    using assms pool_cycle(1) [of "((\<lambda>p. snd (getNextLoop p)) ^^ n) p"] by (simp add: Let_def)
qed

theorem getNextLoop_round_robin_witness:
  "let p = \<lparr>baseLoop = 0, loops = [10, 11, 12], next_loop = 2\<rparr>; p' = ((\<lambda>p. snd (getNextLoop p)) ^^ 2) p
   in next_loop p' < 3 \<and> fst (getNextLoop p') = 11"
  using getNextLoop_round_robin [of "\<lparr>baseLoop = 0, loops = [10, 11, 12], next_loop = 2\<rparr>" 2]
  by (simp add: Let_def)

end
