(* ===== verification/WsFrame.thy ===== *)
theory WsFrame
  imports Prelude
begin

text \<open>
  \<^verbatim>\<open>src/websocket/WebSocketFrame.h\<close>: the WebSocket frame codec.  Bytes are 8-bit words, lengths are
  64-bit words with the arithmetic of \<^verbatim>\<open>size_t\<close>, so the wrap-around in the length check of \<^verbatim>\<open>decode\<close> is
  in the model.  The random masking key and the SHA-1 of OpenSSL are parameters.  The theory shows the
  round trip for both encoders, that a decoder given any strict prefix asks for more data, and what a
  length close to \<open>2^64\<close> does.
\<close>

section \<open>Frames\<close>

definition WsContinuation :: u8 where "WsContinuation = 0x0"
definition WsText :: u8 where "WsText = 0x1"
definition WsBinary :: u8 where "WsBinary = 0x2"
definition WsClose :: u8 where "WsClose = 0x8"
definition WsPing :: u8 where "WsPing = 0x9"
definition WsPong :: u8 where "WsPong = 0xA"

lemmas ws_opcodes = WsContinuation_def WsText_def WsBinary_def WsClose_def WsPing_def WsPong_def

record ws_frame =
  fin :: bool
  rsv1 :: u8
  rsv2 :: u8
  rsv3 :: u8
  opcode :: u8
  mask :: bool
  maskingKey :: "u8 list"
  payload :: "u8 list"

definition WebSocketFrame_new :: ws_frame where
  "WebSocketFrame_new =
     \<lparr>fin = True, rsv1 = 0, rsv2 = 0, rsv3 = 0, opcode = WsText, mask = False, maskingKey = [0, 0, 0, 0], payload = []\<rparr>"

definition isControlFrame :: "ws_frame \<Rightarrow> bool" where
  "isControlFrame f \<longleftrightarrow> opcode f \<ge> 0x8"

definition setBinaryPayload :: "u8 list \<Rightarrow> ws_frame \<Rightarrow> ws_frame" where
  "setBinaryPayload data f = f\<lparr>payload := data, opcode := WsBinary\<rparr>"

section \<open>Encoding\<close>

text \<open>The second byte and the extended length, then the masking key.\<close>

definition length_bytes :: "bool \<Rightarrow> u64 \<Rightarrow> u8 list" where
  "length_bytes msk payloadLen =
     (let byte2 = (if msk then 0x80 else 0x00) in
      if payloadLen \<le> 125 then [byte2 OR ucast payloadLen]
      else if payloadLen \<le> 65535
      then [byte2 OR 126, ucast (drop_bit 8 payloadLen AND 0xFF), ucast (payloadLen AND 0xFF)]
      else (byte2 OR 127) # map (\<lambda>i. ucast (drop_bit (i * 8) payloadLen AND 0xFF)) [7, 6, 5, 4, 3, 2, 1, 0])"

definition xor_mask :: "u8 list \<Rightarrow> u8 list \<Rightarrow> u8 list" where
  "xor_mask key data = map (\<lambda>i. data ! i XOR key ! (i AND 3)) [0..<length data]"

definition encodeRaw :: "u8 \<Rightarrow> u8 list \<Rightarrow> bool \<Rightarrow> bool \<Rightarrow> u8 list \<Rightarrow> u8 list" where
  "encodeRaw opc pl fn msk key =
     (let byte1 = (if fn then 0x80 else 0x00) OR (opc AND 0x0F) in
      byte1 # length_bytes msk (of_nat (length pl)) @
      (if msk then take 4 key else []) @
      (if length pl > 0 then if \<not> msk then pl else xor_mask key pl else []))"

definition encode :: "ws_frame \<Rightarrow> bool \<Rightarrow> u8 list \<Rightarrow> u8 list" where
  "encode f msk key =
     (let byte1 = (if fin f then 0x80 else 0x00) OR push_bit 6 (rsv1 f AND 0x01) OR push_bit 5 (rsv2 f AND 0x01)
                  OR push_bit 4 (rsv3 f AND 0x01) OR (opcode f AND 0x0F) in
      byte1 # length_bytes msk (of_nat (length (payload f))) @
      (if msk then take 4 key else []) @
      (if length (payload f) > 0 then if \<not> msk then payload f else xor_mask key (payload f) else []))"

definition encodeText :: "u8 list \<Rightarrow> u8 list" where
  "encodeText text = encodeRaw WsText text True False []"

definition encodeBinary :: "u8 list \<Rightarrow> u8 list" where
  "encodeBinary data = encodeRaw WsBinary data True False []"

definition encodeClose :: "u16 \<Rightarrow> u8 list \<Rightarrow> u8 list" where
  "encodeClose code reason =
     encode (WebSocketFrame_new\<lparr>opcode := WsClose,
       payload := [ucast (drop_bit 8 code AND 0xFF), ucast (code AND 0xFF)] @ reason\<rparr>) False []"

definition encodePong :: "u8 list \<Rightarrow> u8 list" where
  "encodePong pingData = encode (WebSocketFrame_new\<lparr>opcode := WsPong, payload := pingData\<rparr>) False []"

definition encodePing :: "u8 list \<Rightarrow> u8 list" where
  "encodePing data = encode (WebSocketFrame_new\<lparr>opcode := WsPing, payload := data\<rparr>) False []"

section \<open>Decoding\<close>

text \<open>
  \<open>Throws\<close> is the \<^verbatim>\<open>std::length_error\<close> of \<^verbatim>\<open>resize\<close> for a size above \<^verbatim>\<open>max_size()\<close>.  No path of the
  source returns the status \<^verbatim>\<open>Error\<close>.
\<close>

datatype decode_result = Incomplete | Ok ws_frame u64 | Throws

definition vector_max_size :: u64 where "vector_max_size = 2 ^ 63 - 1"

text \<open>The length field: the payload length and the header size so far, or \<open>None\<close> for \<^verbatim>\<open>Incomplete\<close>.\<close>

definition decode_length :: "u8 list \<Rightarrow> (u64 \<times> u64) option" where
  "decode_length data =
     (let len = of_nat (length data) :: u64;
          payloadLen = ucast (data ! 1 AND 0x7F) :: u64 in
      if payloadLen = 126 then
        if len < 4 then None
        else Some (push_bit 8 (ucast (data ! 2)) OR ucast (data ! 3), 4)
      else if payloadLen = 127 then
        if len < 10 then None
        else Some (foldl (\<lambda>acc i. push_bit 8 acc OR ucast (data ! i)) 0 [2, 3, 4, 5, 6, 7, 8, 9], 10)
      else Some (payloadLen, 2))"

definition decode_payload :: "u8 list \<Rightarrow> ws_frame \<Rightarrow> u64 \<Rightarrow> u64 \<Rightarrow> decode_result" where
  "decode_payload data f payloadLen headerSize =
     (if of_nat (length data) < headerSize + payloadLen then Incomplete
      else if payloadLen > vector_max_size then Throws
      else
        (let payloadData = take (unat payloadLen) (drop (unat headerSize) data)
         in Ok (f\<lparr>payload := (if mask f
               then map (\<lambda>i. payloadData ! i XOR maskingKey f ! (i mod 4)) [0..<unat payloadLen]
               else payloadData)\<rparr>) (headerSize + payloadLen)))"

definition decode :: "u8 list \<Rightarrow> decode_result" where
  "decode data =
     (let len = of_nat (length data) :: u64 in
      if len < 2 then Incomplete
      else
        (let f = WebSocketFrame_new\<lparr>
               fin := data ! 0 AND 0x80 \<noteq> 0,
               rsv1 := drop_bit 6 (data ! 0) AND 0x01,
               rsv2 := drop_bit 5 (data ! 0) AND 0x01,
               rsv3 := drop_bit 4 (data ! 0) AND 0x01,
               opcode := data ! 0 AND 0x0F,
               mask := data ! 1 AND 0x80 \<noteq> 0\<rparr>
         in case decode_length data of
              None \<Rightarrow> Incomplete
            | Some (payloadLen, headerSize) \<Rightarrow>
                if mask f then
                  if len < headerSize + 4 then Incomplete
                  else decode_payload data
                         (f\<lparr>maskingKey := take 4 (drop (unat headerSize) data)\<rparr>) payloadLen (headerSize + 4)
                else decode_payload data f payloadLen headerSize))"

section \<open>The handshake key\<close>

definition base64Chars :: string where
  "base64Chars = ''ABCDEFGHIJKLMNOPQRSTUVWXYZabcdefghijklmnopqrstuvwxyz0123456789+/''"

definition WS_GUID :: string where "WS_GUID = ''258EAFA5-E914-47DA-95CA-C5AB0DC85B11''"

definition base64_group :: "u8 list \<Rightarrow> nat \<Rightarrow> nat \<Rightarrow> string" where
  "base64_group hash n i =
     (let w = (push_bit 16 (ucast (hash ! i)) OR
               (if i + 1 < n then push_bit 8 (ucast (hash ! (i + 1))) else 0) OR
               (if i + 2 < n then ucast (hash ! (i + 2)) else 0) :: u32)
      in [base64Chars ! unat (drop_bit 18 w AND 0x3F), base64Chars ! unat (drop_bit 12 w AND 0x3F),
          if i + 1 < n then base64Chars ! unat (drop_bit 6 w AND 0x3F) else CHR ''='',
          if i + 2 < n then base64Chars ! unat (w AND 0x3F) else CHR ''=''])"

definition computeAcceptKey :: "(string \<Rightarrow> u8 list) \<Rightarrow> string \<Rightarrow> string" where
  "computeAcceptKey SHA1 clientKey =
     (let hash = SHA1 (clientKey @ WS_GUID)
      in concat (map (base64_group hash 20) [0, 3, 6, 9, 12, 15, 18]))"

section \<open>Bytes and lengths\<close>

lemma and_3_mod_4: "(i::nat) AND 3 = i mod 4"
  using take_bit_eq_mask [of 2 i] by (simp add: take_bit_eq_mod mask_eq_exp_minus_1)

lemma length_xor_mask [simp]: "length (xor_mask key data) = length data"
  by (simp add: xor_mask_def)

lemma nth_xor_mask: "i < length data \<Longrightarrow> xor_mask key data ! i = data ! i XOR key ! (i mod 4)"
  by (simp add: xor_mask_def and_3_mod_4)

lemma xor_mask_involution: "xor_mask key (xor_mask key data) = data"
  by (rule nth_equalityI) (simp_all add: nth_xor_mask xor.assoc)

text \<open>One step of the big-endian loop.\<close>

lemma shift_in_byte:
  "push_bit 8 (drop_bit (8 + n) w) OR ucast (ucast (drop_bit n w AND 0xFF) :: u8) = drop_bit n (w :: u64)"
proof (rule bit_word_eqI)
  fix i assume "i < LENGTH(64)"
  have "bit (0xFF :: u64) i \<longleftrightarrow> i < 8"
    using bit_mask_iff [of 8 i, where ?'a = "64 word"] \<open>i < LENGTH(64)\<close> by (simp add: mask_eq_exp_minus_1)
  then show "bit (push_bit 8 (drop_bit (8 + n) w) OR ucast (ucast (drop_bit n w AND 0xFF) :: u8)) i \<longleftrightarrow> bit (drop_bit n w) i"
    using \<open>i < LENGTH(64)\<close>
    by (auto simp: bit_or_iff bit_push_bit_iff bit_drop_bit_eq bit_ucast_iff bit_and_iff)
qed

lemma big_endian_64:
  fixes w :: u64
  defines "b i \<equiv> (ucast (drop_bit (i * 8) w AND 0xFF) :: u8)"
  shows "foldl (\<lambda>acc x. push_bit 8 acc OR ucast x) 0 [b 7, b 6, b 5, b 4, b 3, b 2, b 1, b 0] = w"
proof -
  have z: "drop_bit 64 w = 0"
    by (rule bit_word_eqI) (simp add: bit_drop_bit_eq impossible_bit)
  show ?thesis
    using shift_in_byte [of 56 w] shift_in_byte [of 48 w] shift_in_byte [of 40 w] shift_in_byte [of 32 w]
      shift_in_byte [of 24 w] shift_in_byte [of 16 w] shift_in_byte [of 8 w] shift_in_byte [of 0 w] z
    by (simp add: b_def)
qed

lemma big_endian_16:
  assumes "w \<le> 65535"
  shows "push_bit 8 (ucast (ucast (drop_bit 8 w AND 0xFF) :: u8)) OR ucast (ucast (w AND 0xFF) :: u8) = (w :: u64)"
proof -
  have "w < 2 ^ 16" using assms by (simp add: order_le_less_trans)
  then have "drop_bit 16 w = 0" by (rule drop_bit_small)
  then have "ucast (ucast (drop_bit 8 w AND 0xFF) :: u8) = drop_bit 8 w"
    using shift_in_byte [of 8 w] by simp
  then show ?thesis using shift_in_byte [of 0 w] by simp
qed

section \<open>The decoder on growing input\<close>

lemma decode_length_header:
  "decode_length data = Some (pl, hs) \<Longrightarrow> hs \<in> {2, 4, 10}"
  by (auto simp: decode_length_def Let_def split: if_splits)

lemma decode_length_stable:
  assumes "decode_length data = Some r" and "2 \<le> length data" and "length (data @ ext) < 2 ^ 64"
  shows "decode_length (data @ ext) = Some r"
proof -
  have len: "length data < 2 ^ 64" "length data + length ext < 2 ^ 64" using assms(3) by simp_all
  then show ?thesis
    using assms(1,2)
    by (auto simp: decode_length_def Let_def of_nat_less_word_iff nth_append simp flip: of_nat_add split: if_splits)
qed

lemma decode_payload_stable:
  assumes nw: "decode_payload data f pl hs \<noteq> Incomplete" and len: "length (data @ ext) < 2 ^ 64" and hs: "unat hs \<le> 14"
  shows "decode_payload (data @ ext) f pl hs = decode_payload data f pl hs"
proof -
  have l: "length data < 2 ^ 64" "length data + length ext < 2 ^ 64" using len by simp_all
  have ge: "unat (hs + pl) \<le> length data"
    using nw l(1) by (auto simp: decode_payload_def of_nat_less_word_iff split: if_splits)
  then have ge': "\<not> (of_nat (length (data @ ext)) < hs + pl)"
    using l(2) by (simp add: of_nat_less_word_iff flip: of_nat_add)
  have "take (unat pl) (drop (unat hs) (data @ ext)) = take (unat pl) (drop (unat hs) data)" if "\<not> pl > vector_max_size"
  proof -
    have "unat pl < 2 ^ 63" using that by (simp add: vector_max_size_def word_less_nat_alt not_less)
    then have "unat hs + unat pl \<le> length data" using ge hs unat_plus_small [of hs pl] by simp
    then show ?thesis by simp
  qed
  moreover have "\<not> (of_nat (length data) < hs + pl)"
    using ge l(1) by (simp add: of_nat_less_word_iff)
  ultimately show ?thesis
    unfolding decode_payload_def if_not_P [OF ge'] by (cases "pl > vector_max_size") (simp_all del: take_append drop_append)
qed

lemma decode_payload_bound:
  "decode_payload data f pl hs = Ok g n \<Longrightarrow> length data < 2 ^ 64 \<Longrightarrow> unat n \<le> length data"
  by (auto simp: decode_payload_def Let_def of_nat_less_word_iff split: if_splits)

lemma decode_stable:
  assumes nw: "decode data \<noteq> Incomplete" and len: "length (data @ ext) < 2 ^ 64"
  shows "decode (data @ ext) = decode data"
proof -
  have l: "length data < 2 ^ 64" "length data + length ext < 2 ^ 64" using len by simp_all
  have two: "2 \<le> length data" using nw l by (auto simp: decode_def of_nat_less_word_iff split: if_splits)
  then have hd: "(data @ ext) ! 0 = data ! 0" "(data @ ext) ! 1 = data ! 1" by (auto simp: nth_append)
  obtain pl hs where d: "decode_length data = Some (pl, hs)"
    using nw by (cases "decode_length data") (auto simp: decode_def Let_def split: if_splits)
  have d': "decode_length (data @ ext) = Some (pl, hs)" by (rule decode_length_stable [OF d two len])
  have hs: "unat hs \<le> 10" "unat (hs + 4) = unat hs + 4" using decode_length_header [OF d] by auto
  have key: "take 4 (drop (unat hs) (data @ ext)) = take 4 (drop (unat hs) data)"
    if "\<not> of_nat (length data) < hs + 4"
    using that l hs by (simp add: of_nat_less_word_iff)
  have pay: "decode_payload (data @ ext) f pl h = decode_payload data f pl h"
    if "decode_payload data f pl h \<noteq> Incomplete" "h = hs \<or> h = hs + 4" for f h
    using that hs by (intro decode_payload_stable len) auto
  have big: "\<not> (of_nat (length data) :: u64) < 2" "\<not> (of_nat (length (data @ ext)) :: u64) < 2"
    using two l by (simp_all add: of_nat_less_word_iff flip: of_nat_add)
  show ?thesis
  proof (cases "data ! 1 AND 0x80 = 0")
    case True
    then show ?thesis
      using nw pay unfolding decode_def Let_def if_not_P [OF big(1)] if_not_P [OF big(2)] hd d d' by simp
  next
    case False
    have room: "\<not> of_nat (length data) < hs + 4"
      using nw False unfolding decode_def Let_def if_not_P [OF big(1)] d by (auto split: if_splits)
    then have room': "\<not> of_nat (length (data @ ext)) < hs + 4"
      using l by (simp add: of_nat_less_word_iff flip: of_nat_add)
    show ?thesis
      using nw pay False key [OF room] room
      unfolding decode_def Let_def if_not_P [OF big(1)] if_not_P [OF big(2)] hd d d'
      by (simp add: if_not_P [OF room'] del: length_append take_append drop_append)
  qed
qed

lemma decode_bound:
  assumes "decode data = Ok f n" and len: "length data < 2 ^ 64"
  shows "unat n \<le> length data"
  using assms(1) decode_payload_bound [OF _ len]
  by (auto simp: decode_def Let_def split: if_splits option.splits)

section \<open>Round trip\<close>

text \<open>The bits of the two header bytes.\<close>

lemma byte2_bits:
  assumes "v < 128"
  shows "((if m then 0x80 else 0x00) OR v) AND 0x7F = (v :: u8)"
    and "((if m then 0x80 else 0x00) OR v) AND 0x80 \<noteq> 0 \<longleftrightarrow> m"
proof -
  have m: "v AND 0x7F = v" using less_mask_eq [of v 7] assms by (simp add: mask_eq_exp_minus_1)
  have "v AND 0x80 = (v AND 0x7F) AND 0x80" by (simp add: m)
  also have "\<dots> = 0" by (simp add: and.assoc)
  finally have z: "v AND 0x80 = 0" .
  show "((if m then 0x80 else 0x00) OR v) AND 0x7F = v" by (simp add: word_ao_dist m)
  show "((if m then 0x80 else 0x00) OR v) AND 0x80 \<noteq> 0 \<longleftrightarrow> m" by (simp add: word_ao_dist z)
qed

definition wf_header :: "ws_frame \<Rightarrow> bool" where
  "wf_header f \<longleftrightarrow> rsv1 f \<le> 1 \<and> rsv2 f \<le> 1 \<and> rsv3 f \<le> 1 \<and> opcode f < 16"

lemma byte_le_1: "(x :: u8) \<le> 1 \<longleftrightarrow> x = 0 \<or> x = 1"
proof
  assume "x \<le> 1"
  then have "unat x = 0 \<or> unat x = 1" by (auto simp: word_le_nat_alt)
  then show "x = 0 \<or> x = 1" by (auto simp: word_unat_eq_iff)
qed auto

lemma byte1_bits:
  assumes "wf_header f"
  defines "b \<equiv> (if fin f then 0x80 else 0x00) OR push_bit 6 (rsv1 f AND 0x01) OR push_bit 5 (rsv2 f AND 0x01)
                  OR push_bit 4 (rsv3 f AND 0x01) OR (opcode f AND 0x0F)"
  shows "b AND 0x80 \<noteq> 0 \<longleftrightarrow> fin f" "drop_bit 6 b AND 0x01 = rsv1 f" "drop_bit 5 b AND 0x01 = rsv2 f"
    "drop_bit 4 b AND 0x01 = rsv3 f" "b AND 0x0F = opcode f"
proof -
  let ?o = "opcode f"
  have o: "?o AND 0x0F = ?o" using less_mask_eq [of ?o 4] assms(1) by (simp add: mask_eq_exp_minus_1 wf_header_def)
  have lt: "?o < 16" using assms(1) by (simp add: wf_header_def)
  have d: "drop_bit 4 ?o = 0" "drop_bit 5 ?o = 0" "drop_bit 6 ?o = 0"
    using lt order_less_trans [OF lt, of 32] order_less_trans [OF lt, of 64]
    by (simp_all add: drop_bit_small)
  have "?o AND 0x80 = (?o AND 0x0F) AND 0x80" by (simp add: o)
  also have "\<dots> = 0" by (simp add: and.assoc)
  finally have z: "?o AND 0x80 = 0" .
  from assms(1) have r: "rsv1 f = 0 \<or> rsv1 f = 1" "rsv2 f = 0 \<or> rsv2 f = 1" "rsv3 f = 0 \<or> rsv3 f = 1"
    by (simp_all add: wf_header_def byte_le_1)
  show "b AND 0x80 \<noteq> 0 \<longleftrightarrow> fin f" "drop_bit 6 b AND 0x01 = rsv1 f" "drop_bit 5 b AND 0x01 = rsv2 f"
    "drop_bit 4 b AND 0x01 = rsv3 f" "b AND 0x0F = opcode f"
    using r by (auto simp: b_def word_ao_dist o z d drop_bit_or)
qed

lemma length_length_bytes:
  "length (length_bytes m w) = (if w \<le> 125 then 1 else if w \<le> 65535 then 3 else 9)"
  by (simp add: length_bytes_def Let_def)

lemma ucast_small: "w \<le> 125 \<Longrightarrow> (ucast w :: u8) < 128 \<and> ucast (ucast w :: u8) = (w :: u64)"
proof -
  assume "w \<le> 125"
  then have u: "unat w \<le> 125" by (simp add: word_le_nat_alt)
  then have "unat (ucast w :: u8) = unat w" by (simp add: unsigned_ucast_eq take_bit_eq_mod unat_mod)
  then show ?thesis using u by (simp add: word_less_nat_alt word_unat_eq_iff unsigned_ucast_eq take_bit_eq_mod unat_mod)
qed

lemma decode_length_encoded:
  assumes len: "length (b # length_bytes m w @ zs) < 2 ^ 64"
  shows "decode_length (b # length_bytes m w @ zs) = Some (w, of_nat (1 + length (length_bytes m w)))"
    and "(b # length_bytes m w @ zs) ! 1 AND 0x80 \<noteq> 0 \<longleftrightarrow> m"
proof -
  let ?data = "b # length_bytes m w @ zs"
  consider "w \<le> 125" | "\<not> w \<le> 125" "w \<le> 65535" | "\<not> w \<le> 65535" "\<not> w \<le> 125"
    by force
  then have "decode_length ?data = Some (w, of_nat (1 + length (length_bytes m w))) \<and> (?data ! 1 AND 0x80 \<noteq> 0 \<longleftrightarrow> m)"
  proof cases
    case 1
    note u = ucast_small [OF 1]
    have "w \<noteq> 126" "w \<noteq> 127" using 1 by auto
    then show ?thesis
      using 1 u byte2_bits [of "ucast w" m] by (simp add: length_bytes_def decode_length_def Let_def)
  next
    case 2
    then have "\<not> (of_nat (length ?data) :: u64) < 4"
      unfolding of_nat_less_word_iff [OF len] by (simp add: length_length_bytes)
    then show ?thesis
      using 2 byte2_bits [of 126 m] big_endian_16 [OF 2(2)]
      by (simp add: length_bytes_def decode_length_def Let_def)
  next
    case 3
    then have "\<not> (of_nat (length ?data) :: u64) < 10"
      unfolding of_nat_less_word_iff [OF len] by (simp add: length_length_bytes)
    then show ?thesis
      using 3 byte2_bits [of 127 m] big_endian_64 [of w]
      by (simp add: length_bytes_def decode_length_def Let_def)
  qed
  then show "decode_length ?data = Some (w, of_nat (1 + length (length_bytes m w)))" "?data ! 1 AND 0x80 \<noteq> 0 \<longleftrightarrow> m"
    by simp_all
qed

lemma decode_payload_encoded:
  assumes "length (h @ p) < 2 ^ 63"
  shows "decode_payload (h @ p) f (of_nat (length p)) (of_nat (length h)) =
     Ok (f\<lparr>payload := (if mask f then xor_mask (maskingKey f) p else p)\<rparr>) (of_nat (length (h @ p)))"
proof -
  have l: "length h < 2 ^ 63" "length p < 2 ^ 63" "length h + length p < 2 ^ 63" using assms by simp_all
  then have u: "unat (of_nat (length p) :: u64) = length p" "unat (of_nat (length h) :: u64) = length h"
    by (simp_all add: unat_of_nat)
  have "\<not> of_nat (length p) > vector_max_size"
    using l by (simp add: vector_max_size_def word_less_nat_alt unat_of_nat)
  moreover have "of_nat (length h) + of_nat (length p) = (of_nat (length (h @ p)) :: u64)" by simp
  ultimately show ?thesis
    by (simp add: decode_payload_def u xor_mask_def and_3_mod_4)
qed

definition decoded_as :: "ws_frame \<Rightarrow> bool \<Rightarrow> u8 list \<Rightarrow> ws_frame" where
  "decoded_as f m key = f\<lparr>mask := m, maskingKey := (if m then key else [0, 0, 0, 0])\<rparr>"

definition header_frame :: "u8 \<Rightarrow> u8 \<Rightarrow> ws_frame" where
  "header_frame b0 b1 = WebSocketFrame_new\<lparr>fin := b0 AND 0x80 \<noteq> 0, rsv1 := drop_bit 6 b0 AND 0x01,
     rsv2 := drop_bit 5 b0 AND 0x01, rsv3 := drop_bit 4 b0 AND 0x01, opcode := b0 AND 0x0F, mask := b1 AND 0x80 \<noteq> 0\<rparr>"

lemma decode_unfold:
  assumes "\<not> (of_nat (length data) :: u64) < 2" and "decode_length data = Some (pl, hs)"
    and "header_frame (data ! 0) (data ! 1) = f"
  shows "mask f \<Longrightarrow> \<not> of_nat (length data) < hs + 4 \<Longrightarrow>
      decode data = decode_payload data (f\<lparr>maskingKey := take 4 (drop (unat hs) data)\<rparr>) pl (hs + 4)"
    and "\<not> mask f \<Longrightarrow> decode data = decode_payload data f pl hs"
  unfolding decode_def Let_def if_not_P [OF assms(1)] assms(2) assms(3) [unfolded header_frame_def] by simp_all

lemma decode_encode:
  assumes wf: "wf_header f" and key: "length key = 4" and len: "length (encode f m key) < 2 ^ 63"
  shows "decode (encode f m key) = Ok (decoded_as f m key) (of_nat (length (encode f m key)))"
proof -
  let ?w = "of_nat (length (payload f)) :: u64"
  define b where "b = (if fin f then 0x80 else 0x00) OR push_bit 6 (rsv1 f AND 0x01) OR push_bit 5 (rsv2 f AND 0x01)
                  OR push_bit 4 (rsv3 f AND 0x01) OR (opcode f AND 0x0F)"
  define h where "h = b # length_bytes m ?w"
  define k where "k = (if m then key else [])"
  define p where "p = (if m then xor_mask key (payload f) else payload f)"
  have enc: "encode f m key = h @ k @ p"
    using key by (auto simp: encode_def h_def k_def p_def b_def xor_mask_def)
  have len': "length (h @ k @ p) < 2 ^ 64" "length ((h @ k) @ p) < 2 ^ 63" using len enc by simp_all
  note dl = decode_length_encoded [of b m ?w "k @ p"]
  have dl1: "decode_length (h @ k @ p) = Some (?w, of_nat (length h))" and dl2: "(h @ k @ p) ! 1 AND 0x80 \<noteq> 0 \<longleftrightarrow> m"
    using dl len' by (simp_all add: h_def)
  have two: "\<not> (of_nat (length (h @ k @ p)) :: u64) < 2"
    unfolding of_nat_less_word_iff [OF len'(1)] by (simp add: h_def length_length_bytes)
  have lp: "length p = length (payload f)" by (simp add: p_def)
  have bits: "(h @ k @ p) ! 0 = b" by (simp add: h_def)
  have uh: "unat (of_nat (length h) :: u64) = length h" using len'(2) by (simp add: unat_of_nat)
  define g where "g = WebSocketFrame_new\<lparr>fin := fin f, rsv1 := rsv1 f, rsv2 := rsv2 f, rsv3 := rsv3 f, opcode := opcode f, mask := m\<rparr>"
  have hdr: "header_frame ((h @ k @ p) ! 0) ((h @ k @ p) ! 1) = g"
    unfolding header_frame_def bits dl2 g_def b_def byte1_bits [OF wf] ..
  have m: "mask g = m" by (simp add: g_def)
  show ?thesis
  proof (cases m)
    case True
    have hk: "of_nat (length h) + 4 = (of_nat (length (h @ k)) :: u64)" using True key by (simp add: k_def)
    have "unat (of_nat (length h) + 4 :: u64) \<le> length (h @ k @ p)"
      unfolding hk using len'(2) by (simp add: unat_of_nat del: of_nat_add)
    then have room: "\<not> of_nat (length (h @ k @ p)) < (of_nat (length h) + 4 :: u64)"
      unfolding of_nat_less_word_iff [OF len'(1)] by simp
    have "take 4 (drop (unat (of_nat (length h) :: u64)) (h @ k @ p)) = key" using True key by (simp add: uh k_def)
    with decode_unfold(1) [OF two dl1 hdr _ room] m True
    have "decode (h @ k @ p) = decode_payload ((h @ k) @ p) (g\<lparr>maskingKey := key\<rparr>) (of_nat (length p)) (of_nat (length (h @ k)))"
      unfolding hk lp by simp
    then show ?thesis
      using decode_payload_encoded [OF len'(2), of "g\<lparr>maskingKey := key\<rparr>"] True
      unfolding enc by (simp add: decoded_as_def g_def WebSocketFrame_new_def p_def xor_mask_involution)
  next
    case False
    with decode_unfold(2) [OF two dl1 hdr] m
    have "decode (h @ k @ p) = decode_payload ((h @ k) @ p) g (of_nat (length p)) (of_nat (length (h @ k)))"
      unfolding lp by (simp add: k_def)
    then show ?thesis
      using decode_payload_encoded [OF len'(2), of g] False
      unfolding enc by (simp add: decoded_as_def g_def WebSocketFrame_new_def p_def)
  qed
qed

lemma length_computeAcceptKey: "length (computeAcceptKey SHA1 k) = 28"
  by (simp add: computeAcceptKey_def base64_group_def Let_def)

lemma decode_payload_positive:
  assumes "decode_payload data f pl hs = Ok g n" and "0 < hs" and "hs \<le> 14"
  shows "0 < unat n"
proof -
  have pl: "pl \<le> 2 ^ 63 - 1" and n: "n = hs + pl"
    using assms(1) by (auto simp: decode_payload_def vector_max_size_def Let_def split: if_splits)
  have "unat pl \<le> 2 ^ 63 - 1" "unat hs \<le> 14" "0 < unat hs"
    using pl assms(2,3) by (simp_all add: word_le_nat_alt word_less_nat_alt)
  then show ?thesis by (simp add: n unat_plus_small)
qed

lemma decode_positive: "decode data = Ok f n \<Longrightarrow> 0 < unat n"
  unfolding decode_def Let_def
  by (auto split: if_splits option.splits dest!: decode_length_header elim!: decode_payload_positive)

section \<open>Properties\<close>

abbreviation sample_frame :: ws_frame where
  "sample_frame \<equiv> WebSocketFrame_new\<lparr>opcode := WsBinary, payload := [1, 2, 3, 4, 5]\<rparr>"

lemma sample_frame_ok:
  "wf_header sample_frame" "length (encode sample_frame m [9, 8, 7, 6]) = (if m then 11 else 7)"
  by (simp_all add: wf_header_def WebSocketFrame_new_def ws_opcodes encode_def length_bytes_def Let_def)

text \<open>
  (C15) Round trip: decoding an encoded frame, masked or not, in front of any further bytes gives back the
  frame, with its mask flag and key as encoded, and consumes exactly the encoded bytes.
\<close>

theorem ws_decode_encode:
  assumes "wf_header f" and "length key = 4" and "length (encode f m key @ rest) < 2 ^ 63"
  shows "decode (encode f m key @ rest) = Ok (decoded_as f m key) (of_nat (length (encode f m key)))"
proof -
  have "length (encode f m key) < 2 ^ 63" "length (encode f m key @ rest) < 2 ^ 64" using assms(3) by simp_all
  then show ?thesis
    using decode_encode [OF assms(1,2)] decode_stable [of "encode f m key" rest] by simp
qed

theorem ws_decode_encode_witness:
  "decode (encode sample_frame True [9, 8, 7, 6] @ [42]) = Ok (decoded_as sample_frame True [9, 8, 7, 6]) 11"
  using ws_decode_encode [of sample_frame "[9, 8, 7, 6]" True "[42]"] by (simp add: sample_frame_ok)

text \<open>
  A strict prefix of an encoded frame is \<^verbatim>\<open>Incomplete\<close>: the decoder never answers early.
\<close>

theorem ws_prefix_incomplete:
  assumes "wf_header f" and "length key = 4" and "length (encode f m key) < 2 ^ 63" and "n < length (encode f m key)"
  shows "decode (take n (encode f m key)) = Incomplete"
proof (rule ccontr)
  let ?e = "encode f m key"
  assume nw: "decode (take n ?e) \<noteq> Incomplete"
  have "decode (take n ?e @ drop n ?e) = decode (take n ?e)"
    by (rule decode_stable [OF nw]) (use assms(3) in simp)
  then have "decode (take n ?e) = Ok (decoded_as f m key) (of_nat (length ?e))"
    using decode_encode [OF assms(1-3)] by simp
  from decode_bound [OF this] have "unat (of_nat (length ?e) :: u64) \<le> n" using assms(3,4) by simp
  then show False using assms(3,4) by (simp add: unat_of_nat)
qed

theorem ws_prefix_incomplete_witness: "decode (take 6 (encode sample_frame False [9, 8, 7, 6])) = Incomplete"
  using ws_prefix_incomplete [of sample_frame "[9, 8, 7, 6]" False 6] by (simp add: sample_frame_ok)

text \<open>
  The decoder can be fed incrementally: an answer other than \<^verbatim>\<open>Incomplete\<close> does not change when more
  bytes arrive, and it never consumes more than it was given.
\<close>

theorem ws_decode_incremental:
  assumes "decode data \<noteq> Incomplete" and "length (data @ ext) < 2 ^ 64"
  shows "decode (data @ ext) = decode data \<and> (\<forall>f n. decode data = Ok f n \<longrightarrow> unat n \<le> length data)"
proof -
  have "length data < 2 ^ 64" using assms(2) by simp
  then show ?thesis using decode_stable [OF assms] decode_bound by blast
qed

theorem ws_decode_incremental_witness:
  "decode ([0x81, 0x01, 0x61] @ [0x81]) = decode [0x81, 0x01, 0x61]"
proof -
  have "decode [0x81, 0x01, 0x61] \<noteq> Incomplete"
    by (simp add: decode_def decode_length_def decode_payload_def vector_max_size_def Let_def WebSocketFrame_new_def)
  from ws_decode_incremental [OF this, of "[0x81]"] show ?thesis by simp
qed

text \<open>
  The direct encoder of text and binary frames agrees with the frame encoder, so the shortcut that
  skips the copy into a frame changes nothing on the wire.
\<close>

theorem encodeRaw_equals_encode:
  "encodeRaw opc pl fn msk key = encode (WebSocketFrame_new\<lparr>fin := fn, opcode := opc, payload := pl\<rparr>) msk key"
  by (simp add: encodeRaw_def encode_def WebSocketFrame_new_def)

text \<open>
  A frame header that announces \<open>2^64 - 1\<close> payload bytes makes \<^verbatim>\<open>decode\<close> throw: the sum of the length
  check wraps around, the check passes with ten bytes of input, and \<^verbatim>\<open>resize\<close> raises
  \<^verbatim>\<open>std::length_error\<close>.
\<close>

theorem ws_length_overflow_throws:
  assumes "length rest < 2 ^ 32"
  shows "decode ([b, 0x7F, 0xFF, 0xFF, 0xFF, 0xFF, 0xFF, 0xFF, 0xFF, 0xFF] @ rest) = Throws"
proof -
  let ?d = "[b, 0x7F, 0xFF, 0xFF, 0xFF, 0xFF, 0xFF, 0xFF, 0xFF, 0xFF] @ rest"
  have len: "length ?d < 2 ^ 64" using assms by simp
  have big: "\<not> (of_nat (length ?d) :: u64) < 2" "\<not> (of_nat (length ?d) :: u64) < 10"
    unfolding of_nat_less_word_iff [OF len] by simp_all
  have dl: "decode_length ?d = Some (0xFFFFFFFFFFFFFFFF, 10)"
    using big(2) by (simp add: decode_length_def Let_def)
  define g where "g = header_frame (?d ! 0) (?d ! 1)"
  have "\<not> mask g" by (simp add: g_def header_frame_def)
  then have "decode ?d = decode_payload ?d g 0xFFFFFFFFFFFFFFFF 10"
    using decode_unfold(2) [OF big(1) dl] g_def by simp
  also have "\<dots> = Throws"
  proof -
    have "\<not> of_nat (length ?d) < (10 + 0xFFFFFFFFFFFFFFFF :: u64)"
      unfolding of_nat_less_word_iff [OF len] by simp
    then show ?thesis unfolding decode_payload_def by (subst if_not_P) (simp_all add: vector_max_size_def)
  qed
  finally show ?thesis .
qed

theorem ws_length_overflow_throws_witness:
  "decode ([0x82, 0x7F, 0xFF, 0xFF, 0xFF, 0xFF, 0xFF, 0xFF, 0xFF, 0xFF] @ []) = Throws"
  by (rule ws_length_overflow_throws) simp

end
