(* ===== verification/HttpReq.thy ===== *)
theory HttpReq
  imports CppString
begin

text \<open>
  \<^verbatim>\<open>src/http/HttpRequest.h\<close>: a parsed request and its accessors.  The unordered maps are finite maps;
  a map the source iterates over is given to the operation as the list of its entries in the order of
  the iteration.  Operations that change the request return it, with the \<^verbatim>\<open>bool\<close> of the source.
\<close>

section \<open>Requests\<close>

datatype HttpMethod = GET | POST | PUT | DELETE | HEAD | METHOD_UNKNOWN

datatype HttpVersion = HTTP_10 | HTTP_11 | VERSION_UNKNOWN

record http_request =
  req_method :: HttpMethod
  version :: HttpVersion
  path :: string
  query :: string
  headers :: "string \<rightharpoonup> string"
  params :: "string \<rightharpoonup> string"
  body :: string

definition HttpRequest_new :: http_request where
  "HttpRequest_new =
     \<lparr>req_method = METHOD_UNKNOWN, version = VERSION_UNKNOWN, path = [], query = [],
      headers = Map.empty, params = Map.empty, body = []\<rparr>"

definition stringToMethod :: "string \<Rightarrow> HttpMethod" where
  "stringToMethod s =
     (if s = ''GET'' then GET else if s = ''POST'' then POST else if s = ''PUT'' then PUT
      else if s = ''DELETE'' then DELETE else if s = ''HEAD'' then HEAD else METHOD_UNKNOWN)"

definition stringToVersion :: "string \<Rightarrow> HttpVersion" where
  "stringToVersion s =
     (if s = ''HTTP/1.0'' then HTTP_10 else if s = ''HTTP/1.1'' then HTTP_11 else VERSION_UNKNOWN)"

text \<open>
  \<^verbatim>\<open>parseQuery\<close>: the length \<^verbatim>\<open>amp - eq - 1\<close> is computed in \<^verbatim>\<open>size_t\<close> and wraps around when the
  ampersand comes before the equals sign.
\<close>

definition size_minus :: "nat \<Rightarrow> nat \<Rightarrow> nat" where
  "size_minus a b = (a + 2 ^ 64 - b) mod 2 ^ 64"

function parseQuery_loop :: "string \<Rightarrow> nat \<Rightarrow> (string \<rightharpoonup> string) \<Rightarrow> (string \<rightharpoonup> string)" where
  "parseQuery_loop q start ps =
     (if start < length q
      then case find_char (CHR ''='') q start of
             None \<Rightarrow> ps
           | Some eq \<Rightarrow>
               (let key = substr q start (eq - start) in
                case find_char (CHR ''&'') q start of
                  None \<Rightarrow> parseQuery_loop q (length q) (ps(key \<mapsto> substr_from q (eq + 1)))
                | Some amp \<Rightarrow>
                    parseQuery_loop q (amp + 1) (ps(key \<mapsto> substr q (eq + 1) (size_minus (size_minus amp eq) 1))))
      else ps)"
  by pat_completeness auto
termination
  by (relation "measure (\<lambda>(q, start, ps). length q - start)") (auto dest: find_char_bound)

declare parseQuery_loop.simps [simp del]

definition parseQuery :: "string \<Rightarrow> http_request \<Rightarrow> http_request" where
  "parseQuery q r = r\<lparr>params := parseQuery_loop q 0 (params r)\<rparr>"

text \<open>A failed parse keeps what it already assigned.\<close>

definition parseRequestLine :: "string \<Rightarrow> http_request \<Rightarrow> bool \<times> http_request" where
  "parseRequestLine line r =
     (case find_char SP line 0 of
        None \<Rightarrow> (False, r)
      | Some method_end \<Rightarrow>
          (let r1 = r\<lparr>req_method := stringToMethod (substr line 0 method_end)\<rparr>;
               path_start = method_end + 1 in
           case find_char SP line path_start of
             None \<Rightarrow> (False, r1)
           | Some path_end \<Rightarrow>
               (let full_path = substr line path_start (path_end - path_start);
                    r2 = (case find_char (CHR ''?'') full_path 0 of
                            Some query_pos \<Rightarrow>
                              (let q = substr_from full_path (query_pos + 1)
                               in parseQuery q (r1\<lparr>path := substr full_path 0 query_pos, query := q\<rparr>))
                          | None \<Rightarrow> r1\<lparr>path := full_path\<rparr>)
                in (True, r2\<lparr>version := stringToVersion (substr_from line (path_end + 1))\<rparr>))))"

definition parseHeader :: "string \<Rightarrow> http_request \<Rightarrow> bool \<times> http_request" where
  "parseHeader line r =
     (case find_char (CHR '':'') line 0 of
        None \<Rightarrow> (False, r)
      | Some colon \<Rightarrow>
          (let key = substr line 0 colon;
               value = trim_leading (substr_from line (colon + 1))
           in (True, r\<lparr>headers := (headers r)(tolower key \<mapsto> value)\<rparr>)))"

definition getHeader :: "string \<Rightarrow> http_request \<Rightarrow> string" where
  "getHeader key r = (case headers r (tolower key) of Some v \<Rightarrow> v | None \<Rightarrow> [])"

definition keepAlive :: "http_request \<Rightarrow> bool" where
  "keepAlive r =
     (if version r = HTTP_10 then getHeader ''connection'' r = ''keep-alive''
      else getHeader ''connection'' r \<noteq> ''close'')"

definition contentLength :: "http_request \<Rightarrow> nat" where
  "contentLength r =
     (let len = getHeader ''content-length'' r in
      if len = [] then 0 else case stoul len of Some n \<Rightarrow> n | None \<Rightarrow> 0)"

definition getParam :: "string \<Rightarrow> string \<Rightarrow> http_request \<Rightarrow> string" where
  "getParam key defaultVal r = (case params r key of Some v \<Rightarrow> v | None \<Rightarrow> defaultVal)"

section \<open>Cookies\<close>

definition cookie_pair :: "string \<Rightarrow> (string \<rightharpoonup> string) \<Rightarrow> (string \<rightharpoonup> string)" where
  "cookie_pair pair0 m =
     (let p = dropWhile (\<lambda>c. c = SP) pair0 in
      if p = [] then m
      else case find_char (CHR ''='') p 0 of
             None \<Rightarrow> m
           | Some eq \<Rightarrow> m(substr p 0 eq \<mapsto> substr_from p (eq + 1)))"

function cookies_loop :: "string \<Rightarrow> nat \<Rightarrow> (string \<rightharpoonup> string) \<Rightarrow> (string \<rightharpoonup> string)" where
  "cookies_loop h start m =
     (if start < length h
      then case find_char (CHR '';'') h start of
             None \<Rightarrow> cookies_loop h (length h) (cookie_pair (substr_from h start) m)
           | Some semi \<Rightarrow> cookies_loop h (semi + 1) (cookie_pair (substr h start (semi - start)) m)
      else m)"
  by pat_completeness auto
termination
  by (relation "measure (\<lambda>(h, start, m). length h - start)") (auto dest: find_char_bound)

declare cookies_loop.simps [simp del]

definition cookies :: "http_request \<Rightarrow> string \<rightharpoonup> string" where
  "cookies r =
     (let cookieHeader = getHeader ''cookie'' r in
      if cookieHeader = [] then Map.empty else cookies_loop cookieHeader 0 Map.empty)"

definition cookie :: "string \<Rightarrow> http_request \<Rightarrow> string" where
  "cookie name r = (case cookies r name of Some v \<Rightarrow> v | None \<Rightarrow> [])"

section \<open>Laws\<close>

lemma parseHeader_line:
  assumes "CHR '':'' \<notin> set k" and "v \<noteq> []" and "hd v \<noteq> SP"
  shows "parseHeader (k @ '': '' @ v) r = (True, r\<lparr>headers := (headers r)(tolower k \<mapsto> v)\<rparr>)"
  using assms by (simp add: parseHeader_def substr_def substr_from_def)

lemma parseRequestLine_line:
  assumes "SP \<notin> set m" and "SP \<notin> set p"
  shows "parseRequestLine (m @ '' '' @ p @ '' '' @ v) r =
    (True, (let r1 = r\<lparr>req_method := stringToMethod m\<rparr> in
      case index_of (CHR ''?'') p of
        Some i \<Rightarrow> parseQuery (drop (i + 1) p) (r1\<lparr>path := take i p, query := drop (i + 1) p\<rparr>)
      | None \<Rightarrow> r1\<lparr>path := p\<rparr>)\<lparr>version := stringToVersion v\<rparr>)"
proof -
  let ?l = "m @ '' '' @ p @ '' '' @ v"
  have 1: "find_char SP ?l 0 = Some (length m)" using assms(1) by simp
  have 2: "find_char SP ?l (length m + 1) = Some (length m + 1 + length p)"
    using assms(2) by (simp add: find_char_def)
  have 3: "substr ?l 0 (length m) = m" "substr ?l (length m + 1) (length m + 1 + length p - (length m + 1)) = p"
      "substr_from ?l (length m + 1 + length p + 1) = v"
    by (simp_all add: substr_def substr_from_def)
  show ?thesis
    unfolding parseRequestLine_def 1 2 option.case Let_def 3
    by (cases "index_of (CHR ''?'') p") (simp_all add: substr_def substr_from_def)
qed

text \<open>Header lookup ignores the case of the key, on both sides.\<close>

lemma getHeader_parseHeader:
  "CHR '':'' \<notin> set k \<Longrightarrow> v \<noteq> [] \<Longrightarrow> hd v \<noteq> SP \<Longrightarrow> tolower k' = tolower k \<Longrightarrow>
     getHeader k' (snd (parseHeader (k @ '': '' @ v) r)) = v"
  using parseHeader_line [of k v r] by (simp add: getHeader_def)

section \<open>Query strings and cookies that were printed\<close>

fun print_query :: "(string \<times> string) list \<Rightarrow> string" where
  "print_query [] = []"
| "print_query [(k, v)] = k @ ''='' @ v"
| "print_query ((k, v) # kvs) = k @ ''='' @ v @ ''&'' @ print_query kvs"

definition query_pair_ok :: "string \<times> string \<Rightarrow> bool" where
  "query_pair_ok kv \<longleftrightarrow> CHR ''='' \<notin> set (fst kv) \<and> CHR ''&'' \<notin> set (fst kv) \<and> CHR ''&'' \<notin> set (snd kv)"

fun put_pair :: "string \<times> string \<Rightarrow> (string \<rightharpoonup> string) \<Rightarrow> (string \<rightharpoonup> string)" where
  "put_pair (k, v) m = m(k \<mapsto> v)"

lemma size_minus_le: "b \<le> a \<Longrightarrow> a < 2 ^ 64 \<Longrightarrow> size_minus a b = a - b"
  by (simp add: size_minus_def mod_if)

lemma parseQuery_loop_end: "parseQuery_loop q (length q) m = m"
  by (simp add: parseQuery_loop.simps)

lemma parseQuery_loop_print:
  "list_all query_pair_ok kvs \<Longrightarrow> length (pre @ print_query kvs) < 2 ^ 64 \<Longrightarrow>
     parseQuery_loop (pre @ print_query kvs) (length pre) m = fold put_pair kvs m"
proof (induction kvs arbitrary: pre m rule: print_query.induct)
  case 1
  then show ?case by (simp add: parseQuery_loop_end)
next
  case (2 k v)
  let ?q = "pre @ k @ ''='' @ v"
  have ok: "CHR ''='' \<notin> set k" "CHR ''&'' \<notin> set k" "CHR ''&'' \<notin> set v" using 2 by (auto simp: query_pair_ok_def)
  have "find_char (CHR ''='') ?q (length pre) = Some (length pre + length k)"
      "find_char (CHR ''&'') ?q (length pre) = None"
    using ok by (simp_all add: find_char_def)
  then have "parseQuery_loop ?q (length pre) m = parseQuery_loop ?q (length ?q) (m(k \<mapsto> v))"
    by (subst parseQuery_loop.simps) (simp add: substr_def substr_from_def)
  then show ?case by (simp only: parseQuery_loop_end print_query.simps) simp
next
  case (3 k v kv kvs)
  let ?R = "print_query (kv # kvs)"
  let ?q = "pre @ k @ ''='' @ v @ ''&'' @ ?R" and ?pre = "pre @ k @ ''='' @ v @ ''&''"
  have ok: "CHR ''='' \<notin> set k" "CHR ''&'' \<notin> set k" "CHR ''&'' \<notin> set v" using 3 by (auto simp: query_pair_ok_def)
  have len: "length ?q < 2 ^ 64" using 3(3) by simp
  have eq: "find_char (CHR ''='') ?q (length pre) = Some (length pre + length k)"
    and amp: "find_char (CHR ''&'') ?q (length pre) = Some (length pre + length k + 1 + length v)"
    using ok by (simp_all add: find_char_def)
  have "size_minus (length pre + length k + 1 + length v) (length pre + length k) = 1 + length v"
    using len by (subst size_minus_le) simp_all
  moreover have "size_minus (1 + length v) 1 = length v" using len by (subst size_minus_le) simp_all
  ultimately have val: "substr ?q (length pre + length k + 1)
      (size_minus (size_minus (length pre + length k + 1 + length v) (length pre + length k)) 1) = v"
    by (simp add: substr_def)
  have key: "substr ?q (length pre) (length pre + length k - length pre) = k" by (simp add: substr_def)
  have "parseQuery_loop ?q (length pre) m = parseQuery_loop ?q (length ?pre) (m(k \<mapsto> v))"
    by (subst parseQuery_loop.simps) (simp only: eq amp option.case Let_def val key, simp add: add.assoc)
  also have "\<dots> = parseQuery_loop (?pre @ ?R) (length ?pre) (m(k \<mapsto> v))" by simp
  also have "\<dots> = fold put_pair (kv # kvs) (m(k \<mapsto> v))"
    using 3(1) [of ?pre] 3(2) len by simp
  finally show ?case by simp
qed

section \<open>Properties\<close>

text \<open>
  Query strings round trip: parsing the printed form of any list of pairs, with keys free of
  \<^verbatim>\<open>=\<close> and \<^verbatim>\<open>&\<close> and values free of \<^verbatim>\<open>&\<close>, binds exactly these pairs in order.
\<close>

theorem parseQuery_print:
  assumes "list_all query_pair_ok kvs" and "length (print_query kvs) < 2 ^ 64"
  shows "params (parseQuery (print_query kvs) r) = fold put_pair kvs (params r)"
  using parseQuery_loop_print [of kvs "[]"] assms by (simp add: parseQuery_def)

theorem parseQuery_print_witness:
  "params (parseQuery ''name=Alice&age=20'' HttpRequest_new) ''age'' = Some ''20''"
  using parseQuery_print [of "[(''name'', ''Alice''), (''age'', ''20'')]" HttpRequest_new]
  by (simp add: query_pair_ok_def)

text \<open>
  A parameter without a value corrupts the next one: for a query that begins with a bare name and
  an ampersand, the first key stored contains the ampersand.
\<close>

theorem parseQuery_bare_name:
  assumes "CHR ''='' \<notin> set a" and "CHR ''='' \<notin> set b" and "CHR ''&'' \<notin> set a" and "CHR ''&'' \<notin> set b"
    and "CHR ''&'' \<notin> set v" and "length (a @ ''&'' @ b @ ''='' @ v) < 2 ^ 63"
  shows "params (parseQuery (a @ ''&'' @ b @ ''='' @ v) r) (a @ ''&'' @ b) \<noteq> None"
proof -
  let ?q = "a @ ''&'' @ b @ ''='' @ v"
  have "find_char (CHR ''='') ?q 0 = Some (length a + 1 + length b)" "find_char (CHR ''&'') ?q 0 = Some (length a)"
    using assms by simp_all
  then have "parseQuery_loop ?q 0 m = parseQuery_loop ?q (length a + 1)
      (m(a @ ''&'' @ b \<mapsto> substr ?q (length a + 1 + length b + 1) (size_minus (size_minus (length a) (length a + 1 + length b)) 1)))" for m
    by (subst parseQuery_loop.simps) (simp only: option.case Let_def, simp add: substr_def)
  moreover have "find_char (CHR ''='') ?q (length a + 1) = Some (length a + 1 + length b)"
      "find_char (CHR ''&'') ?q (length a + 1) = None"
    using assms by (simp_all add: find_char_def)
  then have "parseQuery_loop ?q (length a + 1) m = m(b \<mapsto> v)" for m
    by (subst parseQuery_loop.simps)
      (simp only: option.case Let_def parseQuery_loop_end, simp add: substr_def substr_from_def)
  ultimately show ?thesis by (simp add: parseQuery_def)
qed

theorem parseQuery_bare_name_witness: "params (parseQuery ''a&b=1'' HttpRequest_new) ''a&b'' \<noteq> None"
  using parseQuery_bare_name [of "''a''" "''b''" "''1''" HttpRequest_new] by simp

end
