(* ===== verification/HttpResp.thy ===== *)
theory HttpResp
  imports CppString
begin

text \<open>
  \<^verbatim>\<open>src/http/HttpResponse.h\<close>: building and serialising a response.  The serialisers iterate over the
  unordered map of headers; they take the entries in the order of that iteration as an argument.  The
  theory relates the two serialisers and shows that the chunked body can be decoded again.
\<close>

section \<open>Responses\<close>

datatype HttpStatusCode = OK | CREATED | NO_CONTENT | MOVED_PERMANENTLY | FOUND | NOT_MODIFIED | BAD_REQUEST
  | UNAUTHORIZED | FORBIDDEN | NOT_FOUND | METHOD_NOT_ALLOWED | REQUEST_TIMEOUT | PAYLOAD_TOO_LARGE
  | TOO_MANY_REQUESTS | INTERNAL_SERVER_ERROR | BAD_GATEWAY | SERVICE_UNAVAILABLE | GATEWAY_TIMEOUT

fun status_value :: "HttpStatusCode \<Rightarrow> nat" where
  "status_value OK = 200"
| "status_value CREATED = 201"
| "status_value NO_CONTENT = 204"
| "status_value MOVED_PERMANENTLY = 301"
| "status_value FOUND = 302"
| "status_value NOT_MODIFIED = 304"
| "status_value BAD_REQUEST = 400"
| "status_value UNAUTHORIZED = 401"
| "status_value FORBIDDEN = 403"
| "status_value NOT_FOUND = 404"
| "status_value METHOD_NOT_ALLOWED = 405"
| "status_value REQUEST_TIMEOUT = 408"
| "status_value PAYLOAD_TOO_LARGE = 413"
| "status_value TOO_MANY_REQUESTS = 429"
| "status_value INTERNAL_SERVER_ERROR = 500"
| "status_value BAD_GATEWAY = 502"
| "status_value SERVICE_UNAVAILABLE = 503"
| "status_value GATEWAY_TIMEOUT = 504"

fun status_text :: "HttpStatusCode \<Rightarrow> string" where
  "status_text OK = ''OK''"
| "status_text CREATED = ''Created''"
| "status_text NO_CONTENT = ''No Content''"
| "status_text MOVED_PERMANENTLY = ''Moved Permanently''"
| "status_text FOUND = ''Found''"
| "status_text NOT_MODIFIED = ''Not Modified''"
| "status_text BAD_REQUEST = ''Bad Request''"
| "status_text UNAUTHORIZED = ''Unauthorized''"
| "status_text FORBIDDEN = ''Forbidden''"
| "status_text NOT_FOUND = ''Not Found''"
| "status_text METHOD_NOT_ALLOWED = ''Method Not Allowed''"
| "status_text REQUEST_TIMEOUT = ''Request Timeout''"
| "status_text PAYLOAD_TOO_LARGE = ''Payload Too Large''"
| "status_text TOO_MANY_REQUESTS = ''Too Many Requests''"
| "status_text INTERNAL_SERVER_ERROR = ''Internal Server Error''"
| "status_text BAD_GATEWAY = ''Bad Gateway''"
| "status_text SERVICE_UNAVAILABLE = ''Service Unavailable''"
| "status_text GATEWAY_TIMEOUT = ''Gateway Timeout''"

record http_response =
  statusCode :: HttpStatusCode
  statusMessage :: string
  resp_headers :: "string \<rightharpoonup> string"
  resp_body :: string
  closeConnection :: bool
  chunked :: bool
  chunks :: "string list"
  bodyFileFd :: int
  bodyFileSize :: nat
  deferred :: bool

definition HttpResponse_new :: http_response where
  "HttpResponse_new =
     \<lparr>statusCode = OK, statusMessage = ''OK'', resp_headers = Map.empty, resp_body = [], closeConnection = False,
      chunked = False, chunks = [], bodyFileFd = -1, bodyFileSize = 0, deferred = False\<rparr>"

definition setStatusCode :: "HttpStatusCode \<Rightarrow> http_response \<Rightarrow> http_response" where
  "setStatusCode code r = r\<lparr>statusCode := code, statusMessage := status_text code\<rparr>"

definition setHeader :: "string \<Rightarrow> string \<Rightarrow> http_response \<Rightarrow> http_response" where
  "setHeader key value r = r\<lparr>resp_headers := (resp_headers r)(key \<mapsto> value)\<rparr>"

definition setContentType :: "string \<Rightarrow> http_response \<Rightarrow> http_response" where
  "setContentType type r = r\<lparr>resp_headers := (resp_headers r)(''Content-Type'' \<mapsto> type)\<rparr>"

definition setContentLength :: "nat \<Rightarrow> http_response \<Rightarrow> http_response" where
  "setContentLength len r = r\<lparr>resp_headers := (resp_headers r)(''Content-Length'' \<mapsto> to_string len)\<rparr>"

definition setBody :: "string \<Rightarrow> http_response \<Rightarrow> http_response" where
  "setBody b r = setContentLength (length b) (r\<lparr>resp_body := b\<rparr>)"

definition setFileBody :: "int \<Rightarrow> nat \<Rightarrow> http_response \<Rightarrow> http_response" where
  "setFileBody fd sz r =
     setContentLength sz (r\<lparr>bodyFileFd := fd, bodyFileSize := sz, resp_body := []\<rparr>)"

definition hasFileBody :: "http_response \<Rightarrow> bool" where
  "hasFileBody r \<longleftrightarrow> bodyFileFd r \<ge> 0"

definition setJson :: "string \<Rightarrow> http_response \<Rightarrow> http_response" where
  "setJson json r = setBody json (setContentType ''application/json'' r)"

definition setHtml :: "string \<Rightarrow> http_response \<Rightarrow> http_response" where
  "setHtml html r = setBody html (setContentType ''text/html; charset=utf-8'' r)"

definition setText :: "string \<Rightarrow> http_response \<Rightarrow> http_response" where
  "setText text r = setBody text (setContentType ''text/plain; charset=utf-8'' r)"

definition setChunked :: "bool \<Rightarrow> http_response \<Rightarrow> http_response" where
  "setChunked enabled r = r\<lparr>chunked := enabled\<rparr>"

definition addChunk :: "string \<Rightarrow> http_response \<Rightarrow> http_response" where
  "addChunk data r = r\<lparr>chunks := chunks r @ [data]\<rparr>"

definition canSendIov :: "http_response \<Rightarrow> bool" where
  "canSendIov r \<longleftrightarrow> \<not> chunked r"

definition ok_response :: "string \<Rightarrow> http_response" where
  "ok_response b =
     (let resp = setStatusCode OK HttpResponse_new in if b \<noteq> [] then setBody b resp else resp)"

definition json_response :: "string \<Rightarrow> http_response" where
  "json_response json = setJson json (setStatusCode OK HttpResponse_new)"

definition notFound :: "string \<Rightarrow> http_response" where
  "notFound msg = setText msg (setStatusCode NOT_FOUND HttpResponse_new)"

definition badRequest :: "string \<Rightarrow> http_response" where
  "badRequest msg = setText msg (setStatusCode BAD_REQUEST HttpResponse_new)"

definition serverError :: "string \<Rightarrow> http_response" where
  "serverError msg = setText msg (setStatusCode INTERNAL_SERVER_ERROR HttpResponse_new)"

definition redirect :: "string \<Rightarrow> HttpStatusCode \<Rightarrow> http_response" where
  "redirect url code = setBody [] (setHeader ''Location'' url (setStatusCode code HttpResponse_new))"

definition setCors :: "string \<Rightarrow> http_response \<Rightarrow> http_response" where
  "setCors origin r = r\<lparr>resp_headers := (resp_headers r)
     (''Access-Control-Allow-Origin'' \<mapsto> origin,
      ''Access-Control-Allow-Methods'' \<mapsto> ''GET, POST, PUT, DELETE, OPTIONS'',
      ''Access-Control-Allow-Headers'' \<mapsto> ''Content-Type, Authorization'',
      ''Access-Control-Max-Age'' \<mapsto> ''86400'')\<rparr>"

definition setCookie :: "string \<Rightarrow> string \<Rightarrow> int \<Rightarrow> string \<Rightarrow> bool \<Rightarrow> bool \<Rightarrow> http_response \<Rightarrow> http_response" where
  "setCookie name value maxAge cpath httpOnly secure r =
     (let cookie = name @ ''='' @ value @ ''; Path='' @ cpath @
            (if maxAge \<ge> 0 then ''; Max-Age='' @ to_string (nat maxAge) else []) @
            (if httpOnly then ''; HttpOnly'' else []) @
            (if secure then ''; Secure'' else [])
      in r\<lparr>resp_headers := (resp_headers r)(''Set-Cookie'' \<mapsto> cookie)\<rparr>)"

section \<open>Serialisation\<close>

text \<open>\<^verbatim>\<open>%zx\<close>.\<close>

definition hex_char :: "nat \<Rightarrow> char" where
  "hex_char d = char_of (if d < 10 then 48 + d else 87 + d)"

fun to_hex :: "nat \<Rightarrow> string" where
  "to_hex n = (if n < 16 then [hex_char n] else to_hex (n div 16) @ [hex_char (n mod 16)])"

declare to_hex.simps [simp del]

definition header_line :: "bool \<Rightarrow> string \<times> string \<Rightarrow> string" where
  "header_line chk kv =
     (case kv of (key, value) \<Rightarrow>
        if chk \<and> key = ''Content-Length'' then [] else key @ '': '' @ value @ CRLF)"

definition chunk_text :: "string \<Rightarrow> string" where
  "chunk_text c = (if c = [] then ''0'' @ CRLF @ CRLF else to_hex (length c) @ CRLF @ c @ CRLF)"

definition toString :: "(string \<times> string) list \<Rightarrow> http_response \<Rightarrow> string" where
  "toString hs r =
     ''HTTP/1.1 '' @ to_string (status_value (statusCode r)) @ '' '' @ statusMessage r @ CRLF @
     concat (map (header_line (chunked r)) hs) @
     (if chunked r then ''Transfer-Encoding: chunked'' @ CRLF else []) @
     ''Connection: '' @ (if closeConnection r then ''close'' else ''keep-alive'') @ CRLF @
     ''Server: mymuduo-http/1.0'' @ CRLF @
     CRLF @
     (if chunked r \<and> chunks r \<noteq> [] then concat (map chunk_text (chunks r)) else resp_body r)"

definition toHeader :: "(string \<times> string) list \<Rightarrow> http_response \<Rightarrow> string" where
  "toHeader hs r =
     ''HTTP/1.1 '' @ to_string (status_value (statusCode r)) @ '' '' @ statusMessage r @ CRLF @
     concat (map (header_line (chunked r)) hs) @
     (if chunked r then ''Transfer-Encoding: chunked'' @ CRLF else []) @
     ''Connection: '' @ (if closeConnection r then ''close'' else ''keep-alive'') @ CRLF @
     ''Server: mymuduo-http/1.0'' @ CRLF @
     CRLF"

text \<open>The entries of an unordered map, in some order.\<close>

definition enumerates :: "('k \<times> 'v) list \<Rightarrow> ('k \<rightharpoonup> 'v) \<Rightarrow> bool" where
  "enumerates hs m \<longleftrightarrow> distinct (map fst hs) \<and> map_of hs = m"

section \<open>Chunked bodies\<close>

text \<open>A decoder for the chunked coding of RFC 7230 (without extensions and trailers): the body and what follows it.\<close>

definition hex_val :: "char \<Rightarrow> nat" where
  "hex_val c = (let n = of_char c in if n < 58 then n - 48 else n - 87)"

definition hex_value :: "string \<Rightarrow> nat" where
  "hex_value ds = foldl (\<lambda>acc c. 16 * acc + hex_val c) 0 ds"

function dechunk :: "string \<Rightarrow> (string \<times> string) option" where
  "dechunk s =
     (case index_sub CRLF s of
        None \<Rightarrow> None
      | Some i \<Rightarrow>
          (let n = hex_value (take i s); s1 = drop (i + 2) s in
           if n = 0 then if starts_with CRLF s1 then Some ([], drop 2 s1) else None
           else if length s1 < n + 2 \<or> \<not> starts_with CRLF (drop n s1) then None
           else map_option (\<lambda>(b, r). (take n s1 @ b, r)) (dechunk (drop (n + 2) s1))))"
  by pat_completeness auto
termination
  by (relation "measure length") (auto dest: index_sub_bound)

declare dechunk.simps [simp del]

lemma of_char_hex_char: "d < 16 \<Longrightarrow> of_char (hex_char d) = (if d < 10 then 48 + d else 87 + d)"
  by (simp add: hex_char_def)

lemma hex_val_hex_char [simp]: "d < 16 \<Longrightarrow> hex_val (hex_char d) = d"
  by (simp add: hex_val_def of_char_hex_char Let_def)

lemma hex_char_not_CR: "d < 16 \<Longrightarrow> hex_char d \<noteq> CR"
proof
  assume "d < 16" "hex_char d = CR"
  then have "of_char (hex_char d) = (13 :: nat)" by simp
  with \<open>d < 16\<close> show False by (simp add: of_char_hex_char split: if_splits)
qed

lemma hex_value_to_hex [simp]: "hex_value (to_hex n) = n"
proof (induction n rule: to_hex.induct)
  case (1 n)
  then show ?case
    by (cases "n < 16"; subst to_hex.simps) (simp_all add: hex_value_def)
qed

lemma to_hex_no_CR [simp]: "CR \<notin> set (to_hex n)"
proof (induction n rule: to_hex.induct)
  case (1 n)
  then show ?case
    using hex_char_not_CR [of "n mod 16"] hex_char_not_CR [of n]
    by (cases "n < 16"; subst to_hex.simps) auto
qed

lemma dechunk_chunk:
  assumes "c \<noteq> []"
  shows "dechunk (chunk_text c @ s) = map_option (\<lambda>(b, r). (c @ b, r)) (dechunk s)"
proof -
  let ?s = "to_hex (length c) @ CRLF @ c @ CRLF @ s"
  have i: "index_sub CRLF ?s = Some (length (to_hex (length c)))" by simp
  have t: "take (length (to_hex (length c))) ?s = to_hex (length c)" "drop (length (to_hex (length c)) + 2) ?s = c @ CRLF @ s"
    by simp_all
  have "dechunk ?s = map_option (\<lambda>(b, r). (c @ b, r)) (dechunk s)"
    by (subst dechunk.simps) (simp only: i t option.case Let_def hex_value_to_hex, use assms in simp)
  then show ?thesis using assms by (simp add: chunk_text_def)
qed

lemma dechunk_end: "dechunk (chunk_text [] @ s) = Some ([], s)"
  by (subst dechunk.simps) (simp add: chunk_text_def hex_value_def hex_val_def)

section \<open>Properties\<close>

text \<open>
  The two serialisers agree: for a response that is not chunked, \<^verbatim>\<open>toString\<close> is \<^verbatim>\<open>toHeader\<close> followed
  by the body, so sending header and body as two slices puts the same bytes on the wire.
\<close>

theorem toString_header_body:
  assumes "canSendIov r"
  shows "toString hs r = toHeader hs r @ resp_body r"
  using assms by (simp add: canSendIov_def toString_def toHeader_def)

theorem toString_header_body_witness:
  "toString [(''Content-Length'', ''2'')] (setBody ''hi'' HttpResponse_new) =
   toHeader [(''Content-Length'', ''2'')] (setBody ''hi'' HttpResponse_new) @ ''hi''"
  using toString_header_body [of "setBody ''hi'' HttpResponse_new" "[(''Content-Length'', ''2'')]"]
  by (simp add: canSendIov_def setBody_def setContentLength_def HttpResponse_new_def)

text \<open>
  A chunked body can be decoded: for non-empty chunks closed by the empty one, a decoder of the
  chunked coding recovers the concatenation of the chunks and leaves what follows.
\<close>

theorem chunked_body_decodes:
  assumes "list_all (\<lambda>c. c \<noteq> []) cs"
  shows "dechunk (concat (map chunk_text (cs @ [[]])) @ rest) = Some (concat cs, rest)"
  using assms
proof (induction cs)
  case Nil
  then show ?case using dechunk_end [of rest] by simp
next
  case (Cons c cs)
  then show ?case using dechunk_chunk [of c "concat (map chunk_text (cs @ [[]])) @ rest"] by simp
qed

theorem chunked_body_decodes_witness:
  "dechunk (concat (map chunk_text [''Hello'', '' '', ''World'', []]) @ ''X'') = Some (''Hello World'', ''X'')"
  using chunked_body_decodes [of "[''Hello'', '' '', ''World'']" "''X''"] by simp

end
