(* ===== verification/HttpParse.thy ===== *)
theory HttpParse
  imports HttpReq NetBuffer
begin

text \<open>
  The request parser of \<^verbatim>\<open>src/http/HttpCore.h\<close>, in its two versions: from the input buffer of a
  connection (HTTP) and from the string of decrypted bytes (HTTPS).  \<^verbatim>\<open>GzipCodec::decompress\<close> is a
  wrapper of zlib and is the parameter \<open>gunzip\<close>.  The theory shows that the two versions agree, that an
  incomplete request consumes nothing, and what the parser does on clean requests.
\<close>

section \<open>The parser\<close>

definition kMaxBodySize :: nat where "kMaxBodySize = 10 * 1024 * 1024"
definition kMaxRequestLine :: nat where "kMaxRequestLine = 8192"

datatype ParseResult = Complete | ParseIncomplete | ParseError

definition header_step :: "string \<Rightarrow> http_request \<Rightarrow> http_request" where
  "header_step line r = (if line \<noteq> [] then snd (parseHeader line r) else r)"

definition HttpCore_parseHeader :: "string \<Rightarrow> http_request \<Rightarrow> bool \<times> http_request" where
  "HttpCore_parseHeader header r =
     (case find_str CRLF header 0 of
        None \<Rightarrow> if length header > kMaxRequestLine then (False, r) else parseRequestLine header r
      | Some lineEnd \<Rightarrow>
          (let requestLine = substr header 0 lineEnd in
           if length requestLine > kMaxRequestLine then (False, r)
           else let (ok, r1) = parseRequestLine requestLine r in
             if \<not> ok then (False, r1)
             else (True, lines_loop header_step header (lineEnd + 2) r1)))"

definition maybeDecompressRequestBody :: "(string \<Rightarrow> string) \<Rightarrow> http_request \<Rightarrow> http_request" where
  "maybeDecompressRequestBody gunzip r =
     (if body r = [] then r
      else if \<not> contains ''gzip'' (getHeader ''content-encoding'' r) then r
      else let decompressed = gunzip (body r) in
        if decompressed \<noteq> [] then r\<lparr>body := decompressed\<rparr> else r)"

definition parseRequest_buffer ::
  "(string \<Rightarrow> string) \<Rightarrow> buffer \<Rightarrow> http_request \<Rightarrow> ParseResult \<times> buffer \<times> http_request" where
  "parseRequest_buffer gunzip buf r =
     (let len = readableBytes buf;
          data = take len (peek buf) in
      case index_sub (CRLF @ CRLF) data of
        None \<Rightarrow> if len > kMaxRequestLine then (ParseError, buf, r) else (ParseIncomplete, buf, r)
      | Some headerEnd \<Rightarrow>
          (let headerLen = headerEnd + 4;
               header = take (headerLen - 4) data;
               (ok, r1) = HttpCore_parseHeader header r in
           if \<not> ok then (ParseError, buf, r1)
           else let contentLen = contentLength r1 in
             if contentLen > kMaxBodySize then (ParseError, buf, r1)
             else let totalLen = headerLen + contentLen in
               if len < totalLen then (ParseIncomplete, buf, r1)
               else
                 (let buf1 = retrieve buf headerLen;
                      (buf2, r2) =
                        (if contentLen > 0
                         then (retrieve buf1 contentLen, r1\<lparr>body := take contentLen (peek buf1)\<rparr>)
                         else (buf1, r1))
                  in (Complete, buf2, maybeDecompressRequestBody gunzip r2))))"

definition parseRequest_string ::
  "(string \<Rightarrow> string) \<Rightarrow> string \<Rightarrow> http_request \<Rightarrow> ParseResult \<times> string \<times> http_request" where
  "parseRequest_string gunzip data r =
     (case find_str (CRLF @ CRLF) data 0 of
        None \<Rightarrow> if length data > kMaxRequestLine then (ParseError, data, r) else (ParseIncomplete, data, r)
      | Some headerEnd \<Rightarrow>
          (let headerLen = headerEnd + 4;
               header = substr data 0 headerEnd;
               (ok, r1) = HttpCore_parseHeader header r in
           if \<not> ok then (ParseError, data, r1)
           else let contentLen = contentLength r1 in
             if contentLen > kMaxBodySize then (ParseError, data, r1)
             else let totalLen = headerLen + contentLen in
               if length data < totalLen then (ParseIncomplete, data, r1)
               else
                 (let r2 = (if contentLen > 0 then r1\<lparr>body := substr data headerLen contentLen\<rparr> else r1)
                  in (Complete, drop totalLen data, maybeDecompressRequestBody gunzip r2))))"

section \<open>Both versions agree\<close>

lemma peek_prefix: "Buffer_inv b \<Longrightarrow> n \<le> readableBytes b \<Longrightarrow> take n (peek b) = take n (contents b)"
  by (simp add: contents_eq_peek min_def)

lemma readable_retrieve: "Buffer_inv b \<Longrightarrow> readableBytes (retrieve b n) = readableBytes b - n"
  using length_contents [of "retrieve b n"] length_contents [of b] by (simp add: Buffer_inv_retrieve)

lemma parse_buffer_string:
  assumes "Buffer_inv buf"
  shows "(case parseRequest_buffer gunzip buf r of (res, buf', r') \<Rightarrow> (res, contents buf', r') ) =
     parseRequest_string gunzip (contents buf) r"
    and "Buffer_inv (fst (snd (parseRequest_buffer gunzip buf r)))"
proof -
  have len: "readableBytes buf = length (contents buf)" using assms by simp
  have data: "take (readableBytes buf) (peek buf) = contents buf" by (simp add: contents_eq_peek)
  have body: "take n (peek (retrieve buf h)) = substr (contents buf) h n" if "h + n \<le> length (contents buf)" for h n
    using that assms by (subst peek_prefix) (simp_all add: Buffer_inv_retrieve readable_retrieve substr_def)
  show "(case parseRequest_buffer gunzip buf r of (res, buf', r') \<Rightarrow> (res, contents buf', r') ) =
     parseRequest_string gunzip (contents buf) r"
  proof (cases "index_sub (CRLF @ CRLF) (contents buf)")
    case None
    then show ?thesis
      unfolding parseRequest_buffer_def parseRequest_string_def data Let_def find_str_0 None option.case
      by (simp only: len split: if_split) simp
  next
    case (Some i)
    obtain ok r1 where h: "HttpCore_parseHeader (take i (contents buf)) r = (ok, r1)" by (meson surj_pair)
    let ?n = "contentLength r1" and ?c = "contents buf"
    have dd: "contents (retrieve (retrieve buf (i + 4)) ?n) = drop (i + 4 + ?n) ?c"
        "contents (retrieve buf (i + 4)) = drop (i + 4) ?c"
      using assms by (simp_all add: Buffer_inv_retrieve add.commute)
    have str: "parseRequest_string gunzip ?c r =
        (if \<not> ok then (ParseError, ?c, r1) else if ?n > kMaxBodySize then (ParseError, ?c, r1)
         else if length ?c < i + 4 + ?n then (ParseIncomplete, ?c, r1)
         else (Complete, drop (i + 4 + ?n) ?c,
           maybeDecompressRequestBody gunzip (if ?n > 0 then r1\<lparr>body := substr ?c (i + 4) ?n\<rparr> else r1)))"
      unfolding parseRequest_string_def find_str_0 Some option.case Let_def substr_def drop_0 h by simp
    have buf: "parseRequest_buffer gunzip buf r =
        (if \<not> ok then (ParseError, buf, r1) else if ?n > kMaxBodySize then (ParseError, buf, r1)
         else if length ?c < i + 4 + ?n then (ParseIncomplete, buf, r1)
         else if ?n > 0 then (Complete, retrieve (retrieve buf (i + 4)) ?n,
           maybeDecompressRequestBody gunzip (r1\<lparr>body := take ?n (peek (retrieve buf (i + 4)))\<rparr>))
         else (Complete, retrieve buf (i + 4), maybeDecompressRequestBody gunzip r1))"
      unfolding parseRequest_buffer_def data Let_def Some option.case add_diff_cancel_right' h unfolding len by simp
    show ?thesis
      unfolding str buf using body [of "i + 4" ?n] dd by simp
  qed
  show "Buffer_inv (fst (snd (parseRequest_buffer gunzip buf r)))"
    using assms
    by (simp add: parseRequest_buffer_def Let_def split_beta Buffer_inv_retrieve split: option.split)
qed

section \<open>Clean requests\<close>

lemma HttpCore_parseHeader_clean:
  assumes "list_all line_ok (l # ls)" and "length l \<le> kMaxRequestLine" and "parseRequestLine l r = (True, r1)"
  shows "HttpCore_parseHeader (join_lines (l # ls)) r = (True, fold header_step ls r1)"
proof (cases ls)
  case Nil
  then show ?thesis using assms by (simp add: HttpCore_parseHeader_def line_ok_def)
next
  case (Cons m ms)
  have l: "CR \<notin> set l" "list_all line_ok ls" using assms(1) by (simp_all add: line_ok_def)
  have j: "join_lines (l # ls) = (l @ CRLF) @ join_lines ls" using Cons by simp
  have f: "find_str CRLF (join_lines (l # ls)) 0 = Some (length l)" using l(1) by (simp add: j)
  have s: "substr (join_lines (l # ls)) 0 (length l) = l" by (simp add: j substr_def)
  have "lines_loop header_step (join_lines (l # ls)) (length l + 2) r1 =
      lines_loop header_step ((l @ CRLF) @ join_lines ls) (length (l @ CRLF) + 0) r1"
    by (simp add: j)
  also have "\<dots> = fold header_step ls r1"
    unfolding lines_loop_shift by (rule lines_loop_join [OF l(2)])
  finally have loop: "lines_loop header_step (join_lines (l # ls)) (length l + 2) r1 = fold header_step ls r1" .
  show ?thesis
    unfolding HttpCore_parseHeader_def f option.case Let_def s assms(3) using assms(2) loop by simp
qed

text \<open>The bytes of a request with the given lines and body.\<close>

definition request_text :: "string list \<Rightarrow> string \<Rightarrow> string" where
  "request_text ls b = join_lines ls @ CRLF @ CRLF @ b"

definition clean_request :: "string \<Rightarrow> string list \<Rightarrow> string \<Rightarrow> http_request \<Rightarrow> http_request \<Rightarrow> bool" where
  "clean_request l ls b r r1 \<longleftrightarrow> list_all line_ok (l # ls) \<and> length l \<le> kMaxRequestLine \<and>
     parseRequestLine l r = (True, r1) \<and> contentLength (fold header_step ls r1) = length b \<and> length b \<le> kMaxBodySize"

lemma parseRequest_header:
  assumes "index_sub (CRLF @ CRLF) data = Some i" and "HttpCore_parseHeader (take i data) r = (True, r2)"
    and "contentLength r2 \<le> kMaxBodySize"
  shows "parseRequest_string gunzip data r =
    (if length data < i + 4 + contentLength r2 then (ParseIncomplete, data, r2)
     else (Complete, drop (i + 4 + contentLength r2) data,
       maybeDecompressRequestBody gunzip
         (if contentLength r2 > 0 then r2\<lparr>body := substr data (i + 4) (contentLength r2)\<rparr> else r2)))"
  using assms(3)
  unfolding parseRequest_string_def find_str_0 assms(1) option.case Let_def substr_def drop_0 assms(2) by simp

lemma clean_request_found:
  assumes "clean_request l ls b r r1"
  shows "index_sub (CRLF @ CRLF) (request_text (l # ls) b @ rest) = Some (length (join_lines (l # ls)))"
  using blank_line_found [of "l # ls" "b @ rest"] assms by (simp add: clean_request_def request_text_def)

lemma parse_clean_request:
  assumes "clean_request l ls b r r1"
  shows "parseRequest_string gunzip (request_text (l # ls) b @ rest) r =
    (Complete, rest, maybeDecompressRequestBody gunzip
       (let r2 = fold header_step ls r1 in if b \<noteq> [] then r2\<lparr>body := b\<rparr> else r2))"
proof -
  let ?h = "join_lines (l # ls)" and ?d = "request_text (l # ls) b @ rest"
  have c: "list_all line_ok (l # ls)" "length l \<le> kMaxRequestLine" "parseRequestLine l r = (True, r1)"
      "contentLength (fold header_step ls r1) = length b" "length b \<le> kMaxBodySize"
    using assms by (simp_all add: clean_request_def)
  have d: "?d = ?h @ CRLF @ CRLF @ b @ rest" by (simp add: request_text_def)
  have t: "take (length ?h) ?d = ?h" "drop (length ?h + 4 + length b) ?d = rest"
      "substr ?d (length ?h + 4) (length b) = b" "\<not> length ?d < length ?h + 4 + length b"
    unfolding d by (simp_all add: substr_def eval_nat_numeral)
  have "HttpCore_parseHeader (take (length ?h) ?d) r = (True, fold header_step ls r1)"
    unfolding t by (rule HttpCore_parseHeader_clean [OF c(1-3)])
  from parseRequest_header [OF clean_request_found [OF assms] this] show ?thesis
    using c(5) t(2-4) unfolding c(4) by (simp add: Let_def)
qed

lemma parse_prefix_incomplete:
  assumes "clean_request l ls b r r1" and "length (join_lines (l # ls)) + 4 \<le> kMaxRequestLine"
    and "n < length (request_text (l # ls) b)"
  shows "\<exists>r'. parseRequest_string gunzip (take n (request_text (l # ls) b)) r =
    (ParseIncomplete, take n (request_text (l # ls) b), r')"
proof -
  let ?h = "join_lines (l # ls)" and ?d = "request_text (l # ls) b"
  let ?p = "take n ?d"
  have found: "index_sub (CRLF @ CRLF) (?p @ drop n ?d) = Some (length ?h)"
    using clean_request_found [OF assms(1), of "[]"] by simp
  have dl: "length ?d = length ?h + 4 + length b" by (simp add: request_text_def)
  show ?thesis
  proof (cases "index_sub (CRLF @ CRLF) ?p")
    case None
    have "n < length ?h + 4"
    proof (rule ccontr)
      assume "\<not> n < length ?h + 4"
      then obtain k where "n = length ?h + 4 + k" by (metis le_add_diff_inverse not_less)
      then have "?p = ?h @ (CRLF @ CRLF) @ take k b" by (simp add: request_text_def eval_nat_numeral)
      moreover have "index_sub (CRLF @ CRLF) (?h @ (CRLF @ CRLF) @ take k b) = Some (length ?h)"
        using blank_line_found [of "l # ls"] assms(1) by (simp add: clean_request_def)
      ultimately show False using None by simp
    qed
    then have "length ?p \<le> kMaxRequestLine" using assms(2) by simp
    then show ?thesis unfolding parseRequest_string_def find_str_0 None option.case by (auto simp: min_def split: if_splits)
  next
    case (Some i)
    have i: "i = length ?h" using index_sub_prefix [OF Some, of "drop n ?d"] found by simp
    have "i \<le> n" using index_sub_bound [OF Some] by simp
    then have h: "take i ?p = ?h" using i by (simp add: min_def) (simp add: request_text_def)
    have c: "contentLength (fold header_step ls r1) = length b" "length b \<le> kMaxBodySize"
      using assms(1) by (simp_all add: clean_request_def)
    have "HttpCore_parseHeader (take i ?p) r = (True, fold header_step ls r1)"
      unfolding h using assms(1) by (intro HttpCore_parseHeader_clean) (simp_all add: clean_request_def)
    from parseRequest_header [OF Some this] show ?thesis
      using c assms(3) dl i by simp
  qed
qed

lemma parse_consumes:
  assumes "parseRequest_buffer gunzip buf r = (Complete, buf1, req)" and "readableBytes buf \<noteq> 0"
  shows "readableBytes buf1 < readableBytes buf"
proof -
  obtain i where "buf1 = retrieve buf (i + 4) \<or> (\<exists>n. buf1 = retrieve (retrieve buf (i + 4)) n)"
    using assms(1) by (auto simp: parseRequest_buffer_def Let_def split: option.splits prod.splits if_splits)
  moreover have "readableBytes (retrieve buf (i + 4)) < readableBytes buf" using assms(2) by (intro retrieve_less) auto
  ultimately show ?thesis by (metis le_less_trans retrieve_le)
qed

section \<open>Properties\<close>

text \<open>
  (C9) The two parsers agree: on a well-formed buffer, the version that works on the buffer gives the
  same result, the same request and leaves the same bytes as the version that works on a string, and it
  keeps the buffer well-formed.
\<close>

theorem parse_buffer_equals_string:
  assumes "Buffer_inv buf"
  shows "let (res, buf', r') = parseRequest_buffer gunzip buf r in
    parseRequest_string gunzip (contents buf) r = (res, contents buf', r') \<and> Buffer_inv buf'"
  using parse_buffer_string [OF assms, of gunzip r] by (simp add: split_beta)

theorem parse_buffer_equals_string_witness:
  "let buf = Buffer_append (Buffer_new 64) ''GET / HTTP/1.1''; (res, buf', r') = parseRequest_buffer (\<lambda>s. s) buf HttpRequest_new in
    parseRequest_string (\<lambda>s. s) (contents buf) HttpRequest_new = (res, contents buf', r') \<and> Buffer_inv buf'"
  using parse_buffer_equals_string [of "Buffer_append (Buffer_new 64) ''GET / HTTP/1.1''" "\<lambda>s. s" HttpRequest_new]
  by (simp add: Buffer_inv_append Buffer_new_inv)

end
