(* ===== verification/HttpClientModel.thy ===== *)
theory HttpClientModel
  imports HttpParse HttpResp
begin

text \<open>
  \<^verbatim>\<open>src/http/HttpClient.h\<close>: the client that sends requests over one connection and matches the
  responses to the waiting promises in order.  Promises are numbered; a fulfilled promise is recorded
  with its value.  The loop of \<^verbatim>\<open>onMessage\<close> is a partial function, because it does not always end.  The
  theory closes the circle with the server: what the client prints the server parses, and what the
  server prints the client parses.
\<close>

section \<open>State\<close>

record client_response =
  cr_statusCode :: int
  cr_statusMessage :: string
  cr_headers :: "string \<rightharpoonup> string"
  cr_body :: string
  cr_success :: bool
  cr_error :: string

definition HttpClientResponse_new :: client_response where
  "HttpClientResponse_new =
     \<lparr>cr_statusCode = 0, cr_statusMessage = [], cr_headers = Map.empty, cr_body = [], cr_success = False, cr_error = []\<rparr>"

record http_client =
  client_host :: string
  connected :: bool
  pendingQueue :: "nat list"
  recvBuffer :: string
  nextPromise :: nat
  fulfilled :: "(nat \<times> client_response) list"
  client_sent :: "string list"

section \<open>Requests\<close>

definition buildRequest ::
  "string \<Rightarrow> (string \<times> string) list \<Rightarrow> string \<Rightarrow> string \<Rightarrow> string \<Rightarrow> string \<Rightarrow> string" where
  "buildRequest host hdrs meth pth bdy contentType =
     meth @ '' '' @ pth @ '' HTTP/1.1'' @ CRLF @
     ''Host: '' @ host @ CRLF @
     ''Connection: keep-alive'' @ CRLF @
     (if bdy \<noteq> [] then
        (if contentType \<noteq> [] then ''Content-Type: '' @ contentType @ CRLF else []) @
        ''Content-Length: '' @ to_string (length bdy) @ CRLF
      else []) @
     concat (map (\<lambda>(key, value). key @ '': '' @ value @ CRLF) hdrs) @
     CRLF @
     bdy"

definition pop_fulfil :: "client_response \<Rightarrow> http_client \<Rightarrow> http_client" where
  "pop_fulfil resp c =
     (case pendingQueue c of
        [] \<Rightarrow> c
      | p # ps \<Rightarrow> c\<lparr>pendingQueue := ps, fulfilled := fulfilled c @ [(p, resp)]\<rparr>)"

text \<open>
  \<^verbatim>\<open>asyncRequest\<close>: the promise is queued first; \<open>conn\<close> tells whether a connection is there after the wait of
  up to three seconds.  The result is the number of the promise behind the returned future.
\<close>

definition asyncRequest ::
  "bool \<Rightarrow> (string \<times> string) list \<Rightarrow> string \<Rightarrow> string \<Rightarrow> string \<Rightarrow> string \<Rightarrow> http_client \<Rightarrow> nat \<times> http_client" where
  "asyncRequest conn hdrs meth pth bdy contentType c =
     (let httpReq = buildRequest (client_host c) hdrs meth pth bdy contentType;
          p = nextPromise c;
          c1 = c\<lparr>pendingQueue := pendingQueue c @ [p], nextPromise := p + 1\<rparr>
      in (p, if conn then c1\<lparr>client_sent := client_sent c1 @ [httpReq]\<rparr>
             else pop_fulfil (HttpClientResponse_new\<lparr>cr_error := ''not connected''\<rparr>) c1))"

definition client_onConnection :: "bool \<Rightarrow> http_client \<Rightarrow> http_client" where
  "client_onConnection up c =
     (if up then c\<lparr>connected := True\<rparr>
      else c\<lparr>connected := False, recvBuffer := [], pendingQueue := [],
             fulfilled := fulfilled c @
               map (\<lambda>p. (p, HttpClientResponse_new\<lparr>cr_error := ''connection closed''\<rparr>)) (pendingQueue c)\<rparr>)"

section \<open>Responses\<close>

text \<open>\<^verbatim>\<open>std::stoi\<close>: \<open>None\<close> when it throws.\<close>

definition stoi :: "string \<Rightarrow> int option" where
  "stoi s =
     (let (neg, u) = strip_sign (dropWhile is_space s);
          ds = takeWhile is_digit u;
          v = (if neg then - int (digits_value ds) else int (digits_value ds))
      in if ds = [] then None else if v < - (2 ^ 31) \<or> v > 2 ^ 31 - 1 then None else Some v)"

definition parseStatusLine :: "string \<Rightarrow> client_response \<Rightarrow> bool \<times> client_response" where
  "parseStatusLine line resp =
     (case find_char SP line 0 of
        None \<Rightarrow> (False, resp)
      | Some firstSpace \<Rightarrow>
          (case find_char SP line (firstSpace + 1) of
             None \<Rightarrow>
               (case stoi (substr_from line (firstSpace + 1)) of
                  None \<Rightarrow> (False, resp)
                | Some code \<Rightarrow> (True, resp\<lparr>cr_statusCode := code\<rparr>))
           | Some secondSpace \<Rightarrow>
               (case stoi (substr line (firstSpace + 1) (secondSpace - firstSpace - 1)) of
                  None \<Rightarrow> (False, resp)
                | Some code \<Rightarrow>
                    (True, resp\<lparr>cr_statusCode := code, cr_statusMessage := substr_from line (secondSpace + 1)\<rparr>))))"

definition client_header_step :: "string \<Rightarrow> client_response \<Rightarrow> client_response" where
  "client_header_step line resp =
     (if line \<noteq> [] then
        case find_char (CHR '':'') line 0 of
          None \<Rightarrow> resp
        | Some colon \<Rightarrow>
            resp\<lparr>cr_headers := (cr_headers resp)
              (tolower (substr line 0 colon) \<mapsto> trim_leading (substr_from line (colon + 1)))\<rparr>
      else resp)"

definition parseHeaders :: "string \<Rightarrow> client_response \<Rightarrow> client_response" where
  "parseHeaders headerBlock resp = lines_loop client_header_step headerBlock 0 resp"

definition response_length :: "client_response \<Rightarrow> nat" where
  "response_length resp =
     (case cr_headers resp ''content-length'' of
        None \<Rightarrow> 0
      | Some v \<Rightarrow> (case stoul v of Some n \<Rightarrow> n | None \<Rightarrow> 0))"

text \<open>One turn of the loop of \<^verbatim>\<open>onMessage\<close>: \<open>None\<close> when it waits for more data.  The sum \<^verbatim>\<open>totalLen\<close> is a \<^verbatim>\<open>size_t\<close>.\<close>

definition onMessage_turn :: "http_client \<Rightarrow> http_client option" where
  "onMessage_turn c =
     (case find_str (CRLF @ CRLF) (recvBuffer c) 0 of
        None \<Rightarrow> None
      | Some headerEnd \<Rightarrow>
          (let headerLen = headerEnd + 4;
               headerSection = substr (recvBuffer c) 0 headerEnd;
               firstLineEnd = find_str CRLF headerSection 0;
               statusLine = (case firstLineEnd of None \<Rightarrow> headerSection | Some e \<Rightarrow> substr headerSection 0 e);
               (ok, resp) = parseStatusLine statusLine HttpClientResponse_new in
           if \<not> ok
           then let c1 = pop_fulfil (resp\<lparr>cr_error := ''malformed HTTP status line: '' @ statusLine\<rparr>) c
                in Some (c1\<lparr>recvBuffer := drop headerLen (recvBuffer c1)\<rparr>)
           else
             (let resp1 = (case firstLineEnd of None \<Rightarrow> resp
                           | Some e \<Rightarrow> parseHeaders (substr_from headerSection (e + 2)) resp);
                  contentLength = response_length resp1;
                  totalLen = (headerLen + contentLength) mod 2 ^ 64 in
              if length (recvBuffer c) < totalLen then None
              else
                (let resp2 = (if contentLength > 0
                              then resp1\<lparr>cr_body := substr (recvBuffer c) headerLen contentLength\<rparr> else resp1);
                     c1 = c\<lparr>recvBuffer := drop totalLen (recvBuffer c)\<rparr>
                 in Some (pop_fulfil (resp2\<lparr>cr_success := True\<rparr>) c1)))))"

partial_function (option) onMessage_loop :: "http_client \<Rightarrow> http_client option" where
  "onMessage_loop c = (case onMessage_turn c of None \<Rightarrow> Some c | Some c' \<Rightarrow> onMessage_loop c')"

definition client_onMessage :: "string \<Rightarrow> http_client \<Rightarrow> http_client option" where
  "client_onMessage data c = onMessage_loop (c\<lparr>recvBuffer := recvBuffer c @ data\<rparr>)"

section \<open>The server parses what the client prints\<close>

lemma fold_header_step:
  "list_all field_ok kvs \<Longrightarrow>
     fold header_step (map field_line kvs) r = r\<lparr>headers := fold put_field kvs (headers r)\<rparr>"
proof (induction kvs arbitrary: r)
  case (Cons kv kvs)
  obtain k v where kv: "kv = (k, v)" by (cases kv)
  then have "header_step (field_line kv) r = r\<lparr>headers := put_field kv (headers r)\<rparr>"
    using Cons.prems parseHeader_line [of k v r] by (simp add: header_step_def field_line_def field_ok_def)
  with Cons show ?case by simp
qed simp

definition client_fields :: "string \<Rightarrow> (string \<times> string) list \<Rightarrow> string \<Rightarrow> string \<Rightarrow> (string \<times> string) list" where
  "client_fields host hdrs bdy contentType =
     [(''Host'', host), (''Connection'', ''keep-alive'')] @
     (if bdy \<noteq> [] then
        (if contentType \<noteq> [] then [(''Content-Type'', contentType)] else []) @
        [(''Content-Length'', to_string (length bdy))]
      else []) @ hdrs"

definition request_line :: "string \<Rightarrow> string \<Rightarrow> string" where
  "request_line meth pth = meth @ '' '' @ pth @ '' '' @ ''HTTP/1.1''"

lemma buildRequest_text:
  "buildRequest host hdrs meth pth bdy ct =
     request_text (request_line meth pth # map field_line (client_fields host hdrs bdy ct)) bdy"
proof -
  let ?ls = "request_line meth pth # map field_line (client_fields host hdrs bdy ct)"
  have "concat (map (\<lambda>(key, value). key @ '': '' @ value @ CRLF) hs) = concat (map (\<lambda>l. l @ CRLF) (map field_line hs))" for hs
    by (induction hs) (auto simp: field_line_def)
  then have "buildRequest host hdrs meth pth bdy ct = concat (map (\<lambda>l. l @ CRLF) ?ls) @ CRLF @ bdy"
    by (simp add: buildRequest_def client_fields_def request_line_def field_line_def)
  then show ?thesis using concat_lines [of ?ls] by (simp add: request_text_def)
qed

text \<open>The arguments for which printing and parsing are inverse.\<close>

definition clean_call :: "string \<Rightarrow> (string \<times> string) list \<Rightarrow> string \<Rightarrow> string \<Rightarrow> string \<Rightarrow> string \<Rightarrow> bool" where
  "clean_call host hdrs meth pth bdy ct \<longleftrightarrow>
     SP \<notin> set meth \<and> CR \<notin> set meth \<and> SP \<notin> set pth \<and> CR \<notin> set pth \<and>
     list_all field_ok (client_fields host hdrs bdy ct) \<and>
     list_all (\<lambda>kv. tolower (fst kv) \<noteq> ''content-length'' \<and> tolower (fst kv) \<noteq> ''content-encoding'') hdrs \<and>
     length (request_line meth pth) \<le> kMaxRequestLine \<and> length bdy \<le> kMaxBodySize"

lemma tolower_fields:
  "tolower ''Host'' = ''host''" "tolower ''Connection'' = ''connection''"
  "tolower ''Content-Type'' = ''content-type''" "tolower ''Content-Length'' = ''content-length''"
  "tolower ''content-length'' = ''content-length''" "tolower ''content-encoding'' = ''content-encoding''"
  by code_simp+

lemma client_fields_length:
  assumes "clean_call host hdrs meth pth bdy ct"
  defines "m \<equiv> fold put_field (client_fields host hdrs bdy ct) Map.empty"
  shows "m ''content-length'' = (if bdy \<noteq> [] then Some (to_string (length bdy)) else None)"
    and "m ''content-encoding'' = None"
proof -
  have "\<forall>kv \<in> set hdrs. tolower (fst kv) \<noteq> ''content-length'' \<and> tolower (fst kv) \<noteq> ''content-encoding''"
    using assms(1) by (simp add: clean_call_def list_all_iff)
  then show "m ''content-length'' = (if bdy \<noteq> [] then Some (to_string (length bdy)) else None)"
    and "m ''content-encoding'' = None"
    unfolding m_def client_fields_def by (simp_all add: put_fields_other tolower_fields)
qed

text \<open>A request with any clean fields, of which \<^verbatim>\<open>Content-Length\<close> tells the length of the body.\<close>

definition clean_fields :: "string \<Rightarrow> string \<Rightarrow> (string \<times> string) list \<Rightarrow> string \<Rightarrow> bool" where
  "clean_fields meth pth fs bdy \<longleftrightarrow>
     SP \<notin> set meth \<and> CR \<notin> set meth \<and> SP \<notin> set pth \<and> CR \<notin> set pth \<and> list_all field_ok fs \<and>
     (let m = fold put_field fs Map.empty in
      (m ''content-length'' = Some (to_string (length bdy)) \<or> m ''content-length'' = None \<and> bdy = []) \<and> m ''content-encoding'' = None) \<and>
     length (request_line meth pth) \<le> kMaxRequestLine \<and> length bdy \<le> kMaxBodySize"

lemma clean_fields_request:
  assumes "clean_fields meth pth fs bdy"
  defines "r1 \<equiv> snd (parseRequestLine (request_line meth pth) HttpRequest_new)"
  shows "clean_request (request_line meth pth) (map field_line fs) bdy HttpRequest_new r1"
    and "req_method r1 = stringToMethod meth" "version r1 = HTTP_11" "headers r1 = Map.empty" "body r1 = []"
    and "path r1 = takeWhile (\<lambda>c. c \<noteq> CHR ''?'') pth"
proof -
  note c = assms(1) [unfolded clean_fields_def Let_def]
  have sp: "SP \<notin> set meth" "SP \<notin> set pth" using c by simp_all
  note pl = parseRequestLine_line [OF sp, of "''HTTP/1.1''" HttpRequest_new]
  have p: "parseRequestLine (request_line meth pth) HttpRequest_new = (True, r1)"
    unfolding r1_def request_line_def pl by simp
  have r1: "req_method r1 = stringToMethod meth \<and> version r1 = HTTP_11 \<and> headers r1 = Map.empty \<and> body r1 = [] \<and>
      path r1 = takeWhile (\<lambda>c. c \<noteq> CHR ''?'') pth"
  proof (cases "index_of (CHR ''?'') pth")
    case None
    then show ?thesis
      unfolding r1_def request_line_def pl by (simp add: HttpRequest_new_def stringToVersion_def takeWhile_absent)
  next
    case (Some i)
    then show ?thesis
      unfolding r1_def request_line_def pl
      by (simp add: Some parseQuery_def HttpRequest_new_def stringToVersion_def index_of_takeWhile Let_def)
  qed
  then show "req_method r1 = stringToMethod meth" "version r1 = HTTP_11" "headers r1 = Map.empty" "body r1 = []"
      "path r1 = takeWhile (\<lambda>c. c \<noteq> CHR ''?'') pth" by simp_all
  have ok: "list_all field_ok fs" using c by simp
  have "headers (fold header_step (map field_line fs) r1) = fold put_field fs Map.empty"
    using r1 by (simp add: fold_header_step [OF ok])
  then have "contentLength (fold header_step (map field_line fs) r1) = length bdy"
    using c stoul_to_string [of "length bdy"] by (auto simp: contentLength_def getHeader_def tolower_fields kMaxBodySize_def Let_def)
  moreover have "line_ok (request_line meth pth)" using c by (auto simp: line_ok_def request_line_def)
  ultimately show "clean_request (request_line meth pth) (map field_line fs) bdy HttpRequest_new r1"
    using c p fields_lines_ok [OF ok] by (simp add: clean_request_def)
qed

text \<open>The request the server makes of it.\<close>

definition fields_call :: "string \<Rightarrow> string \<Rightarrow> (string \<times> string) list \<Rightarrow> string \<Rightarrow> http_request" where
  "fields_call meth pth fs bdy =
     (snd (parseRequestLine (request_line meth pth) HttpRequest_new))\<lparr>headers := fold put_field fs Map.empty, body := bdy\<rparr>"

lemma parse_fields_string:
  assumes "clean_fields meth pth fs bdy"
  shows "parseRequest_string gunzip (request_text (request_line meth pth # map field_line fs) bdy @ rest) HttpRequest_new =
    (Complete, rest, fields_call meth pth fs bdy)"
proof -
  define r1 where "r1 = snd (parseRequestLine (request_line meth pth) HttpRequest_new)"
  note r1 = clean_fields_request [OF assms(1), folded r1_def]
  have "list_all field_ok fs" using assms(1) by (simp add: clean_fields_def)
  note h = fold_header_step [OF this, of r1, unfolded r1(4)]
  have enc: "maybeDecompressRequestBody gunzip r = r" if "headers r = fold put_field fs Map.empty" for r
    using that assms(1) by (simp add: maybeDecompressRequestBody_def getHeader_def tolower_fields contains_def clean_fields_def Let_def)
  have eq: "(let r2 = fold header_step (map field_line fs) r1 in if bdy \<noteq> [] then r2\<lparr>body := bdy\<rparr> else r2) =
      r1\<lparr>headers := fold put_field fs Map.empty, body := bdy\<rparr>"
    unfolding h using r1(5) by (cases r1) (auto simp: Let_def)
  show ?thesis
    unfolding parse_clean_request [OF r1(1)] eq fields_call_def r1_def [symmetric]
    by (subst enc) simp_all
qed

lemma fields_call_values:
  assumes "clean_fields meth pth fs bdy"
  shows "req_method (fields_call meth pth fs bdy) = stringToMethod meth" "path (fields_call meth pth fs bdy) = takeWhile (\<lambda>c. c \<noteq> CHR ''?'') pth"
    "version (fields_call meth pth fs bdy) = HTTP_11" "headers (fields_call meth pth fs bdy) = fold put_field fs Map.empty"
    "body (fields_call meth pth fs bdy) = bdy"
  using clean_fields_request [OF assms(1)] by (simp_all add: fields_call_def)

lemma clean_call_fields: "clean_call host hdrs meth pth bdy ct \<Longrightarrow> clean_fields meth pth (client_fields host hdrs bdy ct) bdy"
  using client_fields_length [of host hdrs meth pth bdy ct] by (simp add: clean_fields_def clean_call_def)

text \<open>The request the server makes of a call.\<close>

definition parsed_call :: "string \<Rightarrow> (string \<times> string) list \<Rightarrow> string \<Rightarrow> string \<Rightarrow> string \<Rightarrow> string \<Rightarrow> http_request" where
  "parsed_call host hdrs meth pth bdy ct = fields_call meth pth (client_fields host hdrs bdy ct) bdy"

lemma parse_built_string:
  assumes "clean_call host hdrs meth pth bdy ct"
  shows "parseRequest_string gunzip (buildRequest host hdrs meth pth bdy ct @ rest) HttpRequest_new =
    (Complete, rest, parsed_call host hdrs meth pth bdy ct)"
  unfolding buildRequest_text parse_fields_string [OF clean_call_fields [OF assms]] parsed_call_def ..

lemma parse_built_buffer:
  assumes "clean_call host hdrs meth pth bdy ct" and "Buffer_inv buf"
    and "contents buf = buildRequest host hdrs meth pth bdy ct @ rest"
  obtains buf' where "parseRequest_buffer gunzip buf HttpRequest_new = (Complete, buf', parsed_call host hdrs meth pth bdy ct)"
    and "contents buf' = rest" and "Buffer_inv buf'"
proof -
  obtain res buf' r where p: "parseRequest_buffer gunzip buf HttpRequest_new = (res, buf', r)"
    by (cases "parseRequest_buffer gunzip buf HttpRequest_new")
  from parse_buffer_string [OF assms(2), of gunzip HttpRequest_new] parse_built_string [OF assms(1), of gunzip rest]
  show ?thesis using that p by (simp add: assms(3))
qed

lemma parsed_call_fields:
  assumes "clean_call host hdrs meth pth bdy ct"
  defines "r \<equiv> parsed_call host hdrs meth pth bdy ct"
  shows "req_method r = stringToMethod meth" "path r = takeWhile (\<lambda>c. c \<noteq> CHR ''?'') pth" "version r = HTTP_11"
    "headers r = fold put_field (client_fields host hdrs bdy ct) Map.empty" "body r = bdy"
  using fields_call_values [OF clean_call_fields [OF assms(1)]] by (simp_all add: r_def parsed_call_def)

text \<open>
  The server reads what the client writes: when the bytes of a request printed by the client stand at
  the front of the input buffer, the server's parser completes, consumes exactly these bytes and
  returns the method, the path up to the query, the header fields (keyed in lower case) and the body.
\<close>

theorem client_request_parses:
  assumes "clean_call host hdrs meth pth bdy ct" and "Buffer_inv buf"
    and "contents buf = buildRequest host hdrs meth pth bdy ct @ rest"
  shows "let (res, buf', r) = parseRequest_buffer gunzip buf HttpRequest_new in
    res = Complete \<and> contents buf' = rest \<and> Buffer_inv buf' \<and>
    req_method r = stringToMethod meth \<and> path r = takeWhile (\<lambda>c. c \<noteq> CHR ''?'') pth \<and> version r = HTTP_11 \<and>
    headers r = fold put_field (client_fields host hdrs bdy ct) Map.empty \<and> body r = bdy"
proof -
  obtain buf' where p: "parseRequest_buffer gunzip buf HttpRequest_new = (Complete, buf', parsed_call host hdrs meth pth bdy ct)"
    and "contents buf' = rest" "Buffer_inv buf'"
    using parse_built_buffer [OF assms] by blast
  then show ?thesis using parsed_call_fields [OF assms(1)] by (simp add: p)
qed

theorem client_request_parses_witness:
  "let (res, buf', r) = parseRequest_buffer (\<lambda>s. [])
         (Buffer_append (Buffer_new 16) (buildRequest ''a:80'' [(''X-Id'', ''7'')] ''POST'' ''/x?y=1'' ''hi'' ''text/plain'' @ ''GET'')) HttpRequest_new in
    res = Complete \<and> contents buf' = ''GET'' \<and> Buffer_inv buf' \<and> req_method r = POST \<and> path r = ''/x'' \<and> version r = HTTP_11 \<and>
    headers r = [''host'' \<mapsto> ''a:80'', ''connection'' \<mapsto> ''keep-alive'', ''content-type'' \<mapsto> ''text/plain'',
      ''content-length'' \<mapsto> ''2'', ''x-id'' \<mapsto> ''7''] \<and> body r = ''hi''"
proof -
  have c: "clean_call ''a:80'' [(''X-Id'', ''7'')] ''POST'' ''/x?y=1'' ''hi'' ''text/plain''"
    by (simp add: clean_call_def client_fields_def field_ok_def request_line_def kMaxRequestLine_def kMaxBodySize_def
      to_string.simps) code_simp
  have f: "fold put_field (client_fields ''a:80'' [(''X-Id'', ''7'')] ''hi'' ''text/plain'') Map.empty =
      [''host'' \<mapsto> ''a:80'', ''connection'' \<mapsto> ''keep-alive'', ''content-type'' \<mapsto> ''text/plain'',
      ''content-length'' \<mapsto> ''2'', ''x-id'' \<mapsto> ''7'']"
  proof -
    have "tolower ''X-Id'' = ''x-id''" "to_string (Suc (Suc 0)) = ''2''" by code_simp+
    then show ?thesis by (simp add: client_fields_def tolower_fields)
  qed
  have m: "stringToMethod ''POST'' = POST" by code_simp
  show ?thesis
    using client_request_parses [OF c, of "Buffer_append (Buffer_new 16) (buildRequest ''a:80'' [(''X-Id'', ''7'')] ''POST'' ''/x?y=1'' ''hi'' ''text/plain'' @ ''GET'')" "''GET''" "\<lambda>s. []"]
    by (simp add: Buffer_inv_append Buffer_new_inv f m)
qed

section \<open>The client parses what the server prints\<close>

lemma fold_client_header_step:
  "list_all field_ok kvs \<Longrightarrow>
     fold client_header_step (map field_line kvs) r = r\<lparr>cr_headers := fold put_field kvs (cr_headers r)\<rparr>"
proof (induction kvs arbitrary: r)
  case (Cons kv kvs)
  obtain k v where kv: "kv = (k, v)" by (cases kv)
  then have "client_header_step (field_line kv) r = r\<lparr>cr_headers := put_field kv (cr_headers r)\<rparr>"
    using Cons.prems
    by (simp add: client_header_step_def field_line_def field_ok_def substr_def substr_from_def)
  with Cons show ?case by simp
qed simp

text \<open>A turn of the loop on a header section of clean lines.\<close>

lemma onMessage_turn_lines:
  assumes "list_all line_ok (l # ls)" and "parseStatusLine l HttpClientResponse_new = (True, r0)"
    and "recvBuffer c = join_lines (l # ls) @ CRLF @ CRLF @ d"
  defines "resp \<equiv> fold client_header_step ls r0"
  defines "tot \<equiv> (length (join_lines (l # ls)) + 4 + response_length resp) mod 2 ^ 64"
  shows "onMessage_turn c =
    (if length (recvBuffer c) < tot then None
     else Some (pop_fulfil
       ((if response_length resp > 0 then resp\<lparr>cr_body := take (response_length resp) d\<rparr> else resp)\<lparr>cr_success := True\<rparr>)
       (c\<lparr>recvBuffer := drop tot (recvBuffer c)\<rparr>)))"
proof -
  let ?h = "join_lines (l # ls)"
  have f: "find_str (CRLF @ CRLF) (recvBuffer c) 0 = Some (length ?h)"
    using blank_line_found [OF _ assms(1), of d] by (simp add: assms(3))
  have s: "substr (recvBuffer c) 0 (length ?h) = ?h" "substr (recvBuffer c) (length ?h + 4) n = take n d" for n
    unfolding assms(3) by (simp_all add: substr_def eval_nat_numeral)
  have l: "CR \<notin> set l" "list_all line_ok ls" using assms(1) by (simp_all add: line_ok_def)
  have lines: "(case find_str CRLF ?h 0 of None \<Rightarrow> ?h | Some e \<Rightarrow> substr ?h 0 e) = l"
      "(case find_str CRLF ?h 0 of None \<Rightarrow> r0 | Some e \<Rightarrow> parseHeaders (substr_from ?h (e + 2)) r0) = resp"
    using l lines_loop_join [OF l(2), of client_header_step r0]
    by (cases ls; simp add: substr_def substr_from_def parseHeaders_def resp_def)+
  show ?thesis
    unfolding onMessage_turn_def f option.case Let_def s lines(1) assms(2) prod.case lines(2) tot_def by simp
qed

definition response_fields :: "(string \<times> string) list \<Rightarrow> http_response \<Rightarrow> (string \<times> string) list" where
  "response_fields hs r =
     hs @ [(''Connection'', if closeConnection r then ''close'' else ''keep-alive''), (''Server'', ''mymuduo-http/1.0'')]"

definition response_line :: "http_response \<Rightarrow> string" where
  "response_line r = ''HTTP/1.1'' @ '' '' @ to_string (status_value (statusCode r)) @ '' '' @ statusMessage r"

lemma toString_lines:
  assumes "\<not> chunked r"
  shows "toString hs r = join_lines (response_line r # map field_line (response_fields hs r)) @ CRLF @ CRLF @ resp_body r"
proof -
  let ?ls = "response_line r # map field_line (response_fields hs r)"
  have "concat (map (header_line False) hs) = concat (map (\<lambda>l. l @ CRLF) (map field_line hs))"
    by (induction hs) (auto simp: field_line_def header_line_def)
  then have "toString hs r = concat (map (\<lambda>l. l @ CRLF) ?ls) @ CRLF @ resp_body r"
    using assms by (simp add: toString_def response_fields_def response_line_def field_line_def)
  then show ?thesis using concat_lines [of ?ls] by simp
qed

text \<open>The responses that carry their length, and what the client makes of one.\<close>

definition framed :: "(string \<times> string) list \<times> http_response \<Rightarrow> bool" where
  "framed hr = (case hr of (hs, r) \<Rightarrow>
     \<not> chunked r \<and> CR \<notin> set (statusMessage r) \<and> list_all field_ok hs \<and>
     list_all (\<lambda>(k, v). tolower k = ''content-length'' \<longrightarrow> v = to_string (length (resp_body r))) hs \<and>
     (resp_body r \<noteq> [] \<longrightarrow> ''content-length'' \<in> set (map (tolower \<circ> fst) hs)) \<and>
     length (toString hs r) < 2 ^ 64)"

definition client_view :: "(string \<times> string) list \<times> http_response \<Rightarrow> client_response" where
  "client_view hr = (case hr of (hs, r) \<Rightarrow>
     \<lparr>cr_statusCode = int (status_value (statusCode r)), cr_statusMessage = statusMessage r,
      cr_headers = fold put_field (response_fields hs r) Map.empty, cr_body = resp_body r, cr_success = True, cr_error = []\<rparr>)"

lemma stoi_to_string: "n < 2 ^ 31 \<Longrightarrow> stoi (to_string n) = Some (int n)"
  by (simp add: stoi_def)

lemma parseStatusLine_line:
  assumes "n < 2 ^ 31" and "SP \<notin> set v"
  shows "parseStatusLine (v @ '' '' @ to_string n @ '' '' @ m) resp =
    (True, resp\<lparr>cr_statusCode := int n, cr_statusMessage := m\<rparr>)"
proof -
  let ?l = "v @ '' '' @ to_string n @ '' '' @ m" and ?e = "length v + 1 + length (to_string n)"
  have f: "find_char SP ?l 0 = Some (length v)" "find_char SP ?l (length v + 1) = Some ?e"
    using assms(2) by (simp_all add: find_char_def)
  have s: "substr ?l (length v + 1) (?e - length v - 1) = to_string n" "substr_from ?l (?e + 1) = m"
    by (simp_all add: substr_def substr_from_def)
  show ?thesis
    unfolding parseStatusLine_def f option.case s using stoi_to_string [OF assms(1)] by simp
qed

lemma put_field_value:
  "\<forall>kv \<in> set kvs. tolower (fst kv) = key \<longrightarrow> snd kv = v \<Longrightarrow>
   fold put_field kvs m key = (if key \<in> set (map (tolower \<circ> fst) kvs) then Some v else m key)"
  by (induction kvs arbitrary: m) auto

lemma framed_lines:
  assumes "framed (hs, r)"
  defines "r0 \<equiv> HttpClientResponse_new\<lparr>cr_statusCode := int (status_value (statusCode r)), cr_statusMessage := statusMessage r\<rparr>"
  defines "fs \<equiv> response_fields hs r"
  shows "list_all line_ok (response_line r # map field_line fs)"
    and "parseStatusLine (response_line r) HttpClientResponse_new = (True, r0)"
    and "fold client_header_step (map field_line fs) r0 = r0\<lparr>cr_headers := fold put_field fs Map.empty\<rparr>"
    and "response_length (r0\<lparr>cr_headers := fold put_field fs Map.empty\<rparr>) = length (resp_body r)"
    and "length (join_lines (response_line r # map field_line fs)) + 4 + length (resp_body r) = length (toString hs r)"
    and "length (toString hs r) < 2 ^ 64"
proof -
  note f = assms(1) [unfolded framed_def prod.case]
  have fs: "list_all field_ok fs"
    using f by (auto simp: fs_def response_fields_def field_ok_def)
  have n: "status_value (statusCode r) < 2 ^ 31" by (cases "statusCode r") simp_all
  show "list_all line_ok (response_line r # map field_line fs)"
    using f fields_lines_ok [OF fs] by (simp add: line_ok_def response_line_def)
  show "parseStatusLine (response_line r) HttpClientResponse_new = (True, r0)"
    unfolding response_line_def r0_def by (rule parseStatusLine_line [OF n]) simp
  show "fold client_header_step (map field_line fs) r0 = r0\<lparr>cr_headers := fold put_field fs Map.empty\<rparr>"
    using fold_client_header_step [OF fs, of r0] by (simp add: r0_def HttpClientResponse_new_def)
  show l: "length (join_lines (response_line r # map field_line fs)) + 4 + length (resp_body r) = length (toString hs r)"
    using f by (simp add: toString_lines fs_def)
  show l64: "length (toString hs r) < 2 ^ 64" using f by simp
  have t: "tolower ''Server'' = ''server''" by code_simp
  have "\<forall>kv \<in> set fs. tolower (fst kv) = ''content-length'' \<longrightarrow> snd kv = to_string (length (resp_body r))"
    using f by (auto simp: fs_def response_fields_def list_all_iff tolower_fields t)
  from put_field_value [OF this, of Map.empty]
  show "response_length (r0\<lparr>cr_headers := fold put_field fs Map.empty\<rparr>) = length (resp_body r)"
    using f l l64 stoul_to_string [of "length (resp_body r)"]
    by (auto simp: response_length_def fs_def response_fields_def tolower_fields t)
qed

lemma onMessage_turn_framed:
  assumes "framed (hs, r)" and "recvBuffer c = toString hs r @ rest"
  shows "onMessage_turn c = Some (pop_fulfil (client_view (hs, r)) (c\<lparr>recvBuffer := rest\<rparr>))"
proof -
  note f = framed_lines [OF assms(1)]
  have "\<not> chunked r" using assms(1) by (simp add: framed_def)
  then have "recvBuffer c = join_lines (response_line r # map field_line (response_fields hs r)) @ CRLF @ CRLF @ resp_body r @ rest"
    by (simp add: assms(2) toString_lines)
  from onMessage_turn_lines [OF f(1,2) this, unfolded f(3,4,5)] f(6)
  show ?thesis
    by (simp add: assms(2) client_view_def HttpClientResponse_new_def)
qed

lemma onMessage_turn_partial:
  assumes "framed (hs, r)" and "recvBuffer c = take n (toString hs r)" and "n < length (toString hs r)"
  shows "onMessage_turn c = None"
proof (cases "index_sub (CRLF @ CRLF) (recvBuffer c)")
  case None
  then show ?thesis by (simp add: onMessage_turn_def)
next
  case (Some i)
  note f = framed_lines [OF assms(1)]
  let ?h = "join_lines (response_line r # map field_line (response_fields hs r))"
  have nc: "\<not> chunked r" using assms(1) by (simp add: framed_def)
  have "recvBuffer c @ drop n (toString hs r) = ?h @ CRLF @ CRLF @ resp_body r"
    unfolding assms(2) append_take_drop_id by (rule toString_lines [OF nc])
  then have "index_sub (CRLF @ CRLF) (recvBuffer c @ drop n (toString hs r)) = Some (length ?h)"
    using blank_line_found [OF _ f(1), of "resp_body r"] by simp
  with index_sub_prefix [OF Some, of "drop n (toString hs r)"] have i: "i = length ?h" by simp
  have "length ?h + 4 \<le> n" using index_sub_bound [OF Some] assms(2,3) by (simp add: i)
  then obtain k where "n = length ?h + 4 + k" by (metis le_add_diff_inverse)
  then have "recvBuffer c = ?h @ CRLF @ CRLF @ take k (resp_body r)"
    by (simp add: assms(2) toString_lines [OF nc] eval_nat_numeral)
  from onMessage_turn_lines [OF f(1,2) this, unfolded f(3,4,5)] f(6) show ?thesis
    using assms(2,3) by simp
qed

lemma onMessage_loop_framed:
  assumes "list_all framed rs" and "recvBuffer c = concat (map (\<lambda>(hs, r). toString hs r) rs) @ part"
    and "framed (hs', r')" and "part = take n (toString hs' r')" and "n < length (toString hs' r')"
    and "pendingQueue c = ps @ qs" and "length ps = length rs"
  shows "onMessage_loop c =
    Some (c\<lparr>recvBuffer := part, pendingQueue := qs, fulfilled := fulfilled c @ zip ps (map client_view rs)\<rparr>)"
  using assms(1,2,6,7)
proof (induction rs arbitrary: c ps)
  case Nil
  then have "onMessage_turn c = None" by (intro onMessage_turn_partial [OF assms(3) _ assms(5)]) (simp add: assms(4))
  with Nil show ?case by (subst onMessage_loop.simps) simp
next
  case (Cons hr rs)
  obtain hs r where hr: "hr = (hs, r)" by (cases hr)
  obtain p ps' where ps: "ps = p # ps'" using Cons.prems by (cases ps) auto
  let ?rest = "concat (map (\<lambda>(hs, r). toString hs r) rs) @ part"
  let ?c = "c\<lparr>recvBuffer := ?rest, pendingQueue := ps' @ qs, fulfilled := fulfilled c @ [(p, client_view hr)]\<rparr>"
  have "onMessage_turn c = Some ?c"
    using onMessage_turn_framed [of hs r c ?rest] Cons.prems by (simp add: hr ps pop_fulfil_def)
  then have "onMessage_loop c = onMessage_loop ?c" by (subst onMessage_loop.simps) simp
  with Cons.IH [of ?c ps'] Cons.prems show ?case by (simp add: ps)
qed


section \<open>A response that never ends\<close>

lemma onMessage_loop_stuck:
  assumes "\<And>c. recvBuffer c = d \<Longrightarrow> \<exists>c'. onMessage_turn c = Some c' \<and> recvBuffer c' = d"
  shows "onMessage_loop c = Some y \<Longrightarrow> recvBuffer c \<noteq> d"
proof (erule onMessage_loop.raw_induct [where P = "\<lambda>c y. recvBuffer c \<noteq> d", rotated])
  fix loop :: "http_client \<Rightarrow> http_client option" and c y
  assume ih: "\<And>c y. loop c = Some y \<Longrightarrow> recvBuffer c \<noteq> d"
    and turn: "(case onMessage_turn c of None \<Rightarrow> Some c | Some c' \<Rightarrow> loop c') = Some y"
  show "recvBuffer c \<noteq> d"
  proof
    assume "recvBuffer c = d"
    then obtain c' where "onMessage_turn c = Some c'" "recvBuffer c' = d" using assms by blast
    with ih turn show False by auto
  qed
qed

text \<open>
  A hostile length stops the client: when the header section and the announced \<^verbatim>\<open>Content-Length\<close> together make
  up exactly 2 to the 64, the sum of the two wraps to zero, the loop consumes nothing and goes
  round for ever, whatever is waiting and whatever follows the header.
\<close>

theorem wrapped_length_hangs:
  assumes "recvBuffer c = []" and "n < 2 ^ 64"
    and "length (join_lines [''HTTP/1.1 200 OK'', ''Content-Length: '' @ to_string n]) + 4 + n = 2 ^ 64"
  shows "client_onMessage (join_lines [''HTTP/1.1 200 OK'', ''Content-Length: '' @ to_string n] @ CRLF @ CRLF @ rest) c = None"
proof -
  let ?ls = "[''HTTP/1.1 200 OK'', ''Content-Length: '' @ to_string n]"
  let ?d = "join_lines ?ls @ CRLF @ CRLF @ rest"
  define r0 where "r0 = HttpClientResponse_new\<lparr>cr_statusCode := 200, cr_statusMessage := ''OK''\<rparr>"
  have two: "to_string 200 = ''200''" by (simp add: to_string.simps) code_simp
  have p: "parseStatusLine ''HTTP/1.1 200 OK'' HttpClientResponse_new = (True, r0)"
    using parseStatusLine_line [of 200 "''HTTP/1.1''" "''OK''"] by (simp add: two r0_def)
  have ok: "list_all field_ok [(''Content-Length'', to_string n)]" by (simp add: to_string_field_ok)
  have l: "list_all line_ok ?ls" by (simp add: line_ok_def)
  have f: "fold client_header_step [''Content-Length: '' @ to_string n] r0 = r0\<lparr>cr_headers := [''content-length'' \<mapsto> to_string n]\<rparr>"
    using fold_client_header_step [OF ok, of r0]
    by (simp add: field_line_def r0_def HttpClientResponse_new_def tolower_fields)
  have n: "response_length (r0\<lparr>cr_headers := [''content-length'' \<mapsto> to_string n]\<rparr>) = n"
    using stoul_to_string [OF assms(2)] by (simp add: response_length_def)
  have "\<exists>c'. onMessage_turn c = Some c' \<and> recvBuffer c' = ?d" if "recvBuffer c = ?d" for c
    using onMessage_turn_lines [OF l p that, unfolded f n assms(3)] that
    by (simp add: pop_fulfil_def split: list.split)
  then have "onMessage_loop (c\<lparr>recvBuffer := ?d\<rparr>) \<noteq> Some y" for y
    using onMessage_loop_stuck [of ?d "c\<lparr>recvBuffer := ?d\<rparr>" y] by fastforce
  then show ?thesis
    unfolding client_onMessage_def assms(1) append_Nil by (metis option.exhaust)
qed


theorem wrapped_length_hangs_witness:
  "client_onMessage (join_lines [''HTTP/1.1 200 OK'', ''Content-Length: '' @ to_string (2 ^ 64 - 57)] @ CRLF @ CRLF @ ''x'')
     \<lparr>client_host = ''h'', connected = True, pendingQueue = [4, 5], recvBuffer = [], nextPromise = 6, fulfilled = [], client_sent = []\<rparr>
   = None"
proof -
  have "length (to_string (2 ^ 64 - 57)) = 20" by (simp add: to_string.simps)
  then show ?thesis
    using wrapped_length_hangs [of "\<lparr>client_host = ''h'', connected = True, pendingQueue = [4, 5], recvBuffer = [],
        nextPromise = 6, fulfilled = [], client_sent = []\<rparr>" "2 ^ 64 - 57" "''x''"]
    by simp
qed

end
