(* ===== verification/RateLimit.thy ===== *)
theory RateLimit
  imports Complex_Main CppString
begin

text \<open>
  \<^verbatim>\<open>src/util/RateLimiter.h\<close> and \<^verbatim>\<open>src/util/Metrics.h\<close>: the token bucket, the sliding window and the metrics
  table.  The clock reading \<^verbatim>\<open>nowMs()\<close> is an argument; a \<^verbatim>\<open>double\<close> is a rational, so rounding is not
  modelled.  The token bucket is shown to keep the average rate, the sliding window to decide exactly as
  one that remembers every accepted request would.
\<close>

section \<open>Token bucket\<close>

record bucket =
  tokens :: rat
  lastTime :: int

record token_bucket =
  tb_rate :: rat
  tb_burst :: int
  buckets :: "string \<rightharpoonup> bucket"

definition TokenBucketLimiter_new :: "rat \<Rightarrow> int \<Rightarrow> token_bucket" where
  "TokenBucketLimiter_new rate burst = \<lparr>tb_rate = rate, tb_burst = burst, buckets = Map.empty\<rparr>"

definition refill :: "rat \<Rightarrow> int \<Rightarrow> int \<Rightarrow> bucket \<Rightarrow> rat" where
  "refill rate burst now b = min (of_int burst) (tokens b + (of_int (now - lastTime b) / 1000) * rate)"

definition tb_allow :: "int \<Rightarrow> string \<Rightarrow> token_bucket \<Rightarrow> bool \<times> token_bucket" where
  "tb_allow now key l =
     (case buckets l key of
        None \<Rightarrow> (True, l\<lparr>buckets := (buckets l)(key \<mapsto> \<lparr>tokens = of_int (tb_burst l) - 1, lastTime = now\<rparr>)\<rparr>)
      | Some b \<Rightarrow>
          (let t = refill (tb_rate l) (tb_burst l) now b in
           if t \<ge> 1 then (True, l\<lparr>buckets := (buckets l)(key \<mapsto> \<lparr>tokens = t - 1, lastTime = now\<rparr>)\<rparr>)
           else (False, l\<lparr>buckets := (buckets l)(key \<mapsto> \<lparr>tokens = t, lastTime = now\<rparr>)\<rparr>)))"

text \<open>A history of requests, each with its time and key; the answers and the limiter at the end.\<close>

fun tb_run :: "(int \<times> string) list \<Rightarrow> token_bucket \<Rightarrow> bool list \<times> token_bucket" where
  "tb_run [] l = ([], l)"
| "tb_run ((now, key) # rs) l =
     (let (ok, l1) = tb_allow now key l; (oks, l2) = tb_run rs l1 in (ok # oks, l2))"

fun granted :: "string \<Rightarrow> (int \<times> string) list \<Rightarrow> bool list \<Rightarrow> int list" where
  "granted key ((now, k) # rs) (ok # oks) = (if k = key \<and> ok then now # granted key rs oks else granted key rs oks)"
| "granted key _ _ = []"

section \<open>Sliding window\<close>

record sliding_window =
  maxRequests :: int
  windowMs :: int
  windows :: "string \<Rightarrow> int list"

definition SlidingWindowLimiter_new :: "int \<Rightarrow> int \<Rightarrow> sliding_window" where
  "SlidingWindowLimiter_new maxReq windowSec = \<lparr>maxRequests = maxReq, windowMs = windowSec * 1000, windows = (\<lambda>_. [])\<rparr>"

definition sw_allow :: "int \<Rightarrow> string \<Rightarrow> sliding_window \<Rightarrow> bool \<times> sliding_window" where
  "sw_allow now key l =
     (let cutoff = now - windowMs l;
          window = dropWhile (\<lambda>t. t \<le> cutoff) (windows l key) in
      if int (length window) < maxRequests l
      then (True, l\<lparr>windows := (windows l)(key := window @ [now])\<rparr>)
      else (False, l\<lparr>windows := (windows l)(key := window)\<rparr>))"

fun sw_run :: "(int \<times> string) list \<Rightarrow> sliding_window \<Rightarrow> bool list \<times> sliding_window" where
  "sw_run [] l = ([], l)"
| "sw_run ((now, key) # rs) l =
     (let (ok, l1) = sw_allow now key l; (oks, l2) = sw_run rs l1 in (ok # oks, l2))"

text \<open>The specification: a log of every accepted request is kept for ever, and a request is accepted when
  fewer than \<open>n\<close> accepted requests of its key lie less than \<open>w\<close> milliseconds back.\<close>

fun log_run :: "int \<Rightarrow> int \<Rightarrow> (int \<times> string) list \<Rightarrow> (string \<Rightarrow> int list) \<Rightarrow> bool list" where
  "log_run n w [] h = []"
| "log_run n w ((now, key) # rs) h =
     (let ok = int (length (filter (\<lambda>t. t > now - w) (h key))) < n
      in ok # log_run n w rs (if ok then h(key := h key @ [now]) else h))"

section \<open>Metrics\<close>

record metrics =
  counters :: "string \<rightharpoonup> int"
  gauges :: "string \<rightharpoonup> int"
  histograms :: "string \<rightharpoonup> int \<times> rat"

definition Metrics_new :: metrics where
  "Metrics_new = \<lparr>counters = Map.empty, gauges = Map.empty, histograms = Map.empty\<rparr>"

definition getCounter :: "string \<Rightarrow> metrics \<Rightarrow> int" where
  "getCounter name m = (case counters m name of Some v \<Rightarrow> v | None \<Rightarrow> 0)"

definition getGauge :: "string \<Rightarrow> metrics \<Rightarrow> int" where
  "getGauge name m = (case gauges m name of Some v \<Rightarrow> v | None \<Rightarrow> 0)"

definition increment :: "string \<Rightarrow> int \<Rightarrow> metrics \<Rightarrow> metrics" where
  "increment name value m =
     m\<lparr>counters := (counters m)(name \<mapsto> (case counters m name of Some v \<Rightarrow> v | None \<Rightarrow> 0) + value)\<rparr>"

definition gauge :: "string \<Rightarrow> int \<Rightarrow> metrics \<Rightarrow> metrics" where
  "gauge name value m = m\<lparr>gauges := (gauges m)(name \<mapsto> value)\<rparr>"

definition observe :: "string \<Rightarrow> rat \<Rightarrow> metrics \<Rightarrow> metrics" where
  "observe name valueMs m =
     (let (n, s) = (case histograms m name of Some h \<Rightarrow> h | None \<Rightarrow> (0, 0))
      in m\<lparr>histograms := (histograms m)(name \<mapsto> (n + 1, s + valueMs))\<rparr>)"

text \<open>
  \<^verbatim>\<open>toPrometheus\<close>: the three tables are walked in the orders \<open>cs\<close>, \<open>gs\<close> and \<open>hs\<close>; \<open>show_double\<close> is the stream output
  of a \<^verbatim>\<open>double\<close>.
\<close>

definition toPrometheus ::
  "(rat \<Rightarrow> string) \<Rightarrow> (string \<times> int) list \<Rightarrow> (string \<times> int) list \<Rightarrow> (string \<times> int \<times> rat) list \<Rightarrow> string" where
  "toPrometheus show_double cs gs hs =
     concat (map (\<lambda>(name, value). ''# TYPE '' @ name @ '' counter'' @ [LF] @ name @ '' '' @ int_to_string value @ [LF]) cs) @
     concat (map (\<lambda>(name, value). ''# TYPE '' @ name @ '' gauge'' @ [LF] @ name @ '' '' @ int_to_string value @ [LF]) gs) @
     concat (map (\<lambda>(name, count, sum). ''# TYPE '' @ name @ '' summary'' @ [LF] @ name @ ''_count '' @ int_to_string count @ [LF] @
       name @ ''_sum '' @ show_double sum @ [LF]) hs)"

definition Metrics_reset :: "metrics \<Rightarrow> metrics" where
  "Metrics_reset m = Metrics_new"

section \<open>Laws of the token bucket\<close>

lemma tb_allow_other [simp]: "k \<noteq> key \<Longrightarrow> buckets (snd (tb_allow now key l)) k = buckets l k"
  by (simp add: tb_allow_def Let_def split: option.split)

lemma tb_allow_params [simp]:
  "tb_rate (snd (tb_allow now key l)) = tb_rate l" "tb_burst (snd (tb_allow now key l)) = tb_burst l"
  by (simp_all add: tb_allow_def Let_def split: option.split)

text \<open>What one bucket guarantees: the requests still granted up to time \<open>tend\<close> are bounded by its tokens and the refill.\<close>

lemma tb_run_bound:
  assumes "tb_rate l \<ge> 0" and "0 \<le> tb_burst l" and "sorted (map fst rs)" and "\<forall>r \<in> set rs. fst r \<le> tend"
    and "buckets l key = Some b" and "0 \<le> tokens b" and "\<forall>r \<in> set rs. lastTime b \<le> fst r" and "lastTime b \<le> tend"
  shows "of_nat (length (granted key rs (fst (tb_run rs l)))) \<le> tokens b + of_int (tend - lastTime b) / 1000 * tb_rate l"
  using assms
proof (induction rs arbitrary: l b)
  case Nil
  then show ?case by (simp add: zero_le_divide_iff)
next
  case (Cons r rs)
  obtain now k where r: "r = (now, k)" by (cases r)
  let ?l = "snd (tb_allow now k l)"
  note p = Cons.prems
  show ?case
  proof (cases "k = key")
    case False
    have "of_nat (length (granted key rs (fst (tb_run rs ?l)))) \<le> tokens b + of_int (tend - lastTime b) / 1000 * tb_rate ?l"
      by (rule Cons.IH) (use p False r in auto)
    then show ?thesis using False by (simp add: r split_beta Let_def)
  next
    case True
    define t where "t = refill (tb_rate l) (tb_burst l) now b"
    define ok where "ok = (t \<ge> 1)"
    define b' where "b' = \<lparr>tokens = (if ok then t - 1 else t), lastTime = now\<rparr>"
    have allow: "tb_allow now key l = (ok, l\<lparr>buckets := (buckets l)(key \<mapsto> b')\<rparr>)"
      using p(5) by (simp add: tb_allow_def t_def ok_def b'_def Let_def)
    have up: "t \<le> tokens b + of_int (now - lastTime b) / 1000 * tb_rate l" by (simp add: t_def refill_def)
    have now: "now \<le> tend" "lastTime b \<le> now" using p(4,7) by (simp_all add: r)
    have t0: "0 \<le> t"
      using p(1,2,6) now by (simp add: t_def refill_def)
    let ?l' = "l\<lparr>buckets := (buckets l)(key \<mapsto> b')\<rparr>"
    let ?n = "of_nat (length (granted key rs (fst (tb_run rs ?l')))) :: rat"
    have "?n \<le> tokens b' + of_int (tend - lastTime b') / 1000 * tb_rate ?l'"
      by (rule Cons.IH) (use p t0 now r in \<open>auto simp: b'_def ok_def\<close>)
    then have "?n + (if ok then 1 else 0) \<le> t + of_int (tend - now) / 1000 * tb_rate l"
      by (simp add: b'_def split: if_splits)
    also have "\<dots> \<le> tokens b + of_int (tend - lastTime b) / 1000 * tb_rate l"
      using up by (simp add: field_simps)
    finally show ?thesis using True by (cases ok) (simp_all add: r allow split_beta Let_def)
  qed
qed

lemma tb_run_first:
  assumes "buckets l key = None" and "tb_rate l \<ge> 0" and "1 \<le> tb_burst l"
    and "sorted (map fst rs)" and "\<forall>r \<in> set rs. tbeg \<le> fst r \<and> fst r \<le> tend"
  shows "rs \<noteq> [] \<Longrightarrow> of_nat (length (granted key rs (fst (tb_run rs l)))) \<le> of_int (tb_burst l) + of_int (tend - tbeg) / 1000 * tb_rate l"
  using assms
proof (induction rs arbitrary: l)
  case (Cons r rs)
  obtain now k where r: "r = (now, k)" by (cases r)
  note p = Cons.prems
  have pos: "0 \<le> of_int (tend - tbeg) / 1000 * tb_rate l" using p(3,6) by (auto intro!: mult_nonneg_nonneg simp: r)
  show ?case
  proof (cases "k = key")
    case False
    let ?l = "snd (tb_allow now k l)"
    show ?thesis
    proof (cases "rs = []")
      case True
      with False pos p(4) show ?thesis by (simp add: r split_beta Let_def)
    next
      case ne: False
      have "of_nat (length (granted key rs (fst (tb_run rs ?l)))) \<le> of_int (tb_burst ?l) + of_int (tend - tbeg) / 1000 * tb_rate ?l"
        by (rule Cons.IH [OF ne]) (use p False r in auto)
      with False show ?thesis by (simp add: r split_beta Let_def)
    qed
  next
    case True
    let ?b = "\<lparr>tokens = of_int (tb_burst l) - 1, lastTime = now\<rparr>"
    let ?l = "l\<lparr>buckets := (buckets l)(key \<mapsto> ?b)\<rparr>"
    let ?n = "of_nat (length (granted key rs (fst (tb_run rs ?l)))) :: rat"
    have "?n \<le> tokens ?b + of_int (tend - lastTime ?b) / 1000 * tb_rate ?l"
      by (rule tb_run_bound) (use p True r in auto)
    then have "?n + 1 \<le> of_int (tb_burst l) + of_int (tend - now) / 1000 * tb_rate l" by simp
    also have "\<dots> \<le> of_int (tb_burst l) + of_int (tend - tbeg) / 1000 * tb_rate l"
      using p(3,6) by (simp add: r mult_right_mono divide_right_mono)
    finally show ?thesis using True p(2) by (simp add: r tb_allow_def split_beta Let_def)
  qed
qed simp

section \<open>Laws of the sliding window\<close>

text \<open>A window holds the accepted requests that are still recent; the log holds all of them.\<close>

lemma dropWhile_sorted_filter: "sorted xs \<Longrightarrow> dropWhile (\<lambda>t. t \<le> c) xs = filter (\<lambda>t. t > c) (xs :: int list)"
  by (induction xs) (auto simp: not_le intro!: filter_True [symmetric])

definition window_of :: "sliding_window \<Rightarrow> (string \<Rightarrow> int list) \<Rightarrow> int \<Rightarrow> bool" where
  "window_of l h now \<longleftrightarrow>
     (\<forall>k. sorted (h k) \<and> (\<forall>t \<in> set (h k). t \<le> now) \<and>
          (\<exists>c \<le> now - windowMs l. windows l k = filter (\<lambda>t. t > c) (h k)))"

lemma window_of_later: "window_of l h now \<Longrightarrow> now \<le> now' \<Longrightarrow> window_of l h now'"
  unfolding window_of_def by (metis diff_right_mono order_trans)

lemma window_of_recent:
  assumes "window_of l h now"
  shows "dropWhile (\<lambda>t. t \<le> now - windowMs l) (windows l k) = filter (\<lambda>t. t > now - windowMs l) (h k)"
proof -
  obtain c where c: "sorted (h k)" "c \<le> now - windowMs l" "windows l k = filter (\<lambda>t. t > c) (h k)"
    using assms unfolding window_of_def by blast
  have "(\<lambda>t. t > c \<and> t > now - windowMs l) = (\<lambda>t. t > now - windowMs l)" using c(2) by auto
  with c show ?thesis by (simp add: dropWhile_sorted_filter sorted_wrt_filter)
qed

lemma sw_allow_window:
  fixes key :: string
  assumes "window_of l h now" and "0 < windowMs l"
  defines "ok \<equiv> int (length (filter (\<lambda>t. t > now - windowMs l) (h key))) < maxRequests l"
  defines "h' \<equiv> (if ok then h(key := h key @ [now]) else h)"
  shows "fst (sw_allow now key l) = ok" and "window_of (snd (sw_allow now key l)) h' now"
    and "maxRequests (snd (sw_allow now key l)) = maxRequests l" and "windowMs (snd (sw_allow now key l)) = windowMs l"
proof -
  let ?w = "filter (\<lambda>t. t > now - windowMs l) (h key)"
  have a: "sw_allow now key l = (ok, l\<lparr>windows := (windows l)(key := if ok then ?w @ [now] else ?w)\<rparr>)"
    by (simp add: sw_allow_def window_of_recent [OF assms(1)] ok_def Let_def)
  have "?w = filter (\<lambda>t. t > now - windowMs l) (h key)" by simp
  then have w: "\<exists>c \<le> now - windowMs l. (if ok then ?w @ [now] else ?w) = filter (\<lambda>t. t > c) (h' key)"
    using assms(2) by (intro exI [of _ "now - windowMs l"]) (simp add: h'_def)
  have h: "sorted (h k) \<and> (\<forall>t \<in> set (h k). t \<le> now)" for k using assms(1) by (simp add: window_of_def)
  have "window_of (l\<lparr>windows := (windows l)(key := if ok then ?w @ [now] else ?w)\<rparr>) h' now"
    unfolding window_of_def
  proof
    fix k
    show "sorted (h' k) \<and> (\<forall>t \<in> set (h' k). t \<le> now) \<and>
        (\<exists>c \<le> now - windowMs (l\<lparr>windows := (windows l)(key := if ok then ?w @ [now] else ?w)\<rparr>).
          windows (l\<lparr>windows := (windows l)(key := if ok then ?w @ [now] else ?w)\<rparr>) k = filter (\<lambda>t. t > c) (h' k))"
    proof (cases "k = key")
      case True
      with w h [of key] show ?thesis by (simp add: h'_def sorted_append)
    next
      case False
      with assms(1) show ?thesis by (simp add: h'_def window_of_def)
    qed
  qed
  then show "fst (sw_allow now key l) = ok" "window_of (snd (sw_allow now key l)) h' now"
      "maxRequests (snd (sw_allow now key l)) = maxRequests l" "windowMs (snd (sw_allow now key l)) = windowMs l"
    by (simp_all only: a fst_conv snd_conv) simp_all
qed

lemma sw_run_log:
  assumes "window_of l h t0" and "0 < windowMs l" and "sorted (map fst rs)" and "\<forall>r \<in> set rs. t0 \<le> fst r"
  shows "fst (sw_run rs l) = log_run (maxRequests l) (windowMs l) rs h"
  using assms
proof (induction rs arbitrary: l h t0)
  case (Cons r rs)
  obtain now k where r: "r = (now, k)" by (cases r)
  have w: "window_of l h now" using window_of_later [OF Cons.prems(1)] Cons.prems(4) by (simp add: r)
  note a = sw_allow_window [OF w Cons.prems(2), of k]
  have "\<forall>q \<in> set rs. now \<le> fst q" using Cons.prems(3) by (auto simp: r)
  with Cons.IH [OF a(2), unfolded a(3,4), OF Cons.prems(2)] Cons.prems(3) a(1) show ?case
    by (simp add: r split_beta Let_def)
qed simp

section \<open>Properties\<close>





end
