(* ===== verification/HttpCoreModel.thy ===== *)
theory HttpCoreModel
  imports HttpParse HttpResp RateLimit
begin

text \<open>
  \<^verbatim>\<open>src/http/HttpCore.h\<close> (all but the request parsers, which are in \<^verbatim>\<open>HttpParse\<close>) and the content test of
  \<^verbatim>\<open>src/http/GzipMiddleware.h\<close>: registration of routes and middleware, the dispatch of a request, static
  files and response compression.  A handler reads and changes a world that holds the clock, the rate limiters, the
  metrics and whatever the application keeps.  Parameters: the regular expressions of the C++ library
  (\<open>regex_ok\<close>, \<open>regex_match\<close>), the file system calls (a record) and zlib (\<open>compress\<close>).  Iteration over an unordered
  map takes the list of its entries.
\<close>

section \<open>State\<close>

record http_world =
  clock_ms :: int
  limiters :: "token_bucket list"
  metrics_of :: metrics

type_synonym 'w handler = "http_request \<Rightarrow> http_response \<Rightarrow> 'w \<Rightarrow> http_response \<times> 'w"

record 'w route =
  route_method :: HttpMethod
  pattern :: string
  route_handler :: "'w handler"

record 'w http_core =
  exactRoutes :: "string \<rightharpoonup> (HttpMethod \<rightharpoonup> 'w handler)"
  routes :: "'w route list"
  middlewares :: "'w handler list"
  staticDirs :: "string \<rightharpoonup> string"
  gzipEnabled :: bool
  gzipMinSize :: nat

definition HttpCore_new :: "'w http_core" where
  "HttpCore_new = \<lparr>exactRoutes = Map.empty, routes = [], middlewares = [], staticDirs = Map.empty,
     gzipEnabled = False, gzipMinSize = 1024\<rparr>"

section \<open>Registration\<close>

definition isExactPath :: "string \<Rightarrow> bool" where
  "isExactPath p \<longleftrightarrow> list_all (\<lambda>c. c \<notin> set ''()[]{}.*+?|^$'') p"

text \<open>\<^verbatim>\<open>addRoute\<close>: \<open>None\<close> when the constructor of \<^verbatim>\<open>std::regex\<close> throws, before anything is changed.\<close>

definition addRoute ::
  "(string \<Rightarrow> bool) \<Rightarrow> HttpMethod \<Rightarrow> string \<Rightarrow> 'w handler \<Rightarrow> 'w http_core \<Rightarrow> 'w http_core option" where
  "addRoute regex_ok meth p h core =
     (if isExactPath p
      then Some (core\<lparr>exactRoutes := (exactRoutes core)
             (p \<mapsto> (case exactRoutes core p of None \<Rightarrow> Map.empty | Some m \<Rightarrow> m)(meth \<mapsto> h))\<rparr>)
      else if regex_ok p
      then Some (core\<lparr>routes := routes core @ [\<lparr>route_method = meth, pattern = p, route_handler = h\<rparr>]\<rparr>)
      else None)"

definition core_GET :: "(string \<Rightarrow> bool) \<Rightarrow> string \<Rightarrow> 'w handler \<Rightarrow> 'w http_core \<Rightarrow> 'w http_core option" where
  "core_GET regex_ok p h core = addRoute regex_ok GET p h core"

definition core_POST :: "(string \<Rightarrow> bool) \<Rightarrow> string \<Rightarrow> 'w handler \<Rightarrow> 'w http_core \<Rightarrow> 'w http_core option" where
  "core_POST regex_ok p h core = addRoute regex_ok POST p h core"

definition core_PUT :: "(string \<Rightarrow> bool) \<Rightarrow> string \<Rightarrow> 'w handler \<Rightarrow> 'w http_core \<Rightarrow> 'w http_core option" where
  "core_PUT regex_ok p h core = addRoute regex_ok PUT p h core"

definition core_DELETE :: "(string \<Rightarrow> bool) \<Rightarrow> string \<Rightarrow> 'w handler \<Rightarrow> 'w http_core \<Rightarrow> 'w http_core option" where
  "core_DELETE regex_ok p h core = addRoute regex_ok DELETE p h core"

definition use_middleware :: "'w handler \<Rightarrow> 'w http_core \<Rightarrow> 'w http_core" where
  "use_middleware m core = core\<lparr>middlewares := middlewares core @ [m]\<rparr>"

definition serveStatic :: "string \<Rightarrow> string \<Rightarrow> 'w http_core \<Rightarrow> 'w http_core" where
  "serveStatic urlPrefix dir core = core\<lparr>staticDirs := (staticDirs core)(urlPrefix \<mapsto> dir)\<rparr>"

definition enableCors :: "string \<Rightarrow> 'w http_core \<Rightarrow> 'w http_core" where
  "enableCors origin core = use_middleware (\<lambda>req resp w. (setCors origin resp, w)) core"

definition client_ip :: "http_request \<Rightarrow> string" where
  "client_ip req =
     (let ip = getHeader ''x-real-ip'' req;
          ip = (if ip = [] then getHeader ''x-forwarded-for'' req else ip)
      in if ip = [] then ''unknown'' else ip)"

text \<open>The limiter is shared by reference: it stands in the world at an index the middleware keeps.\<close>

definition rate_limit_middleware :: "nat \<Rightarrow> ('a http_world_scheme) handler" where
  "rate_limit_middleware i req resp w =
     (let (ok, l) = tb_allow (clock_ms w) (client_ip req) (limiters w ! i);
          w1 = w\<lparr>limiters := (limiters w)[i := l]\<rparr>
      in if \<not> ok then (setText ''Rate limit exceeded'' (setStatusCode TOO_MANY_REQUESTS resp), w1) else (resp, w1))"

definition useRateLimit ::
  "int \<Rightarrow> ('a http_world_scheme) http_core \<Rightarrow> 'a http_world_scheme \<Rightarrow> ('a http_world_scheme) http_core \<times> 'a http_world_scheme" where
  "useRateLimit maxRequestsPerSec core w =
     (use_middleware (rate_limit_middleware (length (limiters w))) core,
      w\<lparr>limiters := limiters w @ [TokenBucketLimiter_new (of_int maxRequestsPerSec) maxRequestsPerSec]\<rparr>)"

fun methodToString :: "HttpMethod \<Rightarrow> string" where
  "methodToString GET = ''get''"
| "methodToString POST = ''post''"
| "methodToString PUT = ''put''"
| "methodToString DELETE = ''delete''"
| "methodToString HEAD = ''head''"
| "methodToString METHOD_UNKNOWN = ''unknown''"

definition metrics_middleware :: "('a http_world_scheme) handler" where
  "metrics_middleware req resp w =
     (resp, w\<lparr>metrics_of := increment (''http_requests_'' @ methodToString (req_method req)) 1
                              (increment ''http_requests_total'' 1 (metrics_of w))\<rparr>)"

definition enableMetrics ::
  "(string \<Rightarrow> bool) \<Rightarrow> (metrics \<Rightarrow> string) \<Rightarrow> string \<Rightarrow> ('a http_world_scheme) http_core \<Rightarrow> ('a http_world_scheme) http_core option" where
  "enableMetrics regex_ok prometheus p core =
     core_GET regex_ok p
       (\<lambda>req resp w. (setBody (prometheus (metrics_of w)) (setContentType ''text/plain; version=0.0.4'' resp), w))
       (use_middleware metrics_middleware core)"

definition enableGzip :: "nat \<Rightarrow> 'w http_core \<Rightarrow> 'w http_core" where
  "enableGzip minSize core = core\<lparr>gzipEnabled := True, gzipMinSize := minSize\<rparr>"

section \<open>Static files\<close>

definition is_xdigit :: "char \<Rightarrow> bool" where
  "is_xdigit c \<longleftrightarrow> (let n = of_char c :: nat in 48 \<le> n \<and> n \<le> 57 \<or> 65 \<le> n \<and> n \<le> 70 \<or> 97 \<le> n \<and> n \<le> 102)"

definition xdigit_val :: "char \<Rightarrow> nat" where
  "xdigit_val c = (let n = of_char c in if n \<le> 57 then n - 48 else if n \<le> 70 then n - 55 else n - 87)"

text \<open>
  \<^verbatim>\<open>strtol(s, &end, 16)\<close>: the value and the number of characters read; white space, a sign and a prefix \<^verbatim>\<open>0x\<close> are
  allowed, and nothing is read when no digit follows.
\<close>

definition strtol16 :: "string \<Rightarrow> int \<times> nat" where
  "strtol16 s =
     (let t = dropWhile is_space s;
          (neg, u) = strip_sign t;
          pre = (if take 2 u \<in> {''0x'', ''0X''} \<and> takeWhile is_xdigit (drop 2 u) \<noteq> [] then 2 else 0);
          ds = takeWhile is_xdigit (drop pre u);
          v = int (foldl (\<lambda>acc c. 16 * acc + xdigit_val c) 0 ds)
      in if ds = [] then (0, 0)
         else (if neg then - v else v, (length s - length u) + pre + length ds))"

fun urlDecode :: "string \<Rightarrow> string" where
  "urlDecode (c # a # b # s) =
     (if c = CHR ''%''
      then let (val, n) = strtol16 [a, b]
           in if n = 2 \<and> val \<ge> 0 \<and> val \<le> 255 then char_of (nat val) # urlDecode s
              else c # urlDecode (a # b # s)
      else c # urlDecode (a # b # s))"
| "urlDecode s = s"

text \<open>\<^verbatim>\<open>realpath\<close>, \<^verbatim>\<open>open\<close> (the descriptor or a negative number) and \<^verbatim>\<open>fstat\<close> (regular file, size).\<close>

record file_system =
  realpath :: "string \<Rightarrow> string option"
  fs_open :: "string \<Rightarrow> int"
  fstat :: "int \<Rightarrow> (bool \<times> int) option"

datatype fs_event = FsOpen string int | FsClose int

definition content_type_of :: "string \<Rightarrow> string" where
  "content_type_of filename =
     (if contains ''.html'' filename then ''text/html; charset=utf-8''
      else if contains ''.css'' filename then ''text/css''
      else if contains ''.js'' filename then ''application/javascript''
      else if contains ''.json'' filename then ''application/json''
      else if contains ''.png'' filename then ''image/png''
      else if contains ''.jpg'' filename \<or> contains ''.jpeg'' filename then ''image/jpeg''
      else ''application/octet-stream'')"

definition serveFile :: "file_system \<Rightarrow> http_response \<Rightarrow> string \<Rightarrow> string \<Rightarrow> http_response \<times> fs_event list" where
  "serveFile fs resp dir filename =
     (let decoded = urlDecode filename in
      if decoded = [] \<or> contains ''..'' decoded \<or> hd decoded = CHR ''/'' \<or> hd decoded = CHR ''~'' \<or>
         CHR 0x5C \<in> set decoded
      then (badRequest ''Invalid path'', [])
      else
        let filepath = dir @ ''/'' @ decoded in
        case (realpath fs (c_str filepath), realpath fs (c_str dir)) of
          (Some resolvedPath, Some resolvedDir) \<Rightarrow>
            (if find_str resolvedDir resolvedPath 0 \<noteq> Some 0 then (badRequest ''Invalid path'', [])
             else
               let fd = fs_open fs (c_str filepath); opened = [FsOpen (c_str filepath) fd] in
               if fd < 0 then (notFound ''Not Found'', opened)
               else
                 case fstat fs fd of
                   None \<Rightarrow> (notFound ''Not Found'', opened @ [FsClose fd])
                 | Some (regular, sz) \<Rightarrow>
                     if \<not> regular then (notFound ''Not Found'', opened @ [FsClose fd])
                     else if sz \<le> 0 \<or> nat sz > kMaxBodySize then (serverError ''File too large'', opened @ [FsClose fd])
                     else (setFileBody fd (nat sz) (setContentType (content_type_of filename) resp), opened))
        | _ \<Rightarrow> (notFound ''Not Found'', []))"

section \<open>Dispatch\<close>

fun run_middlewares :: "'w handler list \<Rightarrow> http_request \<Rightarrow> http_response \<Rightarrow> 'w \<Rightarrow> bool \<times> http_response \<times> 'w" where
  "run_middlewares [] req resp w = (False, resp, w)"
| "run_middlewares (m # ms) req resp w =
     (let (resp1, w1) = m req resp w in
      if status_value (statusCode resp1) \<ge> 400 then (True, resp1, w1) else run_middlewares ms req resp1 w1)"

definition exact_handler :: "'w http_core \<Rightarrow> http_request \<Rightarrow> 'w handler option" where
  "exact_handler core req =
     (case exactRoutes core (path req) of None \<Rightarrow> None | Some m \<Rightarrow> m (req_method req))"

fun regex_handler :: "(string \<Rightarrow> string \<Rightarrow> bool) \<Rightarrow> 'w route list \<Rightarrow> http_request \<Rightarrow> 'w handler option" where
  "regex_handler regex_match [] req = None"
| "regex_handler regex_match (r # rs) req =
     (if route_method r = req_method req \<and> regex_match (pattern r) (path req) then Some (route_handler r)
      else regex_handler regex_match rs req)"

definition best_step :: "string \<Rightarrow> string \<times> string \<Rightarrow> (string \<times> string) option \<Rightarrow> (string \<times> string) option" where
  "best_step p kv best =
     (if find_str (fst kv) p 0 = Some 0
      then case best of None \<Rightarrow> Some kv | Some b \<Rightarrow> if length (fst kv) > length (fst b) then Some kv else best
      else best)"

definition best_static :: "(string \<times> string) list \<Rightarrow> string \<Rightarrow> (string \<times> string) option" where
  "best_static dirs p = fold (best_step p) dirs None"

definition static_name :: "string \<Rightarrow> string \<Rightarrow> string" where
  "static_name pfx p =
     (let sub = dropWhile (\<lambda>c. c = CHR ''/'') (substr_from p (length pfx))
      in if sub = [] then ''index.html'' else sub)"

definition serve_static :: "file_system \<Rightarrow> (string \<times> string) list \<Rightarrow> http_request \<Rightarrow> http_response \<Rightarrow> http_response \<times> fs_event list" where
  "serve_static fs dirs req resp =
     (case best_static dirs (path req) of
        Some (pfx, dir) \<Rightarrow> serveFile fs resp dir (static_name pfx (path req))
      | None \<Rightarrow> (notFound (''Not Found: '' @ path req), []))"

definition handleRequest ::
  "(string \<Rightarrow> string \<Rightarrow> bool) \<Rightarrow> file_system \<Rightarrow> (string \<times> string) list \<Rightarrow> 'w http_core \<Rightarrow> http_request \<Rightarrow> http_response \<Rightarrow> 'w
     \<Rightarrow> http_response \<times> 'w \<times> fs_event list" where
  "handleRequest regex_match fs dirs core req resp w =
     (let (aborted, resp1, w1) = run_middlewares (middlewares core) req resp w in
      if aborted then (resp1, w1, [])
      else case exact_handler core req of
             Some h \<Rightarrow> (let (r, w2) = h req resp1 w1 in (r, w2, []))
           | None \<Rightarrow>
               (case regex_handler regex_match (routes core) req of
                  Some h \<Rightarrow> (let (r, w2) = h req resp1 w1 in (r, w2, []))
                | None \<Rightarrow> (let (r, es) = serve_static fs dirs req resp1 in (r, w1, es))))"

section \<open>Response compression\<close>

definition shouldCompress :: "string \<Rightarrow> bool" where
  "shouldCompress contentType \<longleftrightarrow>
     contentType \<noteq> [] \<and>
     (find_str ''text/'' contentType 0 = Some 0 \<or> contains ''application/json'' contentType \<or>
      contains ''application/javascript'' contentType \<or> contains ''application/xml'' contentType)"

definition postProcessResponse ::
  "(string \<Rightarrow> string) \<Rightarrow> 'w http_core \<Rightarrow> http_request \<Rightarrow> http_response \<Rightarrow> http_response" where
  "postProcessResponse compress core req resp =
     (if \<not> gzipEnabled core \<or> length (resp_body resp) < gzipMinSize core then resp
      else if \<not> contains ''gzip'' (getHeader ''accept-encoding'' req) then resp
      else let contentType = (case resp_headers resp ''Content-Type'' of Some t \<Rightarrow> t | None \<Rightarrow> []) in
        if \<not> shouldCompress contentType then resp
        else let compressed = compress (resp_body resp) in
          if compressed \<noteq> [] \<and> length compressed < length (resp_body resp)
          then setHeader ''Vary'' ''Accept-Encoding'' (setHeader ''Content-Encoding'' ''gzip''
                 (setContentLength (length compressed) (resp\<lparr>resp_body := compressed\<rparr>)))
          else resp)"

section \<open>Registration and dispatch\<close>

text \<open>The registrations in the order they were made; \<open>None\<close> when one of them throws.\<close>

fun register_all :: "(string \<Rightarrow> bool) \<Rightarrow> 'w route list \<Rightarrow> 'w http_core \<Rightarrow> 'w http_core option" where
  "register_all regex_ok [] core = Some core"
| "register_all regex_ok (r # rs) core =
     (case addRoute regex_ok (route_method r) (pattern r) (route_handler r) core of
        None \<Rightarrow> None | Some core1 \<Rightarrow> register_all regex_ok rs core1)"

text \<open>What the table stands for: the last exact registration wins, else the first matching pattern.\<close>

definition exact_match :: "http_request \<Rightarrow> 'w route \<Rightarrow> bool" where
  "exact_match req r \<longleftrightarrow> isExactPath (pattern r) \<and> pattern r = path req \<and> route_method r = req_method req"

definition regex_route_match :: "(string \<Rightarrow> string \<Rightarrow> bool) \<Rightarrow> http_request \<Rightarrow> 'w route \<Rightarrow> bool" where
  "regex_route_match regex_match req r \<longleftrightarrow>
     \<not> isExactPath (pattern r) \<and> route_method r = req_method req \<and> regex_match (pattern r) (path req)"

definition chosen :: "(string \<Rightarrow> string \<Rightarrow> bool) \<Rightarrow> 'w route list \<Rightarrow> http_request \<Rightarrow> 'w handler option" where
  "chosen regex_match rs req =
     map_option route_handler (case find (exact_match req) (rev rs) of
       Some r \<Rightarrow> Some r | None \<Rightarrow> find (regex_route_match regex_match req) rs)"

lemma find_append: "find P (xs @ ys) = (case find P xs of Some x \<Rightarrow> Some x | None \<Rightarrow> find P ys)"
  by (induction xs) auto

lemma regex_handler_find:
  "regex_handler regex_match rs req =
     map_option route_handler (find (\<lambda>r. route_method r = req_method req \<and> regex_match (pattern r) (path req)) rs)"
  by (induction rs) auto

lemma addRoute_exact_handler:
  assumes "addRoute regex_ok (route_method r) (pattern r) (route_handler r) core = Some core1"
  shows "exact_handler core1 req = (if exact_match req r then Some (route_handler r) else exact_handler core req)"
  using assms by (auto simp: addRoute_def exact_handler_def exact_match_def split: if_splits option.splits)

lemma addRoute_routes:
  assumes "addRoute regex_ok (route_method r) (pattern r) (route_handler r) core = Some core1"
  shows "routes core1 = routes core @ (if isExactPath (pattern r) then [] else [r])"
    and "middlewares core1 = middlewares core" and "staticDirs core1 = staticDirs core"
  using assms by (auto simp: addRoute_def split: if_splits)

lemma register_all_table:
  "register_all regex_ok rs core = Some core' \<Longrightarrow>
     exact_handler core' req =
       (case find (exact_match req) (rev rs) of Some r \<Rightarrow> Some (route_handler r) | None \<Rightarrow> exact_handler core req) \<and>
     routes core' = routes core @ filter (\<lambda>r. \<not> isExactPath (pattern r)) rs \<and>
     middlewares core' = middlewares core \<and> staticDirs core' = staticDirs core"
proof (induction rs arbitrary: core)
  case (Cons r rs)
  obtain core1 where c1: "addRoute regex_ok (route_method r) (pattern r) (route_handler r) core = Some core1"
    and rest: "register_all regex_ok rs core1 = Some core'"
    using Cons.prems by (auto split: option.splits)
  show ?case
    using Cons.IH [OF rest] addRoute_exact_handler [OF c1, of req] addRoute_routes [OF c1]
    by (simp add: find_append split: option.splits)
qed simp

lemma find_filter: "find P (filter Q xs) = find (\<lambda>x. Q x \<and> P x) xs"
  by (induction xs) auto

lemma register_all_chosen:
  assumes "register_all regex_ok rs core = Some core'" and "exactRoutes core = Map.empty" and "routes core = []"
  shows "(case exact_handler core' req of Some h \<Rightarrow> Some h | None \<Rightarrow> regex_handler regex_match (routes core') req) =
    chosen regex_match rs req"
proof -
  have "exact_handler core req = None" using assms(2) by (simp add: exact_handler_def)
  moreover have "regex_handler regex_match (routes core') req =
      map_option route_handler (find (regex_route_match regex_match req) rs)"
    using register_all_table [OF assms(1), of req] assms(3)
    by (simp add: regex_handler_find find_filter regex_route_match_def [abs_def])
  ultimately show ?thesis
    using register_all_table [OF assms(1), of req] by (simp add: chosen_def split: option.splits)
qed

section \<open>The longest prefix\<close>

lemma find_str_prefix: "find_str p s 0 = Some 0 \<longleftrightarrow> starts_with p s"
  by (cases s) (auto simp: starts_with_def)

lemma starts_with_same_length: "starts_with p s \<Longrightarrow> starts_with q s \<Longrightarrow> length p = length q \<Longrightarrow> p = q"
  by (simp add: starts_with_def)

text \<open>The best entry of a list: a matching one of greatest length.\<close>

definition is_best :: "(string \<times> string) set \<Rightarrow> string \<Rightarrow> (string \<times> string) option \<Rightarrow> bool" where
  "is_best S p best \<longleftrightarrow>
     (case best of
        None \<Rightarrow> \<forall>kv \<in> S. \<not> starts_with (fst kv) p
      | Some b \<Rightarrow> b \<in> S \<and> starts_with (fst b) p \<and> (\<forall>kv \<in> S. starts_with (fst kv) p \<longrightarrow> length (fst kv) \<le> length (fst b)))"

lemma best_step_is_best: "is_best S p best \<Longrightarrow> is_best (insert kv S) p (best_step p kv best)"
  by (auto simp: is_best_def best_step_def find_str_prefix simp del: find_str_0 split: option.splits)

lemma fold_best: "is_best S p best \<Longrightarrow> is_best (S \<union> set dirs) p (fold (best_step p) dirs best)"
proof (induction dirs arbitrary: S best)
  case (Cons kv dirs)
  from Cons.IH [OF best_step_is_best [OF Cons.prems]] show ?case by simp
qed simp

lemma best_static_is_best: "is_best (set dirs) p (best_static dirs p)"
  using fold_best [of "{}" p None dirs] by (simp add: best_static_def is_best_def)

section \<open>Descriptors and decoding\<close>

text \<open>The descriptors a trace opened and did not close.\<close>

fun fs_event_step :: "fs_event \<Rightarrow> int list \<Rightarrow> int list" where
  "fs_event_step (FsOpen f fd) fds = (if fd \<ge> 0 then fds @ [fd] else fds)"
| "fs_event_step (FsClose fd) fds = remove1 fd fds"

definition open_fds :: "fs_event list \<Rightarrow> int list" where
  "open_fds es = fold fs_event_step es []"

text \<open>Percent-encoding of the characters that are not \<open>safe\<close>.\<close>

definition percent_encode :: "(char \<Rightarrow> bool) \<Rightarrow> string \<Rightarrow> string" where
  "percent_encode safe s =
     concat (map (\<lambda>c. if safe c then [c] else [CHR ''%'', hex_char (of_char c div 16), hex_char (of_char c mod 16)]) s)"

lemma hex_char_xdigit: "d < 16 \<Longrightarrow> is_xdigit (hex_char d)" "d < 16 \<Longrightarrow> xdigit_val (hex_char d) = d"
  by (auto simp: is_xdigit_def xdigit_val_def of_char_hex_char Let_def)

lemma xdigit_plain:
  assumes "is_xdigit c"
  shows "\<not> is_space c" "c \<noteq> CHR ''-''" "c \<noteq> CHR ''+''" "c \<noteq> CHR ''x''" "c \<noteq> CHR ''X''"
  using assms by (auto simp: is_xdigit_def is_space_def Let_def)

lemma strtol16_digits:
  assumes "is_xdigit a" and "is_xdigit b"
  shows "strtol16 [a, b] = (int (16 * xdigit_val a + xdigit_val b), 2)"
  using xdigit_plain [OF assms(1)] xdigit_plain [OF assms(2)] assms
  by (simp add: strtol16_def strip_sign_def Let_def)

lemma urlDecode_plain: "c \<noteq> CHR ''%'' \<Longrightarrow> urlDecode (c # s) = c # urlDecode s"
  by (cases s rule: urlDecode.cases) (auto simp: neq_Nil_conv)

lemma urlDecode_escape:
  fixes c :: char
  shows "urlDecode (CHR ''%'' # hex_char (of_char c div 16) # hex_char (of_char c mod 16) # s) = c # urlDecode s"
proof -
  have c: "of_char c < (256 :: nat)" by simp
  then have "(of_char c :: nat) div 16 < 16" by (simp add: less_mult_imp_div_less)
  note d = hex_char_xdigit [OF this] hex_char_xdigit [of "of_char c mod 16"]
  have v: "16 * xdigit_val (hex_char (of_char c div 16)) + xdigit_val (hex_char (of_char c mod 16)) = (of_char c :: nat)"
    using d by simp
  have "strtol16 [hex_char (of_char c div 16), hex_char (of_char c mod 16)] = (int (of_char c), 2)"
    using d by (subst strtol16_digits) (simp_all only: v, simp_all)
  moreover have "int (of_char c) \<le> 255" using c by linarith
  ultimately show ?thesis by (simp add: Let_def del: of_nat_of_char)
qed

section \<open>Properties\<close>

text \<open>
  (C8) The route tables implement the list of registrations: after any sequence of registrations, a request that the
  middleware lets pass is given to the handler registered last for exactly its path and method, else to the
  first registered pattern of its method that matches, else to the static files or the 404 answer; a
  middleware that sets a status of 400 or more ends the processing.
\<close>

theorem dispatch_follows_registrations:
  assumes "register_all regex_ok rs core0 = Some core" and "exactRoutes core0 = Map.empty" and "routes core0 = []"
  shows "handleRequest regex_match fs dirs core req resp w =
    (let (aborted, resp1, w1) = run_middlewares (middlewares core0) req resp w in
     if aborted then (resp1, w1, [])
     else case chosen regex_match rs req of
            Some h \<Rightarrow> (let (r, w2) = h req resp1 w1 in (r, w2, []))
          | None \<Rightarrow> (let (r, es) = serve_static fs dirs req resp1 in (r, w1, es)))"
  using register_all_table [OF assms(1)]
  unfolding handleRequest_def register_all_chosen [OF assms, symmetric]
  by (simp add: split_beta Let_def split: option.split)

theorem dispatch_follows_registrations_witness:
  "handleRequest (\<lambda>p s. True) \<lparr>realpath = (\<lambda>_. None), fs_open = (\<lambda>_. -1), fstat = (\<lambda>_. None)\<rparr> []
     (the (register_all (\<lambda>_. True)
        [\<lparr>route_method = GET, pattern = ''/a'', route_handler = (\<lambda>q r w. (r, 1))\<rparr>,
         \<lparr>route_method = GET, pattern = ''/.*'', route_handler = (\<lambda>q r w. (r, 2))\<rparr>,
         \<lparr>route_method = GET, pattern = ''/a'', route_handler = (\<lambda>q r w. (r, 3))\<rparr>] HttpCore_new))
     (HttpRequest_new\<lparr>req_method := GET, path := ''/a''\<rparr>) HttpResponse_new (0 :: nat) = (HttpResponse_new, 3, [])"
  using dispatch_follows_registrations [of "\<lambda>_. True"
        "[\<lparr>route_method = GET, pattern = ''/a'', route_handler = (\<lambda>q r w. (r, 1))\<rparr>,
         \<lparr>route_method = GET, pattern = ''/.*'', route_handler = (\<lambda>q r w. (r, 2))\<rparr>,
         \<lparr>route_method = GET, pattern = ''/a'', route_handler = (\<lambda>q r w. (r, 3))\<rparr>]" HttpCore_new _
        "\<lambda>p s. True" "\<lparr>realpath = (\<lambda>_. None), fs_open = (\<lambda>_. -1), fstat = (\<lambda>_. None)\<rparr>" "[]"
        "HttpRequest_new\<lparr>req_method := GET, path := ''/a''\<rparr>" HttpResponse_new "0 :: nat"]
  by (simp add: addRoute_def isExactPath_def HttpCore_new_def chosen_def exact_match_def)

text \<open>
  The static directory is the one with the longest matching prefix, whatever the order in which the unordered map
  is walked: the search returns an entry exactly when it is registered, a prefix of the path and no
  shorter than any other registered prefix of the path.
\<close>

theorem static_longest_prefix:
  assumes "enumerates dirs (staticDirs core)"
  shows "best_static dirs p = Some (pfx, dir) \<longleftrightarrow>
    staticDirs core pfx = Some dir \<and> starts_with pfx p \<and>
    (\<forall>q. q \<in> dom (staticDirs core) \<longrightarrow> starts_with q p \<longrightarrow> length q \<le> length pfx)"
proof -
  have m: "kv \<in> set dirs \<longleftrightarrow> staticDirs core (fst kv) = Some (snd kv)" for kv
    using assms map_of_eq_Some_iff [of dirs "fst kv" "snd kv"] by (simp add: enumerates_def)
  have d: "q \<in> dom (staticDirs core) \<longleftrightarrow> (\<exists>v. (q, v) \<in> set dirs)" for q using m by (auto simp: m)
  show ?thesis
    using best_static_is_best [of dirs p] m [of "(pfx, dir)"]
    by (auto simp: is_best_def d split: option.splits)
      (metis fst_conv le_antisym m option.inject snd_conv starts_with_same_length)+
qed

theorem static_longest_prefix_witness:
  "best_static [(''/up'', ''U''), (''/'', ''R'')] ''/up/x'' = Some (''/up'', ''U'')"
proof -
  have "enumerates [(''/up'', ''U''), (''/'', ''R'')] (staticDirs (serveStatic ''/up'' ''U'' (serveStatic ''/'' ''R'' HttpCore_new)))"
    by (auto simp: enumerates_def serveStatic_def HttpCore_new_def)
  from static_longest_prefix [OF this, of "''/up/x''" "''/up''" "''U''"] show ?thesis
    by (auto simp: serveStatic_def HttpCore_new_def starts_with_def split: if_splits)
qed



text \<open>
  Compression keeps the response well-framed and readable: when the announced length was right before
  \<^verbatim>\<open>postProcessResponse\<close>, it is right after; the body is unchanged, or it is shorter, the client asked for gzip, the
  encoding is announced and decompressing gives the old body.  Decompression is assumed to invert compression.
\<close>

theorem gzip_keeps_meaning:
  assumes "\<And>b. compress b \<noteq> [] \<Longrightarrow> decompress (compress b) = b"
    and "resp_headers resp ''Content-Length'' = Some (to_string (length (resp_body resp)))"
  shows "let r = postProcessResponse compress core req resp in
    resp_headers r ''Content-Length'' = Some (to_string (length (resp_body r))) \<and>
    (r = resp \<or>
     length (resp_body r) < length (resp_body resp) \<and> decompress (resp_body r) = resp_body resp \<and>
     resp_headers r ''Content-Encoding'' = Some ''gzip'' \<and> contains ''gzip'' (getHeader ''accept-encoding'' req))"
  using assms
  by (simp add: postProcessResponse_def setHeader_def setContentLength_def Let_def)

theorem gzip_keeps_meaning_witness:
  "let r = postProcessResponse (\<lambda>b. if b = ''<p></p>'' then ''gz'' else []) (enableGzip 4 HttpCore_new :: unit http_core)
         (HttpRequest_new\<lparr>headers := [''accept-encoding'' \<mapsto> ''gzip, br'']\<rparr>) (setHtml ''<p></p>'' HttpResponse_new) in
   resp_body r = ''gz'' \<and> resp_headers r ''Content-Length'' = Some ''2''"
proof -
  let ?compress = "\<lambda>b. if b = ''<p></p>'' then ''gz'' else []"
  let ?resp = "setHtml ''<p></p>'' HttpResponse_new"
  let ?r = "postProcessResponse ?compress (enableGzip 4 HttpCore_new :: unit http_core)
    (HttpRequest_new\<lparr>headers := [''accept-encoding'' \<mapsto> ''gzip, br'']\<rparr>) ?resp"
  have h: "resp_headers ?resp ''Content-Length'' = Some (to_string (length (resp_body ?resp)))"
    by (simp add: setHtml_def setBody_def setContentType_def setContentLength_def)
  have "tolower ''accept-encoding'' = ''accept-encoding''" "contains ''gzip'' ''gzip, br''"
      "find_str ''text/'' ''text/html; charset=utf-8'' 0 = Some 0" "to_string 2 = ''2''" by code_simp+
  then have "resp_body ?r = ''gz''"
    by (simp add: postProcessResponse_def enableGzip_def getHeader_def setHtml_def setBody_def setContentType_def setHeader_def
      setContentLength_def shouldCompress_def)
  with gzip_keeps_meaning [of ?compress "\<lambda>_. ''<p></p>''", OF _ h, of "enableGzip 4 HttpCore_new :: unit http_core"
      "HttpRequest_new\<lparr>headers := [''accept-encoding'' \<mapsto> ''gzip, br'']\<rparr>"] show ?thesis
    using \<open>to_string 2 = ''2''\<close> by (simp add: Let_def numeral_2_eq_2 split: if_splits)
qed

text \<open>
  Percent-decoding inverts percent-encoding: for every choice of characters left as they are, as long as the
  percent sign is not one of them, \<^verbatim>\<open>urlDecode\<close> recovers the string.
\<close>

theorem urlDecode_encode:
  assumes "\<not> safe CHR ''%''"
  shows "urlDecode (percent_encode safe s) = s"
proof (induction s)
  case Nil
  then show ?case by (simp add: percent_encode_def)
next
  case (Cons c s)
  show ?case
  proof (cases "safe c")
    case True
    with assms have "c \<noteq> CHR ''%''" by auto
    with True Cons show ?thesis by (simp add: percent_encode_def urlDecode_plain)
  next
    case False
    with Cons urlDecode_escape [of c "percent_encode safe s"] show ?thesis
      by (simp add: percent_encode_def)
  qed
qed

theorem urlDecode_encode_witness: "urlDecode (percent_encode (\<lambda>c. c = CHR ''a'') ''a/%b'') = ''a/%b''"
  by (rule urlDecode_encode) simp

end
