(* ===== verification/HttpServerModel.thy ===== *)
theory HttpServerModel
  imports HttpCoreModel HttpClientModel TcpConn
begin

text \<open>
  \<^verbatim>\<open>src/http/HttpServer.h\<close>: the server that ties the HTTP core to connections.  The loop of \<^verbatim>\<open>onMessage\<close> works on
  the input buffer and makes calls on the connection; the calls are recorded in order and then performed on the model of
  the connection in \<^verbatim>\<open>TcpConn\<close> (parsing never looks at the output side, so the order is the same).  What lies
  outside is in one record of parameters.
\<close>

section \<open>State\<close>

record 'w http_server =
  core :: "'w http_core"
  started :: bool
  idleTimeoutSec :: rat
  server_threadNum :: int
  tcp_started :: bool
  quit_timers :: "rat list"

definition HttpServer_new :: "'w http_server" where
  "HttpServer_new = \<lparr>core = HttpCore_new, started = False, idleTimeoutSec = 60, server_threadNum = 4,
     tcp_started = False, quit_timers = []\<rparr>"

definition server_setThreadNum :: "int \<Rightarrow> 'w http_server \<Rightarrow> 'w http_server" where
  "server_setThreadNum num s = s\<lparr>server_threadNum := num\<rparr>"

definition setIdleTimeout :: "rat \<Rightarrow> 'w http_server \<Rightarrow> 'w http_server" where
  "setIdleTimeout seconds s = s\<lparr>idleTimeoutSec := seconds\<rparr>"

definition server_start :: "'w http_server \<Rightarrow> 'w http_server" where
  "server_start s = s\<lparr>started := True, tcp_started := True\<rparr>"

definition server_shutdown :: "rat \<Rightarrow> 'w http_server \<Rightarrow> 'w http_server" where
  "server_shutdown timeoutSec s = s\<lparr>started := False, quit_timers := quit_timers s @ [timeoutSec]\<rparr>"

text \<open>Every registration is dropped once the server has started; \<open>None\<close> when the registration itself throws.\<close>

definition server_route ::
  "(string \<Rightarrow> bool) \<Rightarrow> HttpMethod \<Rightarrow> string \<Rightarrow> 'w handler \<Rightarrow> 'w http_server \<Rightarrow> 'w http_server option" where
  "server_route regex_ok meth p h s =
     (if started s then Some s else map_option (\<lambda>c. s\<lparr>core := c\<rparr>) (addRoute regex_ok meth p h (core s)))"

definition server_configure :: "('w http_core \<Rightarrow> 'w http_core) \<Rightarrow> 'w http_server \<Rightarrow> 'w http_server" where
  "server_configure f s = (if started s then s else s\<lparr>core := f (core s)\<rparr>)"

definition server_serveStatic :: "string \<Rightarrow> string \<Rightarrow> 'w http_server \<Rightarrow> 'w http_server" where
  "server_serveStatic urlPrefix dir = server_configure (serveStatic urlPrefix dir)"

definition server_use :: "'w handler \<Rightarrow> 'w http_server \<Rightarrow> 'w http_server" where
  "server_use m = server_configure (use_middleware m)"

definition server_enableGzip :: "nat \<Rightarrow> 'w http_server \<Rightarrow> 'w http_server" where
  "server_enableGzip minSize = server_configure (enableGzip minSize)"

definition server_enableCors :: "string \<Rightarrow> 'w http_server \<Rightarrow> 'w http_server" where
  "server_enableCors origin = server_configure (enableCors origin)"

definition server_useRateLimit ::
  "int \<Rightarrow> ('a http_world_scheme) http_server \<Rightarrow> 'a http_world_scheme \<Rightarrow> ('a http_world_scheme) http_server \<times> 'a http_world_scheme" where
  "server_useRateLimit n s w =
     (if started s then (s, w) else let (c, w1) = useRateLimit n (core s) w in (s\<lparr>core := c\<rparr>, w1))"

definition server_enableMetrics ::
  "(string \<Rightarrow> bool) \<Rightarrow> (metrics \<Rightarrow> string) \<Rightarrow> string \<Rightarrow> ('a http_world_scheme) http_server \<Rightarrow> ('a http_world_scheme) http_server option" where
  "server_enableMetrics regex_ok prometheus p s =
     (if started s then Some s else map_option (\<lambda>c. s\<lparr>core := c\<rparr>) (enableMetrics regex_ok prometheus p (core s)))"

section \<open>Connections\<close>

text \<open>\<^verbatim>\<open>onConnection\<close>: the delay of the idle timer it starts, if any, and what the timer does when it fires.\<close>

definition server_onConnection :: "'w http_server \<Rightarrow> tcp_conn \<Rightarrow> rat option" where
  "server_onConnection s c =
     (if conn_state c = kConnected \<and> idleTimeoutSec s > 0 then Some (idleTimeoutSec s) else None)"

definition idle_expired :: "tcp_conn \<Rightarrow> tcp_conn" where
  "idle_expired c = (if conn_state c = kConnected then shutdown True c else c)"

section \<open>Messages\<close>

datatype conn_call = CallSend string | CallSendIov "string list" | CallSendFile int nat nat | CallShutdown

record server_env =
  env_gunzip :: "string \<Rightarrow> string"
  env_compress :: "string \<Rightarrow> string"
  env_regex_match :: "string \<Rightarrow> string \<Rightarrow> bool"
  env_fs :: file_system
  env_dirs :: "(string \<times> string) list"
  env_order :: "http_response \<Rightarrow> (string \<times> string) list"

text \<open>The response to one request: dispatch and post-processing.\<close>

definition respond :: "server_env \<Rightarrow> 'w http_core \<Rightarrow> http_request \<Rightarrow> 'w \<Rightarrow> http_response \<times> 'w \<times> fs_event list" where
  "respond env cor req w =
     (let (resp, w1, es) = handleRequest (env_regex_match env) (env_fs env) (env_dirs env) cor req HttpResponse_new w
      in (postProcessResponse (env_compress env) cor req resp, w1, es))"

definition response_calls :: "server_env \<Rightarrow> http_response \<Rightarrow> conn_call list" where
  "response_calls env resp =
     (if hasFileBody resp
      then [CallSend (toHeader (env_order env resp) resp), CallSendFile (bodyFileFd resp) 0 (bodyFileSize resp)]
      else if canSendIov resp then [CallSendIov [toHeader (env_order env resp) resp, resp_body resp]]
      else [CallSend (toString (env_order env resp) resp)])"

definition error_response :: http_response where
  "error_response = (badRequest ''Bad Request'')\<lparr>closeConnection := True\<rparr>"

function (sequential) server_loop ::
  "server_env \<Rightarrow> 'w http_core \<Rightarrow> buffer \<Rightarrow> 'w \<Rightarrow> buffer \<times> 'w \<times> conn_call list \<times> fs_event list" where
  "server_loop env cor buf w =
     (if readableBytes buf = 0 then (buf, w, [], [])
      else case parseRequest_buffer (env_gunzip env) buf HttpRequest_new of
             (ParseIncomplete, buf1, req) \<Rightarrow> (buf1, w, [], [])
           | (ParseError, buf1, req) \<Rightarrow>
               (buf1, w, [CallSend (toString (env_order env error_response) error_response), CallShutdown], [])
           | (Complete, buf1, req) \<Rightarrow>
               (let (resp, w1, es) = respond env cor req w in
                if deferred resp then (buf1, w1, [], es)
                else
                  (let resp1 = resp\<lparr>closeConnection := \<not> keepAlive req\<rparr>;
                       cs = response_calls env resp1 in
                   if closeConnection resp1 then (buf1, w1, cs @ [CallShutdown], es)
                   else
                     (let (buf2, w2, cs2, es2) = server_loop env cor buf1 w1
                      in (buf2, w2, cs @ cs2, es @ es2)))))"
  by pat_completeness auto

termination
  by (relation "measure (\<lambda>(env, cor, buf, w). readableBytes buf)") (auto dest: parse_consumes [OF sym])

declare server_loop.simps [simp del]

text \<open>The calls performed on the connection; \<open>io n\<close> holds the answers of the system to the \<open>n\<close>-th of them.\<close>

record io_answers =
  io_write :: "string \<Rightarrow> nat + nat"
  io_writev :: "string list \<Rightarrow> nat + nat"
  io_sendfile :: sendfile_answers

fun perform :: "kernel \<Rightarrow> (int \<Rightarrow> string) \<Rightarrow> io_answers \<Rightarrow> conn_call \<Rightarrow> tcp_conn \<Rightarrow> tcp_conn" where
  "perform accept disk io (CallSend msg) c = send accept True (io_write io) msg c"
| "perform accept disk io (CallSendIov slices) c = sendIov accept True (io_writev io) slices c"
| "perform accept disk io (CallSendFile fd off n) c = sendFile accept True (io_sendfile io) disk fd off n c"
| "perform accept disk io CallShutdown c = shutdown True c"

fun perform_all :: "kernel \<Rightarrow> (int \<Rightarrow> string) \<Rightarrow> (nat \<Rightarrow> io_answers) \<Rightarrow> conn_call list \<Rightarrow> tcp_conn \<Rightarrow> tcp_conn" where
  "perform_all accept disk io [] c = c"
| "perform_all accept disk io (x # xs) c = perform_all accept disk (\<lambda>n. io (Suc n)) xs (perform accept disk (io 0) x c)"

definition server_onMessage ::
  "kernel \<Rightarrow> (int \<Rightarrow> string) \<Rightarrow> (nat \<Rightarrow> io_answers) \<Rightarrow> server_env \<Rightarrow> 'w http_core \<Rightarrow> tcp_conn \<Rightarrow> 'w \<Rightarrow> tcp_conn \<times> 'w \<times> fs_event list" where
  "server_onMessage accept disk io env cor c w =
     (let (buf, w1, cs, es) = server_loop env cor (inputBuffer c) w
      in (perform_all accept disk io cs (c\<lparr>inputBuffer := buf\<rparr>), w1, es))"

section \<open>Pipelined requests\<close>

text \<open>A call of the client, as the arguments of \<^verbatim>\<open>buildRequest\<close>.\<close>

record client_call =
  call_host :: string
  call_headers :: "(string \<times> string) list"
  call_method :: string
  call_path :: string
  call_body :: string
  call_type :: string

definition call_text :: "client_call \<Rightarrow> string" where
  "call_text q = buildRequest (call_host q) (call_headers q) (call_method q) (call_path q) (call_body q) (call_type q)"

definition call_request :: "client_call \<Rightarrow> http_request" where
  "call_request q = parsed_call (call_host q) (call_headers q) (call_method q) (call_path q) (call_body q) (call_type q)"

text \<open>A call that prints cleanly and does not ask to close the connection.\<close>

definition clean_keep_call :: "client_call \<Rightarrow> bool" where
  "clean_keep_call q \<longleftrightarrow>
     clean_call (call_host q) (call_headers q) (call_method q) (call_path q) (call_body q) (call_type q) \<and>
     list_all (\<lambda>kv. tolower (fst kv) \<noteq> ''connection'') (call_headers q)"

text \<open>The specification: the requests are answered one after the other, in a world passed along.\<close>

fun serve_all :: "server_env \<Rightarrow> 'w http_core \<Rightarrow> http_request list \<Rightarrow> 'w \<Rightarrow> http_response list \<times> 'w \<times> fs_event list" where
  "serve_all env cor [] w = ([], w, [])"
| "serve_all env cor (req # reqs) w =
     (let (resp, w1, es) = respond env cor req w; (resps, w2, es2) = serve_all env cor reqs w1
      in (resp\<lparr>closeConnection := \<not> keepAlive req\<rparr> # resps, w2, es @ es2))"

lemma call_keepAlive:
  assumes "clean_keep_call q"
  shows "keepAlive (call_request q)"
proof -
  note c = assms [unfolded clean_keep_call_def]
  note f = parsed_call_fields [OF c [THEN conjunct1]]
  have "tolower ''connection'' = ''connection''" by code_simp
  moreover have "fold put_field (client_fields (call_host q) (call_headers q) (call_body q) (call_type q)) Map.empty ''connection'' = Some ''keep-alive''"
    using c by (simp add: client_fields_def put_fields_other list_all_iff tolower_fields)
  ultimately show ?thesis by (simp add: keepAlive_def call_request_def f getHeader_def)
qed

lemma call_text_nonempty: "call_text q \<noteq> []"
  by (simp add: call_text_def buildRequest_def)

lemma readable_nonempty: "Buffer_inv buf \<Longrightarrow> contents buf \<noteq> [] \<Longrightarrow> readableBytes buf \<noteq> 0"
  by (metis length_0_conv length_contents)

lemma server_loop_calls:
  assumes "list_all clean_keep_call qs" and "Buffer_inv buf" and "contents buf = concat (map call_text qs)"
    and "list_all (\<lambda>r. \<not> deferred r) (fst (serve_all env cor (map call_request qs) w))"
  shows "\<exists>buf'. Buffer_inv buf' \<and> contents buf' = [] \<and>
    server_loop env cor buf w =
      (let (resps, w1, es) = serve_all env cor (map call_request qs) w in (buf', w1, concat (map (response_calls env) resps), es))"
  using assms
proof (induction qs arbitrary: buf w)
  case Nil
  then have "readableBytes buf = 0" by (metis concat.simps(1) length_0_conv length_contents list.map(1))
  with Nil show ?case by (auto simp: server_loop.simps)
next
  case (Cons q qs)
  have c: "clean_call (call_host q) (call_headers q) (call_method q) (call_path q) (call_body q) (call_type q)"
    using Cons.prems(1) by (simp add: clean_keep_call_def)
  have e: "contents buf = buildRequest (call_host q) (call_headers q) (call_method q) (call_path q) (call_body q) (call_type q) @
      concat (map call_text qs)"
    using Cons.prems(3) unfolding call_text_def [of q, symmetric] by simp
  obtain buf1 where p: "parseRequest_buffer (env_gunzip env) buf HttpRequest_new = (Complete, buf1, call_request q)"
      "contents buf1 = concat (map call_text qs)" "Buffer_inv buf1"
    using parse_built_buffer [OF c Cons.prems(2) e, of "env_gunzip env"] unfolding call_request_def by blast
  obtain resp w1 es where r: "respond env cor (call_request q) w = (resp, w1, es)" by (cases "respond env cor (call_request q) w")
  obtain resps w2 es2 where rs: "serve_all env cor (map call_request qs) w1 = (resps, w2, es2)"
    by (cases "serve_all env cor (map call_request qs) w1")
  have ka: "keepAlive (call_request q)" using Cons.prems(1) by (simp add: call_keepAlive)
  have d: "\<not> deferred resp" "list_all (\<lambda>r. \<not> deferred r) resps" using Cons.prems(4) by (simp_all add: r rs)
  have ne: "readableBytes buf \<noteq> 0" using readable_nonempty [OF Cons.prems(2)] Cons.prems(3) call_text_nonempty [of q] by simp
  obtain buf' where "Buffer_inv buf'" "contents buf' = []"
      "server_loop env cor buf1 w1 = (buf', w2, concat (map (response_calls env) resps), es2)"
    using Cons.IH [OF _ p(3,2), of w1] Cons.prems(1) d(2) by (auto simp: rs)
  then show ?case
    using ne ka d(1) by (subst server_loop.simps) (auto simp: p(1) r rs Let_def)
qed

text \<open>A single request with clean fields.\<close>

lemma server_loop_fields:
  assumes "clean_fields meth pth fs bdy" and "Buffer_inv buf" and "contents buf = request_text (request_line meth pth # map field_line fs) bdy"
    and "respond env cor (fields_call meth pth fs bdy) w = (resp, w1, es)" and "\<not> deferred resp"
  defines "ka \<equiv> keepAlive (fields_call meth pth fs bdy)"
  shows "\<exists>buf'. contents buf' = [] \<and>
    server_loop env cor buf w = (buf', w1, response_calls env (resp\<lparr>closeConnection := \<not> ka\<rparr>) @ (if ka then [] else [CallShutdown]), es)"
proof -
  obtain res buf1 r where p: "parseRequest_buffer (env_gunzip env) buf HttpRequest_new = (res, buf1, r)"
    by (cases "parseRequest_buffer (env_gunzip env) buf HttpRequest_new")
  have q: "res = Complete" "r = fields_call meth pth fs bdy" "contents buf1 = []" "Buffer_inv buf1"
    using parse_buffer_string [OF assms(2), of "env_gunzip env" HttpRequest_new] parse_fields_string [OF assms(1), of "env_gunzip env" "[]"] p
    by (simp_all add: assms(3))
  have "contents buf \<noteq> []" by (simp add: assms(3) request_text_def)
  then have ne: "readableBytes buf \<noteq> 0" by (rule readable_nonempty [OF assms(2)])
  have "readableBytes buf1 = 0" using length_contents [OF q(4)] q(3) by simp
  then have e: "server_loop env cor buf1 w1 = (buf1, w1, [], [])" by (subst server_loop.simps) simp
  show ?thesis
    using ne assms(5) q(3) by (subst server_loop.simps) (auto simp: p q(1,2) assms(4) e Let_def ka_def)
qed

section \<open>Answers on the wire\<close>

fun call_bytes :: "conn_call \<Rightarrow> string" where
  "call_bytes (CallSend msg) = msg"
| "call_bytes (CallSendIov slices) = concat slices"
| "call_bytes _ = []"

fun plain_send :: "io_answers \<Rightarrow> conn_call \<Rightarrow> bool" where
  "plain_send io (CallSend msg) = honest_write (io_write io) length msg"
| "plain_send io (CallSendIov slices) = (length slices \<le> kMaxIov \<and> honest_write (io_writev io) (length \<circ> concat) slices)"
| "plain_send io _ = False"

lemma inputBuffer_sendInLoop [simp]: "inputBuffer (sendInLoop accept write msg c) = inputBuffer c"
  by (simp add: sendInLoop_def conn_defs Let_def split: sum.split)

lemma inputBuffer_sendIov [simp]: "inputBuffer (sendIov accept True writev slices c) = inputBuffer c"
  by (simp add: sendIov_def conn_defs Let_def split: sum.split)

lemma perform_plain:
  fixes accept :: kernel
  assumes "conn_inv disk acc c" and "conn_state c = kConnected" and "pendingFiles c = []" and "plain_send io x"
  defines "c' \<equiv> perform accept disk io x c"
  shows "conn_inv disk (acc @ call_bytes x) c'" "conn_state c' = kConnected" "pendingFiles c' = []"
    "inputBuffer c' = inputBuffer c"
proof -
  have "streams (call_bytes x) c c' \<and> inputBuffer c' = inputBuffer c"
  proof (cases x)
    case (CallSend msg)
    then show ?thesis
      using assms sendInLoop_streams [of c "io_write io" msg accept] by (auto simp: c'_def send_def conn_inv_def)
  next
    case (CallSendIov slices)
    then show ?thesis
      using assms sendIov_streams [OF conn_inv_backlog [OF assms(1)], of slices "io_writev io" accept] by (auto simp: c'_def)
  qed (use assms in auto)
  then show "conn_inv disk (acc @ call_bytes x) c'" "conn_state c' = kConnected" "pendingFiles c' = []"
      "inputBuffer c' = inputBuffer c"
    using conn_inv_streams [OF assms(1) _ assms(3)] assms(2,3) by (auto simp: streams_def)
qed

lemma perform_all_plain:
  assumes "conn_inv disk acc c" and "conn_state c = kConnected" and "pendingFiles c = []"
    and "\<forall>i < length xs. plain_send (io i) (xs ! i)"
  shows "conn_inv disk (acc @ concat (map call_bytes xs)) (perform_all accept disk io xs c) \<and>
    conn_state (perform_all accept disk io xs c) = kConnected \<and> pendingFiles (perform_all accept disk io xs c) = [] \<and>
    inputBuffer (perform_all accept disk io xs c) = inputBuffer c"
  using assms
proof (induction xs arbitrary: c acc io)
  case (Cons x xs)
  have x: "plain_send (io 0) x" and xs: "\<forall>i < length xs. plain_send (io (Suc i)) (xs ! i)"
    using Cons.prems(4) by (auto simp: nth_Cons split: nat.splits)
  note p = perform_plain [OF Cons.prems(1-3) x, of accept]
  from Cons.IH [OF p(1-3), of "\<lambda>n. io (Suc n)"] xs p(4) show ?case by simp
qed simp

text \<open>The bytes of a response that has no file body, whichever of the two ways it is sent.\<close>

lemma response_calls_bytes:
  "\<not> hasFileBody r \<Longrightarrow> concat (map call_bytes (response_calls env r)) = toString (env_order env r) r"
  by (auto simp: response_calls_def canSendIov_def toString_def toHeader_def)

lemma responses_calls_bytes:
  "list_all (\<lambda>r. \<not> hasFileBody r) rs \<Longrightarrow>
     concat (map call_bytes (concat (map (response_calls env) rs))) = concat (map (\<lambda>r. toString (env_order env r) r) rs)"
  by (induction rs) (auto simp: response_calls_bytes)

section \<open>Properties\<close>


text \<open>A small server and a call, for the examples.\<close>

definition sample_core :: "nat http_core" where
  "sample_core = HttpCore_new\<lparr>exactRoutes := [''/a'' \<mapsto> [GET \<mapsto> (\<lambda>q r w. (setText ''hi'' r, Suc w))]]\<rparr>"

definition sample_env :: server_env where
  "sample_env = \<lparr>env_gunzip = (\<lambda>s. []), env_compress = (\<lambda>s. []), env_regex_match = (\<lambda>p s. False),
     env_fs = \<lparr>realpath = (\<lambda>_. None), fs_open = (\<lambda>_. -1), fstat = (\<lambda>_. None)\<rparr>, env_dirs = [],
     env_order = (\<lambda>r. [(''Content-Type'', ''text/plain; charset=utf-8''), (''Content-Length'', ''2'')])\<rparr>"

definition sample_call :: client_call where
  "sample_call = \<lparr>call_host = ''h'', call_headers = [], call_method = ''GET'', call_path = ''/a'', call_body = [], call_type = []\<rparr>"

definition sample_response :: http_response where
  "sample_response = (setText ''hi'' HttpResponse_new)\<lparr>closeConnection := False\<rparr>"

lemma sample_call_clean: "clean_keep_call sample_call"
  by (simp add: clean_keep_call_def sample_call_def clean_call_def client_fields_def field_ok_def request_line_def
      kMaxRequestLine_def kMaxBodySize_def)

lemma sample_respond: "respond sample_env sample_core (call_request sample_call) w = (setText ''hi'' HttpResponse_new, Suc w, [])"
proof -
  have c: "clean_call ''h'' [] ''GET'' ''/a'' [] []" using sample_call_clean by (simp add: clean_keep_call_def sample_call_def)
  have "path (call_request sample_call) = ''/a''" "req_method (call_request sample_call) = GET"
    using parsed_call_fields(1,2) [OF c] by (simp_all add: call_request_def sample_call_def stringToMethod_def)
  then show ?thesis
    by (simp add: respond_def handleRequest_def sample_core_def HttpCore_new_def exact_handler_def postProcessResponse_def)
qed

lemma sample_serve: "serve_all sample_env sample_core [call_request sample_call] w = ([sample_response], Suc w, [])"
  by (simp add: sample_respond sample_response_def call_keepAlive [OF sample_call_clean])

lemma sample_response_fields:
  "\<not> deferred sample_response" "\<not> hasFileBody sample_response" "\<not> chunked sample_response"
  by (simp_all add: sample_response_def setText_def setBody_def setContentType_def setContentLength_def HttpResponse_new_def hasFileBody_def)


end
