(* ===== verification/WsServerModel.thy ===== *)
theory WsServerModel
  imports Complex_Main WsFrame HttpReq NetBuffer "HOL-Library.List_Lexorder" "HOL-Library.Char_ord"
begin

text \<open>
  \<^verbatim>\<open>src/websocket/WsSession.h\<close> and \<^verbatim>\<open>src/websocket/WebSocketServer.h\<close>: the session state machine, the handshake and
  the frame loop of the server.  The connection is seen through what the session uses of it: whether it is connected, what
  is sent and whether it was shut down.  Application callbacks may call any operation of the session: the parameter \<open>app\<close> gives,
  for each callback, the operations it performs.  SHA-1, the handshake validator and the clock are parameters.
\<close>

section \<open>Bytes\<close>

definition bytes_of :: "string \<Rightarrow> u8 list" where
  "bytes_of s = map (\<lambda>c. of_nat (of_char c)) s"

definition string_of :: "u8 list \<Rightarrow> string" where
  "string_of bs = map (\<lambda>b. char_of (unat b)) bs"

lemma string_of_bytes_of [simp]: "string_of (bytes_of s) = s"
proof -
  have "unat (of_nat (of_char c) :: u8) = of_char c" for c :: char
    using unat_of_nat [of "of_char c", where ?'a = 8] by simp
  then show ?thesis by (induction s) (simp_all add: string_of_def bytes_of_def)
qed

lemma bytes_of_string_of [simp]: "bytes_of (string_of bs) = bs"
proof -
  have "(of_nat (of_char (char_of (unat b) :: char)) :: u8) = b" for b :: u8
  proof -
    have "unat b < 2 ^ LENGTH(8)" by (rule unsigned_less)
    then show ?thesis by simp
  qed
  then show ?thesis by (induction bs) (simp_all add: string_of_def bytes_of_def)
qed

lemma length_bytes_of [simp]: "length (bytes_of s) = length s"
  by (simp add: bytes_of_def)

lemma length_string_of [simp]: "length (string_of bs) = length bs"
  by (simp add: string_of_def)

lemma bytes_of_append [simp]: "bytes_of (s @ t) = bytes_of s @ bytes_of t"
  by (simp add: bytes_of_def)

lemma string_of_Nil [simp]: "string_of [] = []"
  by (simp add: string_of_def)

lemma string_of_append [simp]: "string_of (s @ t) = string_of s @ string_of t"
  by (simp add: string_of_def)

section \<open>Sessions\<close>

datatype WsState = Connecting | Open | Closing | Closed

datatype ws_out = OutHttp string | OutFrame "u8 list"

datatype ws_call = OnOpen | OnMessage u8 "u8 list" | OnClose | OnError string

record ws_session =
  sess_state :: WsState
  lastActivityMs :: int
  context_of :: "string \<rightharpoonup> string"
  conn_up :: bool
  sess_out :: "ws_out list"
  sess_calls :: "ws_call list"

definition WsSession_new :: "int \<Rightarrow> ws_session" where
  "WsSession_new now = \<lparr>sess_state = Connecting, lastActivityMs = now, context_of = Map.empty, conn_up = True,
     sess_out = [], sess_calls = []\<rparr>"

text \<open>\<^verbatim>\<open>conn->send\<close> and \<^verbatim>\<open>conn->shutdown\<close>, as far as a session can see them.\<close>

definition conn_send :: "ws_out \<Rightarrow> ws_session \<Rightarrow> ws_session" where
  "conn_send x s = (if conn_up s then s\<lparr>sess_out := sess_out s @ [x]\<rparr> else s)"

definition conn_shutdown :: "ws_session \<Rightarrow> ws_session" where
  "conn_shutdown s = s\<lparr>conn_up := False\<rparr>"

definition sendRaw :: "u8 list \<Rightarrow> ws_session \<Rightarrow> ws_session" where
  "sendRaw data s = (if conn_up s then conn_send (OutFrame data) s else s)"

definition sendText :: "u8 list \<Rightarrow> ws_session \<Rightarrow> ws_session" where
  "sendText text s = (if sess_state s \<noteq> Open then s else sendRaw (encodeText text) s)"

definition sendBinary :: "u8 list \<Rightarrow> ws_session \<Rightarrow> ws_session" where
  "sendBinary data s = (if sess_state s \<noteq> Open then s else sendRaw (encodeBinary data) s)"

definition ws_ping :: "u8 list \<Rightarrow> ws_session \<Rightarrow> ws_session" where
  "ws_ping data s = (if sess_state s \<noteq> Open then s else sendRaw (encodePing data) s)"

definition ws_pong :: "u8 list \<Rightarrow> ws_session \<Rightarrow> ws_session" where
  "ws_pong data s = (if sess_state s \<noteq> Open then s else sendRaw (encodePong data) s)"

definition ws_close :: "u16 \<Rightarrow> u8 list \<Rightarrow> ws_session \<Rightarrow> ws_session" where
  "ws_close code reason s =
     (if sess_state s = Closed \<or> sess_state s = Closing then s
      else conn_shutdown (sendRaw (encodeClose code reason) (s\<lparr>sess_state := Closing\<rparr>)))"

definition forceClose :: "ws_session \<Rightarrow> ws_session" where
  "forceClose s = (if sess_state s = Closed then s else conn_shutdown (s\<lparr>sess_state := Closed\<rparr>))"

definition setContext :: "string \<Rightarrow> string \<Rightarrow> ws_session \<Rightarrow> ws_session" where
  "setContext key value s = s\<lparr>context_of := (context_of s)(key \<mapsto> value)\<rparr>"

definition getContext :: "string \<Rightarrow> string \<Rightarrow> ws_session \<Rightarrow> string" where
  "getContext key dflt s = (case context_of s key of Some v \<Rightarrow> v | None \<Rightarrow> dflt)"

definition updateActivity :: "int \<Rightarrow> ws_session \<Rightarrow> ws_session" where
  "updateActivity now s = s\<lparr>lastActivityMs := now\<rparr>"

definition idleTimeMs :: "int \<Rightarrow> ws_session \<Rightarrow> int" where
  "idleTimeMs now s = now - lastActivityMs s"

text \<open>What application code may do with a session inside a callback.\<close>

datatype ws_op = OpSendText "u8 list" | OpSendBinary "u8 list" | OpPing "u8 list" | OpPong "u8 list"
  | OpClose u16 "u8 list" | OpForceClose | OpSetContext string string

fun exec_op :: "ws_op \<Rightarrow> ws_session \<Rightarrow> ws_session" where
  "exec_op (OpSendText t) s = sendText t s"
| "exec_op (OpSendBinary d) s = sendBinary d s"
| "exec_op (OpPing d) s = ws_ping d s"
| "exec_op (OpPong d) s = ws_pong d s"
| "exec_op (OpClose c r) s = ws_close c r s"
| "exec_op OpForceClose s = forceClose s"
| "exec_op (OpSetContext k v) s = setContext k v s"

definition ws_callback :: "(ws_call \<Rightarrow> ws_op list) \<Rightarrow> ws_call \<Rightarrow> ws_session \<Rightarrow> ws_session" where
  "ws_callback app x s = fold exec_op (app x) (s\<lparr>sess_calls := sess_calls s @ [x]\<rparr>)"

definition handleMessage :: "(ws_call \<Rightarrow> ws_op list) \<Rightarrow> u8 \<Rightarrow> u8 list \<Rightarrow> ws_session \<Rightarrow> ws_session" where
  "handleMessage app opc data s = ws_callback app (OnMessage opc data) s"

definition ws_handleClose :: "(ws_call \<Rightarrow> ws_op list) \<Rightarrow> ws_session \<Rightarrow> ws_session" where
  "ws_handleClose app s =
     (if sess_state s = Closed then s else ws_callback app OnClose (s\<lparr>sess_state := Closed\<rparr>))"

definition ws_handleError :: "(ws_call \<Rightarrow> ws_op list) \<Rightarrow> string \<Rightarrow> ws_session \<Rightarrow> ws_session" where
  "ws_handleError app err s = ws_callback app (OnError err) s"

section \<open>Handshake\<close>

record ws_config =
  maxMessageSize :: int
  idleTimeoutMs :: int
  enablePingPong :: bool
  pingIntervalMs :: int

definition WebSocketConfig_new :: ws_config where
  "WebSocketConfig_new = \<lparr>maxMessageSize = 10 * 1024 * 1024, idleTimeoutMs = 60000, enablePingPong = True, pingIntervalMs = 30000\<rparr>"

record ws_env =
  env_sha1 :: "string \<Rightarrow> u8 list"
  env_validator :: "(string \<Rightarrow> (string \<times> string) list \<Rightarrow> bool) option"
  env_app :: "ws_call \<Rightarrow> ws_op list"
  env_config :: ws_config
  env_now :: int

text \<open>A \<^verbatim>\<open>std::map\<close> of headers is the list of its entries in the order of the keys.\<close>

fun std_insert :: "string \<Rightarrow> string \<Rightarrow> (string \<times> string) list \<Rightarrow> (string \<times> string) list" where
  "std_insert k v [] = [(k, v)]"
| "std_insert k v ((k', v') # m) =
     (if k = k' then (k, v) # m else if k < k' then (k, v) # (k', v') # m else (k', v') # std_insert k v m)"

definition trim_chars :: "char \<Rightarrow> bool" where
  "trim_chars c \<longleftrightarrow> c = SP \<or> c = CHR 0x09 \<or> c = CR \<or> c = LF"

definition ws_trim :: "string \<Rightarrow> string" where
  "ws_trim s = rev (dropWhile trim_chars (rev (dropWhile trim_chars s)))"

definition ws_header_step :: "string \<Rightarrow> (string \<times> string) list \<Rightarrow> (string \<times> string) list" where
  "ws_header_step line m =
     (case find_char (CHR '':'') line 0 of
        None \<Rightarrow> m
      | Some colonPos \<Rightarrow> std_insert (ws_trim (substr line 0 colonPos)) (ws_trim (substr_from line (colonPos + 1))) m)"

definition ws_parseHeaders :: "string \<Rightarrow> (string \<times> string) list" where
  "ws_parseHeaders header = lines_loop ws_header_step header 0 []"

fun ws_getHeader :: "(string \<times> string) list \<Rightarrow> string \<Rightarrow> string" where
  "ws_getHeader [] key = []"
| "ws_getHeader ((k, v) # m) key = (if tolower k = tolower key then v else ws_getHeader m key)"

definition bad_request_text :: "string \<Rightarrow> string" where
  "bad_request_text msg =
     ''HTTP/1.1 400 Bad Request'' @ CRLF @ ''Content-Type: text/plain'' @ CRLF @
     ''Content-Length: '' @ to_string (length msg) @ CRLF @ ''Connection: close'' @ CRLF @ CRLF @ msg"

definition sendBadRequest :: "string \<Rightarrow> ws_session \<Rightarrow> ws_session" where
  "sendBadRequest msg s = conn_shutdown (conn_send (OutHttp (bad_request_text msg)) s)"

definition sendForbidden :: "ws_session \<Rightarrow> ws_session" where
  "sendForbidden s =
     conn_shutdown (conn_send (OutHttp (''HTTP/1.1 403 Forbidden'' @ CRLF @ ''Content-Type: text/plain'' @ CRLF @
       ''Content-Length: '' @ to_string (length ''Forbidden'') @ CRLF @ ''Connection: close'' @ CRLF @ CRLF @ ''Forbidden'')) s)"

definition switching_text :: "string \<Rightarrow> string" where
  "switching_text acceptKey =
     ''HTTP/1.1 101 Switching Protocols'' @ CRLF @ ''Upgrade: websocket'' @ CRLF @ ''Connection: Upgrade'' @ CRLF @
     ''Sec-WebSocket-Accept: '' @ acceptKey @ CRLF @ CRLF"

definition upgrade_session :: "ws_env \<Rightarrow> string \<Rightarrow> string \<Rightarrow> ws_session \<Rightarrow> ws_session" where
  "upgrade_session env pth wsKey s =
     (let s1 = conn_send (OutHttp (switching_text (computeAcceptKey (env_sha1 env) wsKey))) s;
          s2 = setContext ''path'' pth (updateActivity (env_now env) (s1\<lparr>sess_state := Open\<rparr>))
      in ws_callback (env_app env) OnOpen s2)"

definition handleHandshake :: "ws_env \<Rightarrow> ws_session \<Rightarrow> buffer \<Rightarrow> bool \<times> ws_session \<times> buffer" where
  "handleHandshake env s buf =
     (let request = take (readableBytes buf) (peek buf) in
      case find_str (CRLF @ CRLF) request 0 of
        None \<Rightarrow> (False, s, buf)
      | Some headerEnd \<Rightarrow>
          (let buf1 = retrieve buf (headerEnd + 4) in
           case find_str CRLF request 0 of
             None \<Rightarrow> (False, sendBadRequest ''Invalid HTTP request'' s, buf1)
           | Some firstLineEnd \<Rightarrow>
               (let requestLine = substr request 0 firstLineEnd in
                case find_char SP requestLine 0 of
                  None \<Rightarrow> (False, sendBadRequest ''Invalid request line'' s, buf1)
                | Some spacePos1 \<Rightarrow>
                    (case find_char SP requestLine (spacePos1 + 1) of
                       None \<Rightarrow> (False, sendBadRequest ''Invalid request line'' s, buf1)
                     | Some spacePos2 \<Rightarrow>
                         (let pth = substr requestLine (spacePos1 + 1) (spacePos2 - spacePos1 - 1);
                              headerSection = substr request (firstLineEnd + 2) (size_minus (size_minus headerEnd firstLineEnd) 2);
                              hs = ws_parseHeaders headerSection;
                              upgrade = ws_getHeader hs ''Upgrade'';
                              connection = ws_getHeader hs ''Connection'';
                              wsKey = ws_getHeader hs ''Sec-WebSocket-Key'' in
                          if tolower upgrade \<noteq> ''websocket''
                          then (False, sendBadRequest ''Missing or invalid Upgrade header'' s, buf1)
                          else if \<not> contains ''upgrade'' (tolower connection)
                          then (False, sendBadRequest ''Missing or invalid Connection header'' s, buf1)
                          else if wsKey = []
                          then (False, sendBadRequest ''Missing Sec-WebSocket-Key header'' s, buf1)
                          else if (case env_validator env of None \<Rightarrow> False | Some v \<Rightarrow> \<not> v pth hs)
                          then (False, sendForbidden s, buf1)
                          else (True, upgrade_session env pth wsKey s, buf1))))))"

section \<open>Frames\<close>

text \<open>\<^verbatim>\<open>static_cast<int>\<close> of a size.\<close>

definition int_of_size :: "nat \<Rightarrow> int" where
  "int_of_size n = sint (of_nat n :: u32)"

definition too_large :: "ws_config \<Rightarrow> ws_frame \<Rightarrow> bool" where
  "too_large cfg f \<longleftrightarrow> maxMessageSize cfg > 0 \<and> int_of_size (length (payload f)) > maxMessageSize cfg"

definition dispatch_frame :: "ws_env \<Rightarrow> ws_frame \<Rightarrow> ws_session \<Rightarrow> ws_session" where
  "dispatch_frame env f s =
     (if opcode f = WsText \<or> opcode f = WsBinary then handleMessage (env_app env) (opcode f) (payload f) s
      else if opcode f = WsPing then ws_pong (payload f) s
      else if opcode f = WsPong then s
      else if opcode f = WsClose then ws_close 1000 [] s
      else s)"

definition reject_large :: "ws_env \<Rightarrow> ws_session \<Rightarrow> ws_session" where
  "reject_large env s =
     ws_close 1009 (bytes_of ''Message too large'') (ws_handleError (env_app env) ''Message too large'' s)"

text \<open>\<^verbatim>\<open>handleWsFrames\<close>: \<open>None\<close> when \<^verbatim>\<open>decode\<close> throws.\<close>

function handleWsFrames :: "ws_env \<Rightarrow> ws_session \<Rightarrow> buffer \<Rightarrow> (ws_session \<times> buffer) option" where
  "handleWsFrames env s buf =
     (if readableBytes buf = 0 then Some (s, buf)
      else case decode (bytes_of (take (readableBytes buf) (peek buf))) of
             Incomplete \<Rightarrow> Some (s, buf)
           | Throws \<Rightarrow> None
           | Ok f consumed \<Rightarrow>
               (let buf1 = retrieve buf (unat consumed); s1 = updateActivity (env_now env) s in
                if too_large (env_config env) f then Some (reject_large env s1, buf1)
                else handleWsFrames env (dispatch_frame env f s1) buf1))"
  by pat_completeness auto

termination
  by (relation "measure (\<lambda>(env, s, buf). readableBytes buf)")
    (auto simp: retrieve_def retrieveAll_def readableBytes_def dest: decode_positive split: if_splits)

declare handleWsFrames.simps [simp del]

section \<open>The server\<close>

text \<open>
  Both maps of the server hold pointers to sessions; a session is a number in a store.  The iteration order of the
  unordered map of sessions is the list of names \<open>order\<close>.  The timers given to the event loop are recorded with their
  delay in seconds, a real number here.
\<close>

datatype ws_timer = PingTimer real | IdleTimer real | QuitTimer real

record ws_server =
  ws_cfg :: ws_config
  ws_started :: bool
  tcp_listening :: bool
  ws_timers :: "ws_timer list"
  sess_store :: "nat \<Rightarrow> ws_session"
  next_session :: nat
  sessions :: "string \<rightharpoonup> nat"
  connSessions :: "string \<rightharpoonup> nat"

definition WebSocketServer_new :: ws_server where
  "WebSocketServer_new = \<lparr>ws_cfg = WebSocketConfig_new, ws_started = False, tcp_listening = False, ws_timers = [],
     sess_store = (\<lambda>_. WsSession_new 0), next_session = 0, sessions = Map.empty, connSessions = Map.empty\<rparr>"

definition setConfig :: "ws_config \<Rightarrow> ws_server \<Rightarrow> ws_server" where
  "setConfig cfg srv = (if ws_started srv then srv else srv\<lparr>ws_cfg := cfg\<rparr>)"

definition ws_start :: "ws_server \<Rightarrow> ws_server" where
  "ws_start srv =
     (if ws_started srv then srv
      else srv\<lparr>ws_started := True, tcp_listening := True,
             ws_timers := ws_timers srv @
               (if enablePingPong (ws_cfg srv) \<and> pingIntervalMs (ws_cfg srv) > 0 then [PingTimer (pingIntervalMs (ws_cfg srv) / 1000)] else []) @
               (if idleTimeoutMs (ws_cfg srv) > 0 then [IdleTimer (idleTimeoutMs (ws_cfg srv) / 2000)] else [])\<rparr>)"

definition getAllSessions :: "string list \<Rightarrow> ws_server \<Rightarrow> nat list" where
  "getAllSessions order srv =
     filter (\<lambda>i. sess_state (sess_store srv i) = Open) (List.map_filter (sessions srv) order)"

definition sessionCount :: "ws_server \<Rightarrow> nat" where
  "sessionCount srv = card (dom (sessions srv))"

definition on_session :: "(ws_session \<Rightarrow> ws_session) \<Rightarrow> nat \<Rightarrow> ws_server \<Rightarrow> ws_server" where
  "on_session f i srv = srv\<lparr>sess_store := (sess_store srv)(i := f (sess_store srv i))\<rparr>"

definition broadcast :: "string list \<Rightarrow> u8 list \<Rightarrow> ws_server \<Rightarrow> ws_server" where
  "broadcast order message srv = fold (on_session (sendText message)) (getAllSessions order srv) srv"

definition broadcastBinary :: "string list \<Rightarrow> u8 list \<Rightarrow> ws_server \<Rightarrow> ws_server" where
  "broadcastBinary order data srv = fold (on_session (sendBinary data)) (getAllSessions order srv) srv"

definition ping_timer :: "string list \<Rightarrow> ws_server \<Rightarrow> ws_server" where
  "ping_timer order srv = fold (on_session (ws_ping [])) (getAllSessions order srv) srv"

definition idle_timer :: "int \<Rightarrow> string list \<Rightarrow> ws_server \<Rightarrow> ws_server" where
  "idle_timer now order srv =
     fold (on_session (\<lambda>s. if idleTimeMs now s > idleTimeoutMs (ws_cfg srv) then ws_close 1000 (bytes_of ''Idle timeout'') s else s))
       (getAllSessions order srv) srv"

definition ws_shutdown :: "real \<Rightarrow> string list \<Rightarrow> ws_server \<Rightarrow> ws_server" where
  "ws_shutdown timeoutSec order srv =
     (let srv1 = srv\<lparr>ws_started := False\<rparr>;
          srv2 = fold (on_session (ws_close 1001 (bytes_of ''Server shutting down''))) (getAllSessions order srv1) srv1
      in srv2\<lparr>ws_timers := ws_timers srv2 @ [QuitTimer timeoutSec]\<rparr>)"

definition ws_onConnection :: "ws_env \<Rightarrow> bool \<Rightarrow> string \<Rightarrow> ws_server \<Rightarrow> ws_server" where
  "ws_onConnection env up name srv =
     (if up
      then let i = next_session srv in
        srv\<lparr>sess_store := (sess_store srv)(i := WsSession_new (env_now env)), next_session := i + 1,
            sessions := (sessions srv)(name \<mapsto> i), connSessions := (connSessions srv)(name \<mapsto> i)\<rparr>
      else let srv1 = srv\<lparr>sessions := (sessions srv)(name := None), connSessions := (connSessions srv)(name := None)\<rparr> in
        case sessions srv name of
          None \<Rightarrow> srv1
        | Some i \<Rightarrow> on_session (\<lambda>s. ws_handleClose (env_app env) (s\<lparr>conn_up := False\<rparr>)) i srv1)"

text \<open>\<^verbatim>\<open>onMessage\<close>: the connection is shut down when it has no session (the first result); \<open>None\<close> when \<^verbatim>\<open>decode\<close> throws.\<close>

definition ws_onMessage :: "ws_env \<Rightarrow> string \<Rightarrow> buffer \<Rightarrow> ws_server \<Rightarrow> (bool \<times> buffer \<times> ws_server) option" where
  "ws_onMessage env name buf srv =
     (case connSessions srv name of
        None \<Rightarrow> Some (True, buf, srv)
      | Some i \<Rightarrow>
          (let s = sess_store srv i; env1 = env\<lparr>env_config := ws_cfg srv\<rparr> in
           if sess_state s = Connecting
           then let (ok, s1, buf1) = handleHandshake env1 s buf in Some (False, buf1, on_session (\<lambda>_. s1) i srv)
           else if sess_state s = Open
           then map_option (\<lambda>(s1, buf1). (False, buf1, on_session (\<lambda>_. s1) i srv)) (handleWsFrames env1 s buf)
           else Some (False, buf, srv)))"

section \<open>Nothing after the close frame\<close>

definition is_close_out :: "ws_out \<Rightarrow> bool" where
  "is_close_out x = (case x of OutHttp _ \<Rightarrow> False | OutFrame bs \<Rightarrow> hd bs AND 0x0F = WsClose)"

text \<open>The invariant of a session: a close frame is the last thing sent, and once it is sent the session is closing.\<close>

definition close_last :: "ws_session \<Rightarrow> bool" where
  "close_last s \<longleftrightarrow>
     (\<forall>x \<in> set (butlast (sess_out s)). \<not> is_close_out x) \<and>
     (sess_out s \<noteq> [] \<and> is_close_out (last (sess_out s)) \<longrightarrow> sess_state s \<in> {Closing, Closed})"

lemma hd_encode: "hd (encode f msk key) AND 0x0F = opcode f AND 0x0F"
proof (rule bit_word_eqI)
  fix n :: nat assume "n < LENGTH(8)"
  have m: "bit (0x0F :: u8) n \<longleftrightarrow> n < 4"
    using bit_mask_iff [of 4 n, where ?'a = "8 word"] \<open>n < LENGTH(8)\<close> by (simp add: mask_eq_exp_minus_1)
  have h: "bit (0x80 :: u8) n \<longleftrightarrow> n = 7"
    using bit_exp_iff [of 7 n, where ?'a = "8 word"] by auto
  show "bit (hd (encode f msk key) AND 0x0F) n = bit (opcode f AND 0x0F) n"
    using m h by (auto simp: encode_def Let_def bit_and_iff bit_or_iff bit_push_bit_iff)
qed

lemma encode_nonempty [simp]: "encode f m key \<noteq> []"
  by (simp add: encode_def Let_def)

lemma encodeRaw_frame: "encodeRaw opc pl fn msk key = encode (WebSocketFrame_new\<lparr>fin := fn, opcode := opc, payload := pl\<rparr>) msk key"
  by (simp add: encodeRaw_def encode_def WebSocketFrame_new_def)

lemma is_close_out_frames [simp]:
  "\<not> is_close_out (OutHttp t)" "\<not> is_close_out (OutFrame (encodeText d))" "\<not> is_close_out (OutFrame (encodeBinary d))"
  "\<not> is_close_out (OutFrame (encodePing d))" "\<not> is_close_out (OutFrame (encodePong d))"
  by (simp_all add: is_close_out_def encodeText_def encodeBinary_def encodePing_def encodePong_def encodeRaw_frame hd_encode ws_opcodes)

text \<open>The order of the states.\<close>

fun state_rank :: "WsState \<Rightarrow> nat" where
  "state_rank Connecting = 0"
| "state_rank Open = 1"
| "state_rank Closing = 2"
| "state_rank Closed = 3"

definition forward :: "ws_session \<Rightarrow> ws_session \<Rightarrow> bool" where
  "forward s s' \<longleftrightarrow> state_rank (sess_state s) \<le> state_rank (sess_state s') \<and> (close_last s \<longrightarrow> close_last s')"

lemma forward_refl [simp]: "forward s s"
  by (simp add: forward_def)

lemma forward_trans: "forward s t \<Longrightarrow> forward t u \<Longrightarrow> forward s u"
  by (auto simp: forward_def)

lemma close_last_append:
  assumes "close_last s" and "sess_state s \<noteq> Closing" and "sess_state s \<noteq> Closed"
  shows "\<forall>x \<in> set (sess_out s). \<not> is_close_out x"
proof (cases "sess_out s" rule: rev_cases)
  case (snoc ys y)
  then show ?thesis using assms by (cases "sess_state s") (auto simp: close_last_def)
qed simp

lemma conn_send_forward:
  assumes "sess_state s = Connecting \<or> sess_state s = Open" and "\<not> is_close_out x"
  shows "forward s (conn_send x s)"
proof -
  have "close_last (conn_send x s)" if "close_last s"
    using close_last_append [OF that] assms by (auto simp: conn_send_def close_last_def that [unfolded close_last_def])
  then show ?thesis by (auto simp: forward_def conn_send_def)
qed

lemma ops_forward:
  "forward s (sendText d s)" "forward s (sendBinary d s)" "forward s (ws_ping d s)" "forward s (ws_pong d s)"
  by (auto simp: sendText_def sendBinary_def ws_ping_def ws_pong_def sendRaw_def intro: conn_send_forward)

lemma ws_close_forward: "forward s (ws_close c r s)"
proof (cases "sess_state s = Closed \<or> sess_state s = Closing")
  case False
  then have "sess_state s = Connecting \<or> sess_state s = Open" by (cases "sess_state s") auto
  moreover have "close_last (ws_close c r s)" if "close_last s"
    using close_last_append [OF that] False
    by (auto simp: ws_close_def conn_shutdown_def sendRaw_def conn_send_def close_last_def dest: in_set_butlastD)
  ultimately show ?thesis
    by (auto simp: forward_def ws_close_def conn_shutdown_def sendRaw_def conn_send_def)
qed (simp add: ws_close_def)

lemma forceClose_forward: "forward s (forceClose s)"
  by (cases "sess_state s") (auto simp: forward_def forceClose_def conn_shutdown_def close_last_def)

lemma exec_op_forward: "forward s (exec_op x s)"
  by (cases x) (simp_all add: ops_forward ws_close_forward forceClose_forward, simp add: forward_def setContext_def close_last_def)

lemma fold_exec_forward: "forward s (fold exec_op xs s)"
  by (induction xs arbitrary: s) (auto intro: forward_trans exec_op_forward)

lemma ws_callback_forward: "forward s (ws_callback app x s)"
proof -
  have "forward s (s\<lparr>sess_calls := sess_calls s @ [x]\<rparr>)" by (simp add: forward_def close_last_def)
  then show ?thesis unfolding ws_callback_def by (rule forward_trans) (rule fold_exec_forward)
qed

lemma conn_shutdown_forward [simp]: "forward s (conn_shutdown s)"
  by (simp add: forward_def conn_shutdown_def close_last_def)

lemma updateActivity_forward [simp]: "forward s (updateActivity now s)"
  by (simp add: forward_def updateActivity_def close_last_def)

lemma upgrade_forward:
  assumes "sess_state s = Connecting"
  shows "forward s (upgrade_session env pth key s)"
proof -
  let ?s1 = "conn_send (OutHttp (switching_text (computeAcceptKey (env_sha1 env) key))) s"
  let ?s2 = "setContext ''path'' pth (updateActivity (env_now env) (?s1\<lparr>sess_state := Open\<rparr>))"
  have a: "forward s ?s1" using assms by (intro conn_send_forward) auto
  have st: "sess_state ?s1 = Connecting" using assms by (simp add: conn_send_def)
  have eq: "sess_out ?s2 = sess_out ?s1" "sess_state ?s2 = Open" by (simp_all add: setContext_def updateActivity_def)
  have "close_last ?s2" if "close_last ?s1"
    using close_last_append [OF that] st unfolding close_last_def eq by (auto dest: in_set_butlastD)
  then have b: "forward ?s1 ?s2" unfolding forward_def eq st by simp
  show ?thesis
    unfolding upgrade_session_def Let_def by (rule forward_trans [OF forward_trans [OF a b] ws_callback_forward])
qed

lemma handshake_forward:
  assumes "sess_state s = Connecting"
  shows "forward s (fst (snd (handleHandshake env s buf)))"
proof -
  have bad: "forward s (sendBadRequest m s)" "forward s (sendForbidden s)" for m
    unfolding sendBadRequest_def sendForbidden_def using assms
    by (auto intro!: forward_trans [OF conn_send_forward conn_shutdown_forward])
  show ?thesis
    unfolding handleHandshake_def Let_def using upgrade_forward [OF assms] bad by (auto split: option.split)
qed

lemma dispatch_forward: "forward s (dispatch_frame env f s)"
  by (auto simp: dispatch_frame_def handleMessage_def intro: ws_callback_forward ops_forward ws_close_forward)

lemma reject_forward: "forward s (reject_large env s)"
  unfolding reject_large_def ws_handleError_def by (rule forward_trans [OF ws_callback_forward ws_close_forward])

lemma frames_forward: "handleWsFrames env s buf = Some (s', buf') \<Longrightarrow> forward s s'"
proof (induction env s buf arbitrary: s' buf' rule: handleWsFrames.induct)
  case (1 env s buf)
  show ?case
  proof (cases "decode (bytes_of (take (readableBytes buf) (peek buf)))")
    case (Ok f n)
    let ?s1 = "updateActivity (env_now env) s"
    have "forward s (reject_large env ?s1)" "forward s (dispatch_frame env f ?s1)"
      by (blast intro: forward_trans updateActivity_forward reject_forward dispatch_forward)+
    with "1" Ok show ?thesis
      by (auto simp: handleWsFrames.simps [of env s buf] Let_def split: if_splits intro: forward_trans)
  qed (use "1.prems" in \<open>auto simp: handleWsFrames.simps [of env s buf] split: if_splits\<close>)
qed

lemma ws_handleClose_forward: "forward s (ws_handleClose app s)"
proof (cases "sess_state s = Closed")
  case False
  have "forward s (s\<lparr>sess_state := Closed\<rparr>)" by (cases "sess_state s") (auto simp: forward_def close_last_def)
  then show ?thesis using False unfolding ws_handleClose_def by (simp add: forward_trans [OF _ ws_callback_forward])
qed (simp add: ws_handleClose_def)

text \<open>What can happen to a session.\<close>

inductive ws_step :: "ws_session \<Rightarrow> ws_session \<Rightarrow> bool" where
  by_app: "ws_step s (exec_op x s)"
| handshake: "sess_state s = Connecting \<Longrightarrow> ws_step s (fst (snd (handleHandshake env s buf)))"
| frames: "sess_state s = Open \<Longrightarrow> handleWsFrames env s buf = Some (s', buf') \<Longrightarrow> ws_step s s'"
| closed: "ws_step s (ws_handleClose app (s\<lparr>conn_up := False\<rparr>))"

inductive ws_reach :: "ws_session \<Rightarrow> bool" where
  created: "ws_reach (WsSession_new now)"
| step: "ws_reach s \<Longrightarrow> ws_step s s' \<Longrightarrow> ws_reach s'"

inductive_cases ws_stepE: "ws_step s s'"

lemma ws_step_forward: "ws_step s s' \<Longrightarrow> forward s s'"
proof (induction rule: ws_step.induct)
  case (closed s app)
  have "forward s (s\<lparr>conn_up := False\<rparr>)" by (simp add: forward_def close_last_def)
  then show ?case by (rule forward_trans [OF _ ws_handleClose_forward])
qed (auto intro: exec_op_forward handshake_forward frames_forward)

lemma ws_reach_close_last: "ws_reach s \<Longrightarrow> close_last s"
  by (induction rule: ws_reach.induct) (auto simp: close_last_def WsSession_new_def dest: ws_step_forward [unfolded forward_def])

text \<open>A session that is closing or closed sends nothing more.\<close>

definition ending :: "ws_session \<Rightarrow> bool" where
  "ending s \<longleftrightarrow> sess_state s = Closing \<or> sess_state s = Closed"

lemma exec_op_ending: "ending s \<Longrightarrow> ending (exec_op x s) \<and> sess_out (exec_op x s) = sess_out s"
  by (cases x) (auto simp: ending_def sendText_def sendBinary_def ws_ping_def ws_pong_def ws_close_def forceClose_def
      conn_shutdown_def setContext_def)

lemma fold_exec_ending: "ending s \<Longrightarrow> sess_out (fold exec_op xs s) = sess_out s"
  by (induction xs arbitrary: s) (simp_all add: exec_op_ending)

lemma ws_step_ending: "ws_step s s' \<Longrightarrow> ending s \<Longrightarrow> sess_out s' = sess_out s"
proof (induction rule: ws_step.induct)
  case (closed s app)
  then show ?case
    by (auto simp: ws_handleClose_def ws_callback_def ending_def intro!: fold_exec_ending [THEN trans])
qed (auto simp: exec_op_ending ending_def)

section \<open>Frames are delivered in order\<close>

type_synonym sent_frame = "ws_frame \<times> bool \<times> u8 list"

definition frame_bytes :: "sent_frame \<Rightarrow> u8 list" where
  "frame_bytes x = (case x of (f, m, key) \<Rightarrow> encode f m key)"

definition sendable :: "sent_frame \<Rightarrow> bool" where
  "sendable x = (case x of (f, m, key) \<Rightarrow> wf_header f \<and> length key = 4)"

text \<open>The specification works on frames: it stops after the first one that is too large, and returns what it left.\<close>

fun deliver :: "ws_env \<Rightarrow> sent_frame list \<Rightarrow> ws_session \<Rightarrow> ws_session \<times> sent_frame list" where
  "deliver env [] s = (s, [])"
| "deliver env ((f, mk) # fs) s =
     (let s1 = updateActivity (env_now env) s in
      if too_large (env_config env) f then (reject_large env s1, fs)
      else deliver env fs (dispatch_frame env f s1))"

lemma frame_bytes_simp [simp]: "frame_bytes (f, m, key) = encode f m key"
  by (simp add: frame_bytes_def)

lemma decoded_same:
  "too_large cfg (decoded_as f m key) = too_large cfg f" "dispatch_frame env (decoded_as f m key) s = dispatch_frame env f s"
  by (simp_all add: decoded_as_def too_large_def dispatch_frame_def)

lemma readable_bytes: "Buffer_inv buf \<Longrightarrow> contents buf = string_of bs \<Longrightarrow> bytes_of (take (readableBytes buf) (peek buf)) = bs"
  by (simp flip: contents_eq_peek)

lemma frames_delivered:
  assumes "list_all sendable fs" and "sendable g" and "Buffer_inv buf" and "n < length (frame_bytes g)"
    and "contents buf = string_of (concat (map frame_bytes fs) @ take n (frame_bytes g))"
    and "length (concat (map frame_bytes fs)) + length (frame_bytes g) < 2 ^ 63"
  shows "\<exists>buf'. handleWsFrames env s buf = Some (fst (deliver env fs s), buf') \<and> Buffer_inv buf' \<and>
    contents buf' = string_of (concat (map frame_bytes (snd (deliver env fs s))) @ take n (frame_bytes g))"
  using assms
proof (induction fs arbitrary: s buf)
  case Nil
  obtain f m key where g: "g = (f, m, key)" by (cases g)
  have d: "bytes_of (take (readableBytes buf) (peek buf)) = take n (frame_bytes g)"
    using readable_bytes [OF Nil.prems(3)] Nil.prems(5) by simp
  have "decode (take n (frame_bytes g)) = Incomplete"
  proof (rule ccontr)
    let ?e = "encode f m key"
    have e: "frame_bytes g = ?e" "wf_header f" "length key = 4" using Nil.prems(2) by (simp_all add: g sendable_def)
    have len: "length ?e < 2 ^ 63" using Nil.prems(6) by (simp add: e)
    assume nw: "decode (take n (frame_bytes g)) \<noteq> Incomplete"
    then have "decode (take n ?e) = decode ?e" using decode_stable [of "take n ?e" "drop n ?e"] len by (simp add: e)
    then have "decode (take n ?e) = Ok (decoded_as f m key) (of_nat (length ?e))" using decode_encode [OF e(2,3) len] by simp
    from decode_bound [OF this] have "unat (of_nat (length ?e) :: u64) \<le> n" using len Nil.prems(4) by (simp add: e)
    then show False using len Nil.prems(4) by (simp add: e unat_of_nat)
  qed
  with Nil d show ?case by (auto simp: handleWsFrames.simps [of env s buf])
next
  case (Cons x fs)
  obtain f m key where x: "x = (f, m, key)" by (cases x)
  let ?e = "encode f m key" and ?rest = "concat (map frame_bytes fs) @ take n (frame_bytes g)"
  let ?s1 = "updateActivity (env_now env) s" and ?buf1 = "retrieve buf (length ?e)"
  have e: "wf_header f" "length key = 4" using Cons.prems(1) by (simp_all add: x sendable_def)
  have all: "contents buf = string_of (?e @ ?rest)" using Cons.prems(5) by (simp add: x)
  have len: "length ?e < 2 ^ 63" "length (?e @ ?rest) < 2 ^ 64" using Cons.prems(4,6) by (simp_all add: x)
  have "decode (bytes_of (take (readableBytes buf) (peek buf))) = Ok (decoded_as f m key) (of_nat (length ?e))"
    unfolding readable_bytes [OF Cons.prems(3) all]
    using decode_encode [OF e len(1)] decode_stable [of ?e ?rest, OF _ len(2)] by simp
  moreover have "readableBytes buf \<noteq> 0"
  proof -
    have "0 < length ?e" by simp
    moreover have "readableBytes buf = length ?e + length ?rest" using length_contents [OF Cons.prems(3)] unfolding all by simp
    ultimately show ?thesis by linarith
  qed
  moreover have "unat (of_nat (length ?e) :: u64) = length ?e" using len(1) by (simp add: unat_of_nat)
  ultimately have h: "handleWsFrames env s buf =
      (if too_large (env_config env) f then Some (reject_large env ?s1, ?buf1)
       else handleWsFrames env (dispatch_frame env f ?s1) ?buf1)"
    by (simp add: handleWsFrames.simps [of env s buf] decoded_same Let_def)
  have buf1: "Buffer_inv ?buf1" "contents ?buf1 = string_of ?rest"
    using Cons.prems(3) all by (simp_all add: Buffer_inv_retrieve string_of_def)
  show ?case
  proof (cases "too_large (env_config env) f")
    case True
    with h buf1 show ?thesis by (simp add: x Let_def)
  next
    case False
    with h Cons.IH [OF _ Cons.prems(2) buf1(1) Cons.prems(4) buf1(2), of "dispatch_frame env f ?s1"] Cons.prems(1,6)
    show ?thesis by (simp add: x Let_def)
  qed
qed

section \<open>Broadcast\<close>

lemma fold_on_session:
  "distinct is \<Longrightarrow> sess_store (fold (on_session f) is srv) i = (if i \<in> set is then f (sess_store srv i) else sess_store srv i)"
  by (induction "is" arbitrary: srv) (auto simp: on_session_def)

definition sessions_inj :: "ws_server \<Rightarrow> bool" where
  "sessions_inj srv \<longleftrightarrow> inj_on (sessions srv) (dom (sessions srv))"

text \<open>Names stand for different sessions, because a session gets a new number.\<close>

lemma ws_onConnection_inj:
  fixes env up name
  assumes "sessions_inj srv" and "\<forall>i \<in> ran (sessions srv). i < next_session srv"
  defines "srv' \<equiv> ws_onConnection env up name srv"
  shows "sessions_inj srv' \<and> (\<forall>i \<in> ran (sessions srv'). i < next_session srv')"
proof (cases up)
  case True
  have "sessions srv x \<noteq> Some (next_session srv)" for x using assms(2) by (auto simp: ran_def)
  then show ?thesis
    using True assms(1,2)
    by (auto simp: srv'_def ws_onConnection_def sessions_inj_def Let_def inj_on_def dom_def ran_def split: if_splits)
next
  case False
  have "sessions srv' = (sessions srv)(name := None)" "next_session srv' = next_session srv"
    using False by (auto simp: srv'_def ws_onConnection_def on_session_def Let_def split: option.split)
  then show ?thesis
    using assms(1,2) by (auto simp: sessions_inj_def inj_on_def dom_def ran_def split: if_splits)
qed

lemma distinct_map_filter:
  "distinct order \<Longrightarrow> inj_on m (dom m) \<Longrightarrow> distinct (List.map_filter m order)"
proof (induction order)
  case (Cons x order)
  have "y \<notin> set (List.map_filter m order)" if "m x = Some y" for y
  proof
    assume "y \<in> set (List.map_filter m order)"
    then obtain z where "z \<in> set order" "m z = Some y" by (auto simp: map_filter_def)
    with that Cons.prems have "z = x" by (auto simp: inj_on_def dom_def)
    with \<open>z \<in> set order\<close> Cons.prems(1) show False by simp
  qed
  with Cons show ?case by (simp add: map_filter_simps split: option.split)
qed (simp add: map_filter_simps)

section \<open>Properties\<close>





text \<open>
  A broadcast reaches every open session once and no other, in whatever order the unordered map is walked.
\<close>

theorem broadcast_reaches_open_sessions:
  assumes "sessions_inj srv" and "distinct order" and "set order = dom (sessions srv)"
  shows "sess_store (broadcast order msg srv) i =
    (if i \<in> ran (sessions srv) \<and> sess_state (sess_store srv i) = Open then sendText msg (sess_store srv i) else sess_store srv i)"
proof -
  have "distinct (getAllSessions order srv)"
    using distinct_map_filter [OF assms(2), of "sessions srv"] assms(1) by (simp add: getAllSessions_def sessions_inj_def)
  moreover have "set (List.map_filter (sessions srv) order) = ran (sessions srv)"
    using assms(3) by (force simp: map_filter_def ran_def dom_def image_iff)
  then have "i \<in> set (getAllSessions order srv) \<longleftrightarrow> i \<in> ran (sessions srv) \<and> sess_state (sess_store srv i) = Open"
    by (auto simp: getAllSessions_def)
  ultimately show ?thesis by (simp add: broadcast_def fold_on_session)
qed

theorem broadcast_reaches_open_sessions_witness:
  "sess_store (broadcast [''c1''] [97] (WebSocketServer_new\<lparr>sessions := [''c1'' \<mapsto> 0],
     sess_store := (\<lambda>_. (WsSession_new 0)\<lparr>sess_state := Open\<rparr>)\<rparr>)) 0 = sendText [97] ((WsSession_new 0)\<lparr>sess_state := Open\<rparr>)"
  using broadcast_reaches_open_sessions [of "WebSocketServer_new\<lparr>sessions := [''c1'' \<mapsto> 0],
     sess_store := (\<lambda>_. (WsSession_new 0)\<lparr>sess_state := Open\<rparr>)\<rparr>" "[''c1'']" "[97]" 0]
  by (simp add: sessions_inj_def inj_on_def)

end
