(* ===== verification/WsClientModel.thy ===== *)
theory WsClientModel
  imports WsServerModel
begin

text \<open>
  \<^verbatim>\<open>src/websocket/WebSocketClient.h\<close>: the WebSocket client.  The handshake nonce and the masking keys are random in the
  source and arguments here (\<open>keys n\<close> masks the \<open>n\<close>-th thing sent).  As for the server, application callbacks may call operations
  of the client.  The theory closes with the handshake between the client and the server of \<^verbatim>\<open>WsServerModel\<close>.
\<close>

section \<open>State\<close>

datatype wc_call = COpen | CMessage u8 "u8 list" | CClosed u16 "u8 list" | CError string

datatype tcp_request = TcpConnect | TcpDisconnect | TcpEnableRetry

record ws_client =
  wc_state :: WsState
  wc_path :: string
  wc_host :: string
  wc_up :: bool
  pendingKey :: string
  wc_recv :: "u8 list"
  wc_out :: "ws_out list"
  wc_calls :: "wc_call list"
  wc_tcp :: "tcp_request list"

definition WebSocketClient_new :: "string \<Rightarrow> string \<Rightarrow> ws_client" where
  "WebSocketClient_new host pth = \<lparr>wc_state = Closed, wc_path = pth, wc_host = host, wc_up = False, pendingKey = [],
     wc_recv = [], wc_out = [], wc_calls = [], wc_tcp = []\<rparr>"

definition wc_send :: "ws_out \<Rightarrow> ws_client \<Rightarrow> ws_client" where
  "wc_send x c = (if wc_up c then c\<lparr>wc_out := wc_out c @ [x]\<rparr> else c)"

definition wc_sendRaw :: "u8 list \<Rightarrow> ws_client \<Rightarrow> ws_client" where
  "wc_sendRaw data c = (if wc_up c then wc_send (OutFrame data) c else c)"

text \<open>A masked frame with the given opcode and payload.\<close>

definition masked :: "(nat \<Rightarrow> u8 list) \<Rightarrow> u8 \<Rightarrow> u8 list \<Rightarrow> ws_client \<Rightarrow> u8 list" where
  "masked keys opc pl c = encode (WebSocketFrame_new\<lparr>fin := True, opcode := opc, payload := pl\<rparr>) True (keys (length (wc_out c)))"

definition wc_sendText :: "(nat \<Rightarrow> u8 list) \<Rightarrow> u8 list \<Rightarrow> ws_client \<Rightarrow> ws_client" where
  "wc_sendText keys text c = (if wc_state c \<noteq> Open then c else wc_sendRaw (masked keys WsText text c) c)"

definition wc_sendBinary :: "(nat \<Rightarrow> u8 list) \<Rightarrow> u8 list \<Rightarrow> ws_client \<Rightarrow> ws_client" where
  "wc_sendBinary keys data c = (if wc_state c \<noteq> Open then c else wc_sendRaw (masked keys WsBinary data c) c)"

definition wc_ping :: "(nat \<Rightarrow> u8 list) \<Rightarrow> u8 list \<Rightarrow> ws_client \<Rightarrow> ws_client" where
  "wc_ping keys data c = (if wc_state c \<noteq> Open then c else wc_sendRaw (masked keys WsPing data c) c)"

definition wc_close :: "(nat \<Rightarrow> u8 list) \<Rightarrow> u16 \<Rightarrow> u8 list \<Rightarrow> ws_client \<Rightarrow> ws_client" where
  "wc_close keys code reason c =
     (if wc_state c \<noteq> Open then c
      else let c1 = c\<lparr>wc_state := Closing\<rparr>
           in wc_sendRaw (masked keys WsClose ([ucast (drop_bit 8 code AND 0xFF), ucast (code AND 0xFF)] @ reason) c1) c1)"

definition wc_connect :: "ws_client \<Rightarrow> ws_client" where
  "wc_connect c = c\<lparr>wc_state := Connecting, wc_tcp := wc_tcp c @ [TcpConnect]\<rparr>"

definition wc_disconnect :: "(nat \<Rightarrow> u8 list) \<Rightarrow> ws_client \<Rightarrow> ws_client" where
  "wc_disconnect keys c =
     (let c1 = (if wc_state c = Open then wc_close keys 1000 [] c else c) in c1\<lparr>wc_tcp := wc_tcp c1 @ [TcpDisconnect]\<rparr>)"

definition wc_enableRetry :: "ws_client \<Rightarrow> ws_client" where
  "wc_enableRetry c = c\<lparr>wc_tcp := wc_tcp c @ [TcpEnableRetry]\<rparr>"

text \<open>What application code may do inside a callback.\<close>

datatype wc_op = CopSendText "u8 list" | CopSendBinary "u8 list" | CopPing "u8 list" | CopClose u16 "u8 list"

fun exec_cop :: "(nat \<Rightarrow> u8 list) \<Rightarrow> wc_op \<Rightarrow> ws_client \<Rightarrow> ws_client" where
  "exec_cop keys (CopSendText t) c = wc_sendText keys t c"
| "exec_cop keys (CopSendBinary d) c = wc_sendBinary keys d c"
| "exec_cop keys (CopPing d) c = wc_ping keys d c"
| "exec_cop keys (CopClose code r) c = wc_close keys code r c"

record wc_env =
  wce_sha1 :: "string \<Rightarrow> u8 list"
  wce_keys :: "nat \<Rightarrow> u8 list"
  wce_app :: "wc_call \<Rightarrow> wc_op list"

definition wc_callback :: "wc_env \<Rightarrow> wc_call \<Rightarrow> ws_client \<Rightarrow> ws_client" where
  "wc_callback env x c = fold (exec_cop (wce_keys env)) (wce_app env x) (c\<lparr>wc_calls := wc_calls c @ [x]\<rparr>)"

section \<open>Connection\<close>

definition base64Encode :: "u8 list \<Rightarrow> string" where
  "base64Encode data = concat (map (\<lambda>k. base64_group data (length data) (3 * k)) [0..<(length data + 2) div 3])"

definition generateWebSocketKey :: "u8 list \<Rightarrow> string" where
  "generateWebSocketKey nonce = base64Encode nonce"

definition upgrade_request :: "string \<Rightarrow> string \<Rightarrow> string \<Rightarrow> string" where
  "upgrade_request pth host key =
     ''GET '' @ pth @ '' HTTP/1.1'' @ CRLF @ ''Host: '' @ host @ CRLF @ ''Upgrade: websocket'' @ CRLF @ ''Connection: Upgrade'' @ CRLF @
     ''Sec-WebSocket-Key: '' @ key @ CRLF @ ''Sec-WebSocket-Version: 13'' @ CRLF @ CRLF"

definition wc_onConnection :: "wc_env \<Rightarrow> u8 list \<Rightarrow> bool \<Rightarrow> ws_client \<Rightarrow> ws_client" where
  "wc_onConnection env nonce up c =
     (if up
      then let c1 = c\<lparr>wc_up := True, wc_state := Connecting, wc_recv := [], pendingKey := generateWebSocketKey nonce\<rparr>
           in wc_send (OutHttp (upgrade_request (wc_path c1) (wc_host c1) (pendingKey c1))) c1
      else let prevState = wc_state c; c1 = c\<lparr>wc_state := Closed, wc_up := False\<rparr> in
        if prevState = Open \<or> prevState = Closing then wc_callback env (CClosed 1006 (bytes_of ''TCP connection lost'')) c1
        else if prevState = Connecting then wc_callback env (CError ''Connection failed during handshake'') c1
        else c1)"

section \<open>Frames\<close>

definition close_code :: "u8 list \<Rightarrow> u16 \<times> u8 list" where
  "close_code pl = (if length pl \<ge> 2 then (push_bit 8 (ucast (pl ! 0)) OR ucast (pl ! 1), drop 2 pl) else (1005, []))"

definition wc_dispatch :: "wc_env \<Rightarrow> ws_frame \<Rightarrow> ws_client \<Rightarrow> ws_client" where
  "wc_dispatch env f c =
     (if opcode f = WsText \<or> opcode f = WsBinary then wc_callback env (CMessage (opcode f) (payload f)) c
      else if opcode f = WsPing then wc_sendRaw (masked (wce_keys env) WsPong (payload f) c) c
      else if opcode f = WsPong then c
      else if opcode f = WsClose then
        (let (code, reason) = close_code (payload f);
             c1 = (if wc_state c = Open then wc_sendRaw (masked (wce_keys env) WsClose (payload f) c) c else c);
             c2 = c1\<lparr>wc_state := Closed\<rparr>
         in wc_callback env (CClosed code reason) c2)
      else c)"

text \<open>The frame loop: \<open>None\<close> when \<^verbatim>\<open>decode\<close> throws.  Consumed bytes are erased after the dispatch.\<close>

function wc_frames_loop :: "wc_env \<Rightarrow> u8 list \<Rightarrow> ws_client \<Rightarrow> (u8 list \<times> ws_client) option" where
  "wc_frames_loop env bs c =
     (if length bs \<ge> 2
      then case decode bs of
             Incomplete \<Rightarrow> Some (bs, c)
           | Throws \<Rightarrow> None
           | Ok f consumed \<Rightarrow> wc_frames_loop env (drop (unat consumed) bs) (wc_dispatch env f c)
      else Some (bs, c))"
  by pat_completeness auto
termination
  by (relation "measure (\<lambda>(env, bs, c). length bs)") (auto dest: decode_positive)

declare wc_frames_loop.simps [simp del]

definition wc_handleWsFrames :: "wc_env \<Rightarrow> u8 list \<Rightarrow> ws_client \<Rightarrow> ws_client option" where
  "wc_handleWsFrames env data c = map_option (\<lambda>(bs, c1). c1\<lparr>wc_recv := bs\<rparr>) (wc_frames_loop env (wc_recv c @ data) c)"

section \<open>Handshake\<close>

definition blank :: "char \<Rightarrow> bool" where
  "blank c \<longleftrightarrow> c = SP \<or> c = CHR 0x09"

definition trim_value :: "string \<Rightarrow> string" where
  "trim_value v =
     (let w = dropWhile blank v; v1 = (if w = [] then v else w); x = rev (dropWhile blank (rev v1)) in if x = [] then v1 else x)"

definition accept_step :: "string \<Rightarrow> string \<Rightarrow> string" where
  "accept_step line acc =
     (case find_char (CHR '':'') line 0 of
        None \<Rightarrow> acc
      | Some colon \<Rightarrow>
          if tolower (substr line 0 colon) = ''sec-websocket-accept'' then trim_value (substr_from line (colon + 1)) else acc)"

definition handshake_failed :: "wc_env \<Rightarrow> string \<Rightarrow> ws_client \<Rightarrow> ws_client" where
  "handshake_failed env err c = (wc_callback env (CError err) (c\<lparr>wc_state := Closed\<rparr>))\<lparr>wc_up := False\<rparr>"

definition handleHandshakeResponse :: "wc_env \<Rightarrow> u8 list \<Rightarrow> ws_client \<Rightarrow> ws_client option" where
  "handleHandshakeResponse env data c0 =
     (let c = c0\<lparr>wc_recv := wc_recv c0 @ data\<rparr>;
          bufStr = string_of (wc_recv c) in
      case find_str (CRLF @ CRLF) bufStr 0 of
        None \<Rightarrow> Some c
      | Some headerEnd \<Rightarrow>
          (let headerBlock = substr bufStr 0 headerEnd;
               firstLineEnd = find_str CRLF headerBlock 0;
               statusLine = (case firstLineEnd of Some e \<Rightarrow> substr headerBlock 0 e | None \<Rightarrow> headerBlock) in
           if \<not> contains ''HTTP/1.1 101'' statusLine then Some (handshake_failed env (''Handshake failed: '' @ statusLine) c)
           else
             (let headerSection = (case firstLineEnd of Some e \<Rightarrow> substr_from headerBlock (e + 2) | None \<Rightarrow> []);
                  acceptValue = lines_loop accept_step headerSection 0 [] in
              if acceptValue \<noteq> computeAcceptKey (wce_sha1 env) (pendingKey c)
              then Some (handshake_failed env ''Handshake failed: invalid Sec-WebSocket-Accept'' c)
              else
                (let c1 = wc_callback env COpen (c\<lparr>wc_state := Open\<rparr>);
                     remaining = drop (headerEnd + 4) (wc_recv c1);
                     c2 = c1\<lparr>wc_recv := []\<rparr>
                 in if remaining \<noteq> [] then wc_handleWsFrames env remaining c2 else Some c2))))"

definition wc_onMessage :: "wc_env \<Rightarrow> u8 list \<Rightarrow> ws_client \<Rightarrow> ws_client option" where
  "wc_onMessage env incoming c =
     (if wc_state c = Connecting then handleHandshakeResponse env incoming c
      else if wc_state c = Open then wc_handleWsFrames env incoming c
      else Some c)"

section \<open>The alphabet of the keys\<close>

definition base64_char :: "char \<Rightarrow> bool" where
  "base64_char c \<longleftrightarrow> c \<in> set base64Chars \<or> c = CHR ''=''"

lemma length_base64Chars: "length base64Chars = 64"
  by (simp add: base64Chars_def)

lemma base64Chars_nth: "base64_char (base64Chars ! unat ((w :: u32) AND 0x3F))"
proof -
  have "w AND 0x3F \<le> 0x3F" by (rule word_and_le1)
  then have "unat (w AND 0x3F) < 64" by (simp add: word_le_nat_alt)
  then show ?thesis unfolding base64_char_def by (simp add: length_base64Chars)
qed

lemma base64_group_chars: "list_all base64_char (base64_group h n i)"
  by (simp add: base64_group_def Let_def base64Chars_nth) (simp add: base64_char_def)

lemma base64_char_plain:
  assumes "base64_char c"
  shows "\<not> trim_chars c" "\<not> blank c" "c \<noteq> CR"
proof -
  have "list_all (\<lambda>c. \<not> trim_chars c \<and> \<not> blank c \<and> c \<noteq> CR) (CHR ''='' # base64Chars)" by code_simp
  with assms show "\<not> trim_chars c" "\<not> blank c" "c \<noteq> CR" by (auto simp: base64_char_def list_all_iff)
qed

lemma base64Encode_chars: "list_all base64_char (base64Encode data)"
  using base64_group_chars by (auto simp: base64Encode_def list_all_iff)

lemma computeAcceptKey_chars: "list_all base64_char (computeAcceptKey sha key)"
  using base64_group_chars by (auto simp: computeAcceptKey_def Let_def list_all_iff)

lemma base64Encode_nonempty: "data \<noteq> [] \<Longrightarrow> base64Encode data \<noteq> []"
proof -
  assume "data \<noteq> []"
  then have "0 \<in> set [0..<(length data + 2) div 3]" by (cases data) (auto simp: div_greater_zero_iff)
  moreover have "base64_group data (length data) i \<noteq> []" for i by (simp add: base64_group_def Let_def)
  ultimately show ?thesis unfolding base64Encode_def concat_eq_Nil_conv by force
qed

section \<open>Headers of the handshake\<close>

lemma dropWhile_none: "list_all (\<lambda>c. \<not> P c) s \<Longrightarrow> dropWhile P s = s"
  by (cases s) auto

lemma ws_trim_id: "list_all (\<lambda>c. \<not> trim_chars c) s \<Longrightarrow> ws_trim s = s"
  by (simp add: ws_trim_def dropWhile_none)

lemma ws_trim_space: "ws_trim (SP # s) = ws_trim s"
  by (simp add: ws_trim_def trim_chars_def)

lemma trim_value_space:
  assumes "list_all (\<lambda>c. \<not> blank c) s" and "s \<noteq> []"
  shows "trim_value (SP # s) = s"
proof -
  have "blank SP" by (simp add: blank_def)
  then have "dropWhile blank (SP # s) = s" using dropWhile_none [OF assms(1)] by simp
  moreover have "dropWhile blank (rev s) = rev s" using assms(1) by (simp add: dropWhile_none)
  ultimately show ?thesis using assms(2) by (simp add: trim_value_def)
qed

text \<open>Fields that both parsers read back.\<close>

definition plain_field :: "string \<times> string \<Rightarrow> bool" where
  "plain_field kv \<longleftrightarrow> (case kv of (k, v) \<Rightarrow> CHR '':'' \<notin> set k \<and> list_all (\<lambda>c. \<not> trim_chars c) k \<and> list_all (\<lambda>c. \<not> trim_chars c) v)"

lemma plain_field_line_ok: "plain_field kv \<Longrightarrow> line_ok (field_line kv)"
  by (cases kv) (auto simp: plain_field_def line_ok_def field_line_def list_all_iff trim_chars_def)

lemma ws_header_step_field:
  assumes "plain_field (k, v)"
  shows "ws_header_step (field_line (k, v)) m = std_insert k v m"
  using assms by (simp add: plain_field_def ws_header_step_def field_line_def substr_def substr_from_def ws_trim_id ws_trim_space)

lemma fold_ws_header_step:
  "list_all plain_field kvs \<Longrightarrow> fold ws_header_step (map field_line kvs) m = fold (\<lambda>(k, v). std_insert k v) kvs m"
  by (induction kvs arbitrary: m) (auto simp: ws_header_step_field)

lemma set_std_insert: "k \<notin> fst ` set m \<Longrightarrow> set (std_insert k v m) = insert (k, v) (set m)"
  by (induction k v m rule: std_insert.induct) auto

lemma std_insert_fresh:
  "tolower k \<notin> set (map (tolower \<circ> fst) m) \<Longrightarrow> distinct (map (tolower \<circ> fst) m) \<Longrightarrow> distinct (map (tolower \<circ> fst) (std_insert k v m))"
proof (induction k v m rule: std_insert.induct)
  case (2 k v k' v' m)
  show ?case
  proof (cases "k = k' \<or> k < k'")
    case False
    have "k \<notin> fst ` set m" using "2.prems"(1) by force
    then have "tolower k' \<notin> set (map (tolower \<circ> fst) (std_insert k v m))"
      using "2.prems" by (auto simp: set_std_insert)
    with False "2" show ?thesis by auto
  qed (use "2.prems" in auto)
qed simp

lemma fold_std_insert:
  "distinct (map (tolower \<circ> fst) (m @ kvs)) \<Longrightarrow>
     set (fold (\<lambda>(k, v). std_insert k v) kvs m) = set m \<union> set kvs \<and> distinct (map (tolower \<circ> fst) (fold (\<lambda>(k, v). std_insert k v) kvs m))"
proof (induction kvs arbitrary: m)
  case (Cons kv kvs)
  obtain k v where kv: "kv = (k, v)" by (cases kv)
  have f: "tolower k \<notin> set (map (tolower \<circ> fst) m)" "k \<notin> fst ` set m" using Cons.prems by (force simp: kv)+
  have "distinct (map (tolower \<circ> fst) (std_insert k v m @ kvs))"
    using std_insert_fresh [OF f(1)] set_std_insert [OF f(2)] Cons.prems by (auto simp: kv comp_def)
  from Cons.IH [OF this] set_std_insert [OF f(2)] show ?case by (auto simp: kv)
qed simp

lemma ws_getHeader_unique:
  "distinct (map (tolower \<circ> fst) m) \<Longrightarrow> (k, v) \<in> set m \<Longrightarrow> tolower k = tolower key \<Longrightarrow> ws_getHeader m key = v"
  by (induction m key rule: ws_getHeader.induct) (force)+

lemma ws_getHeader_fields:
  assumes "list_all plain_field kvs" and "distinct (map (tolower \<circ> fst) kvs)" and "(k, v) \<in> set kvs" and "tolower k = tolower key"
  shows "ws_getHeader (ws_parseHeaders (join_lines (map field_line kvs))) key = v"
proof -
  have "list_all line_ok (map field_line kvs)" using assms(1) by (auto simp: list_all_iff plain_field_line_ok)
  then have "ws_parseHeaders (join_lines (map field_line kvs)) = fold (\<lambda>(k, v). std_insert k v) kvs []"
    by (simp add: ws_parseHeaders_def lines_loop_join fold_ws_header_step [OF assms(1)])
  with fold_std_insert [of "[]" kvs] assms show ?thesis by (auto intro: ws_getHeader_unique)
qed

section \<open>The server accepts the client\<close>

definition upgrade_fields :: "string \<Rightarrow> string \<Rightarrow> (string \<times> string) list" where
  "upgrade_fields host key = [(''Host'', host), (''Upgrade'', ''websocket''), (''Connection'', ''Upgrade''),
     (''Sec-WebSocket-Key'', key), (''Sec-WebSocket-Version'', ''13'')]"

definition upgrade_line :: "string \<Rightarrow> string" where
  "upgrade_line pth = ''GET'' @ '' '' @ pth @ '' '' @ ''HTTP/1.1''"

lemma upgrade_request_lines:
  "upgrade_request pth host key = join_lines (upgrade_line pth # map field_line (upgrade_fields host key)) @ CRLF @ CRLF"
  by (simp add: upgrade_request_def upgrade_fields_def upgrade_line_def field_line_def)

definition plain_text :: "string \<Rightarrow> bool" where
  "plain_text s \<longleftrightarrow> list_all (\<lambda>c. \<not> trim_chars c) s"

lemma plain_text_chars: "plain_text s \<Longrightarrow> SP \<notin> set s \<and> CR \<notin> set s"
  by (auto simp: plain_text_def list_all_iff trim_chars_def)

lemma base64_plain: "list_all base64_char s \<Longrightarrow> plain_text s \<and> list_all (\<lambda>c. \<not> blank c) s \<and> CR \<notin> set s"
  using base64_char_plain by (auto simp: plain_text_def list_all_iff)

lemma upgrade_fields_plain:
  assumes "plain_text host" and "plain_text key"
  shows "list_all plain_field (upgrade_fields host key)" and "distinct (map (tolower \<circ> fst) (upgrade_fields host key))"
proof -
  show "list_all plain_field (upgrade_fields host key)"
    using assms by (simp add: upgrade_fields_def plain_field_def plain_text_def) (simp add: trim_chars_def)
  have "distinct (map tolower [''Host'', ''Upgrade'', ''Connection'', ''Sec-WebSocket-Key'', ''Sec-WebSocket-Version''])" by code_simp
  then show "distinct (map (tolower \<circ> fst) (upgrade_fields host key))" by (simp add: upgrade_fields_def)
qed

lemma upgrade_headers:
  assumes "plain_text host" and "plain_text key"
  defines "hs \<equiv> ws_parseHeaders (join_lines (map field_line (upgrade_fields host key)))"
  shows "ws_getHeader hs ''Upgrade'' = ''websocket''" "ws_getHeader hs ''Connection'' = ''Upgrade''"
    "ws_getHeader hs ''Sec-WebSocket-Key'' = key"
proof -
  note u = ws_getHeader_fields [OF upgrade_fields_plain [OF assms(1,2)], folded hs_def]
  show "ws_getHeader hs ''Upgrade'' = ''websocket''" by (rule u [of "''Upgrade''"]) (simp_all add: upgrade_fields_def)
  show "ws_getHeader hs ''Connection'' = ''Upgrade''" by (rule u [of "''Connection''"]) (simp_all add: upgrade_fields_def)
  show "ws_getHeader hs ''Sec-WebSocket-Key'' = key" by (rule u [of "''Sec-WebSocket-Key''"]) (simp_all add: upgrade_fields_def)
qed

lemma handshake_accepted:
  assumes "plain_text pth" and "plain_text host" and "plain_text key" and "key \<noteq> []" and "env_validator env = None"
    and "Buffer_inv buf" and "contents buf = upgrade_request pth host key @ rest" and "length (contents buf) < 2 ^ 64"
  shows "\<exists>buf'. handleHandshake env s buf = (True, upgrade_session env pth key s, buf') \<and> Buffer_inv buf' \<and> contents buf' = rest"
proof -
  let ?l = "upgrade_line pth" and ?ls = "map field_line (upgrade_fields host key)"
  let ?j = "join_lines ?ls" and ?req = "upgrade_request pth host key @ rest"
  let ?h = "join_lines (?l # ?ls)"
  have ne: "?ls \<noteq> []" by (simp add: upgrade_fields_def)
  have ll: "CR \<notin> set ?l" using plain_text_chars [OF assms(1)] by (simp add: upgrade_line_def)
  have ok: "list_all line_ok (?l # ?ls)"
    using upgrade_fields_plain(1) [OF assms(2,3)] ll by (auto simp: line_ok_def list_all_iff upgrade_line_def plain_field_line_ok [unfolded line_ok_def])
  have h: "?h = ?l @ CRLF @ ?j" using ne by (cases ?ls) auto
  have req: "?req = ?l @ CRLF @ ?j @ CRLF @ CRLF @ rest" by (simp add: upgrade_request_lines h)
  have data: "take (readableBytes buf) (peek buf) = ?req" by (simp flip: contents_eq_peek add: assms(7))
  have 1: "find_str (CRLF @ CRLF) ?req 0 = Some (length ?h)"
    using blank_line_found [OF _ ok, of rest] by (simp add: upgrade_request_lines)
  have 2: "find_str CRLF ?req 0 = Some (length ?l)" unfolding req using ll by simp
  have 3: "substr ?req 0 (length ?l) = ?l" unfolding req by (simp add: substr_def)
  have sp: "find_char SP ?l 0 = Some 3" "find_char SP ?l (3 + 1) = Some (4 + length pth)"
    using plain_text_chars [OF assms(1)] by (simp_all add: upgrade_line_def find_char_def)
  have p: "substr ?l (3 + 1) (4 + length pth - 3 - 1) = pth" by (simp add: upgrade_line_def substr_def)
  have "length ?h < 2 ^ 64" using assms(8) by (simp add: assms(7) upgrade_request_lines)
  then have len: "size_minus (size_minus (length ?h) (length ?l)) 2 = length ?j" unfolding h by (simp add: size_minus_le)
  have 4: "substr ?req (length ?l + 2) (length ?j) = ?j" unfolding req by (simp add: substr_def)
  have low: "tolower ''websocket'' = ''websocket''" "contains ''upgrade'' (tolower ''Upgrade'')" by code_simp+
  have rest: "contents (retrieve buf (length ?h + 4)) = rest"
    using assms(6) by (simp add: assms(7) upgrade_request_lines eval_nat_numeral)
  have "handleHandshake env s buf = (True, upgrade_session env pth key s, retrieve buf (length ?h + 4))"
    unfolding handleHandshake_def Let_def data 1 2 3 option.case sp p len 4 upgrade_headers [OF assms(2,3)] assms(5)
    using low assms(4) by simp
  with rest show ?thesis using assms(6) by (simp add: Buffer_inv_retrieve)
qed

section \<open>The client accepts the server\<close>

lemma handshake_answered:
  assumes "wc_recv c @ data = bytes_of (switching_text (computeAcceptKey (wce_sha1 env) (pendingKey c)))"
    and "wce_app env COpen = []"
  shows "handleHandshakeResponse env data c = Some (c\<lparr>wc_state := Open, wc_recv := [], wc_calls := wc_calls c @ [COpen]\<rparr>)"
proof -
  let ?key = "computeAcceptKey (wce_sha1 env) (pendingKey c)"
  let ?l = "''HTTP/1.1 101 Switching Protocols''"
  let ?ls = "[''Upgrade: websocket'', ''Connection: Upgrade'', ''Sec-WebSocket-Accept: '' @ ?key]"
  have key: "list_all (\<lambda>c. \<not> blank c) ?key" "CR \<notin> set ?key" using base64_plain [OF computeAcceptKey_chars] by blast+
  have kne: "?key \<noteq> []" by (simp add: computeAcceptKey_def base64_group_def Let_def)
  have ok: "list_all line_ok (?l # ?ls)" using key(2) by (simp add: line_ok_def)
  have sw: "switching_text ?key = join_lines (?l # ?ls) @ CRLF @ CRLF" by (simp add: switching_text_def)
  have 1: "find_str (CRLF @ CRLF) (switching_text ?key) 0 = Some (length (join_lines (?l # ?ls)))"
    using blank_line_found [OF _ ok, of "[]"] by (simp add: sw)
  have 2: "substr (switching_text ?key) 0 (length (join_lines (?l # ?ls))) = ?l @ CRLF @ join_lines ?ls"
    unfolding sw by (simp add: substr_def)
  have 3: "find_str CRLF (?l @ CRLF @ join_lines ?ls) 0 = Some (length ?l)"
    by (simp del: join_lines.simps)
  have 4: "substr (?l @ CRLF @ join_lines ?ls) 0 (length ?l) = ?l" "substr_from (?l @ CRLF @ join_lines ?ls) (length ?l + 2) = join_lines ?ls"
    by (simp_all add: substr_def substr_from_def)
  have c101: "contains ''HTTP/1.1 101'' ?l" by code_simp
  have low: "tolower ''Upgrade'' \<noteq> ''sec-websocket-accept''" "tolower ''Connection'' \<noteq> ''sec-websocket-accept''"
      "tolower ''Sec-WebSocket-Accept'' = ''sec-websocket-accept''" by code_simp+
  have st: "accept_step (k @ '': '' @ v) acc = (if tolower k = ''sec-websocket-accept'' then trim_value (SP # v) else acc)"
    if "CHR '':'' \<notin> set k" for k v acc
    using that by (simp add: accept_step_def substr_def substr_from_def)
  have "lines_loop accept_step (join_lines ?ls) 0 [] = fold accept_step ?ls []" using ok by (intro lines_loop_join) simp
  also have "\<dots> = ?key"
    using st [of "''Upgrade''" "''websocket''"] st [of "''Connection''" "''Upgrade''"] st [of "''Sec-WebSocket-Accept''" ?key]
      low trim_value_space [OF key(1) kne] by simp
  finally have acc: "lines_loop accept_step (join_lines ?ls) 0 [] = ?key" .
  have len: "drop (length (join_lines (?l # ?ls)) + 4) (bytes_of (switching_text ?key)) = []" unfolding sw by simp
  let ?X = "bytes_of (switching_text ?key)"
  have r: "wc_recv (c\<lparr>wc_recv := ?X\<rparr>) = ?X" "pendingKey (c\<lparr>wc_recv := ?X\<rparr>) = pendingKey c" by simp_all
  have cb: "wc_callback env COpen (c\<lparr>wc_recv := ?X, wc_state := Open\<rparr>) = c\<lparr>wc_recv := ?X, wc_state := Open, wc_calls := wc_calls c @ [COpen]\<rparr>"
    by (simp add: wc_callback_def assms(2))
  have "handleHandshakeResponse env data c =
      (let c1 = c\<lparr>wc_recv := ?X, wc_state := Open, wc_calls := wc_calls c @ [COpen]\<rparr>;
           remaining = drop (length (join_lines (?l # ?ls)) + 4) (wc_recv c1)
       in if remaining \<noteq> [] then wc_handleWsFrames env remaining (c1\<lparr>wc_recv := []\<rparr>) else Some (c1\<lparr>wc_recv := []\<rparr>))"
    unfolding handleHandshakeResponse_def Let_def assms(1) r string_of_bytes_of 1 option.case 2 3 4 acc cb
    using c101 by (simp only: not_not if_False simp_thms)
  then show ?thesis using len by (simp add: Let_def)
qed

section \<open>Property\<close>

text \<open>
  (C6) The handshake completes on both sides: when a client connects, its upgrade request is accepted by the server, which
  consumes exactly its bytes, opens the session and records the path; and the answer of the server, computed from the
  same key, is accepted by the client, which opens as well.
\<close>

theorem ws_handshake_completes:
  assumes "plain_text pth" and "plain_text host" and "nonce \<noteq> []" and "env_validator env = None" and "env_app env OnOpen = []"
    and "wce_app cenv COpen = []" and "wce_sha1 cenv = env_sha1 env" and "sess_state s = Connecting" and "conn_up s"
    and "Buffer_inv buf" and "contents buf = upgrade_request pth host (generateWebSocketKey nonce) @ rest" and "length (contents buf) < 2 ^ 64"
  defines "c \<equiv> wc_onConnection cenv nonce True (WebSocketClient_new host pth)"
  shows "wc_out c = [OutHttp (upgrade_request pth host (generateWebSocketKey nonce))] \<and>
    (\<exists>s' buf' resp c'. handleHandshake env s buf = (True, s', buf') \<and> contents buf' = rest \<and> sess_state s' = Open \<and>
       getContext ''path'' [] s' = pth \<and> sess_out s' = sess_out s @ [OutHttp resp] \<and>
       wc_onMessage cenv (bytes_of resp) c = Some c' \<and> wc_state c' = Open \<and> wc_calls c' = [COpen])"
proof -
  let ?key = "generateWebSocketKey nonce"
  have key: "plain_text ?key" "?key \<noteq> []"
    using base64_plain [OF base64Encode_chars] base64Encode_nonempty [OF assms(3)] by (simp_all add: generateWebSocketKey_def)
  have c: "wc_out c = [OutHttp (upgrade_request pth host ?key)]" "pendingKey c = ?key" "wc_recv c = []" "wc_state c = Connecting" "wc_calls c = []"
    by (simp_all add: c_def wc_onConnection_def WebSocketClient_new_def wc_send_def Let_def)
  let ?resp = "switching_text (computeAcceptKey (env_sha1 env) ?key)"
  obtain buf' where b: "handleHandshake env s buf = (True, upgrade_session env pth ?key s, buf')" "contents buf' = rest"
    using handshake_accepted [OF assms(1,2) key assms(4,10,11,12)] by blast
  have "wc_recv c @ bytes_of ?resp = bytes_of (switching_text (computeAcceptKey (wce_sha1 cenv) (pendingKey c)))"
    by (simp add: c assms(7))
  from handshake_answered [OF this assms(6)] c(4,5)
  have "wc_onMessage cenv (bytes_of ?resp) c = Some (c\<lparr>wc_state := Open, wc_recv := [], wc_calls := [COpen]\<rparr>)"
    by (simp add: wc_onMessage_def)
  moreover have "sess_state (upgrade_session env pth ?key s) = Open" "getContext ''path'' [] (upgrade_session env pth ?key s) = pth"
      "sess_out (upgrade_session env pth ?key s) = sess_out s @ [OutHttp ?resp]"
    using assms(5,9)
    by (simp_all add: upgrade_session_def Let_def ws_callback_def conn_send_def setContext_def getContext_def updateActivity_def)
  ultimately show ?thesis using b c(1) by fastforce
qed

theorem ws_handshake_completes_witness:
  "let cenv = \<lparr>wce_sha1 = (\<lambda>_. []), wce_keys = (\<lambda>_. [1, 2, 3, 4]), wce_app = (\<lambda>_. [])\<rparr>;
       env = \<lparr>env_sha1 = (\<lambda>_. []), env_validator = None, env_app = (\<lambda>_. []), env_config = WebSocketConfig_new, env_now = 5\<rparr>;
       c = wc_onConnection cenv [7] True (WebSocketClient_new ''h:1'' ''/chat'')
   in \<exists>s' buf'. handleHandshake env (WsSession_new 0)
        (Buffer_append (Buffer_new 16) (upgrade_request ''/chat'' ''h:1'' (generateWebSocketKey [7]))) = (True, s', buf') \<and>
      sess_state s' = Open \<and> wc_out c = [OutHttp (upgrade_request ''/chat'' ''h:1'' (generateWebSocketKey [7]))]"
proof -
  let ?cenv = "\<lparr>wce_sha1 = (\<lambda>_. []), wce_keys = (\<lambda>_. [1, 2, 3, 4]), wce_app = (\<lambda>_. [])\<rparr>"
  let ?env = "\<lparr>env_sha1 = (\<lambda>_. []), env_validator = None, env_app = (\<lambda>_. []), env_config = WebSocketConfig_new, env_now = 5\<rparr>"
  let ?buf = "Buffer_append (Buffer_new 16) (upgrade_request ''/chat'' ''h:1'' (generateWebSocketKey [7]))"
  have p: "plain_text ''/chat''" "plain_text ''h:1''" by code_simp+
  have inv: "Buffer_inv ?buf" by (simp add: Buffer_inv_append Buffer_new_inv)
  have cont: "contents ?buf = upgrade_request ''/chat'' ''h:1'' (generateWebSocketKey [7]) @ []" by (simp add: Buffer_new_inv)
  have "length (generateWebSocketKey [7]) = 4"
    by (simp add: generateWebSocketKey_def base64Encode_def base64_group_def Let_def)
  then have len: "length (contents ?buf) < 2 ^ 64" unfolding cont by (simp add: upgrade_request_def)
  show ?thesis
    using ws_handshake_completes [OF p, of "[7]" ?env ?cenv "WsSession_new 0" ?buf "[]"] inv cont len
    by (fastforce simp: WsSession_new_def Let_def)
qed

end
