(* ===== verification/LoadBalance.thy ===== *)
theory LoadBalance
  imports Prelude CppString
begin

text \<open>
  \<^verbatim>\<open>src/balancer/LoadBalancer.h\<close>: the five strategies and the balancer that owns the list of servers.  Servers are shared pointers
  in the source; here a server is a number in a store.  \<^verbatim>\<open>int\<close> fields are unbounded integers; the bounds that keep them in
  range are proved for the smooth weighted strategy.  The index of the round robin is a 64-bit word and wraps.  The random
  generator is a parameter.  The interface \<^verbatim>\<open>ILoadBalanceStrategy\<close> is a locale with the promise of its comment: a healthy server of
  the list, or null when there is none.
\<close>

section \<open>Servers\<close>

record backend =
  bs_host :: string
  bs_port :: int
  weight :: int
  currentWeight :: int
  connections :: int
  healthy :: bool

type_synonym backends = "nat \<Rightarrow> backend"

definition BackendServer_new :: "string \<Rightarrow> int \<Rightarrow> int \<Rightarrow> backend" where
  "BackendServer_new h p w = \<lparr>bs_host = h, bs_port = p, weight = w, currentWeight = 0, connections = 0, healthy = True\<rparr>"

definition address :: "backend \<Rightarrow> string" where
  "address b = bs_host b @ '':'' @ int_to_string (bs_port b)"

section \<open>Strategies\<close>

definition rr_select :: "64 word \<Rightarrow> backends \<Rightarrow> nat list \<Rightarrow> nat option \<times> 64 word" where
  "rr_select index st servers =
     (if servers = [] then (None, index)
      else let hs = filter (\<lambda>i. healthy (st i)) servers in
        if hs = [] then (None, index)
        else (Some (hs ! (unat index mod length hs)), index + 1))"

text \<open>The loop of the weighted strategy: the candidate so far and the weights seen so far.\<close>

fun wrr_loop :: "nat list \<Rightarrow> backends \<Rightarrow> nat option \<Rightarrow> int \<Rightarrow> nat option \<times> int \<times> backends" where
  "wrr_loop [] st selected totalWeight = (selected, totalWeight, st)"
| "wrr_loop (i # is) st selected totalWeight =
     (if \<not> healthy (st i) then wrr_loop is st selected totalWeight
      else
        (let st1 = st(i := (st i)\<lparr>currentWeight := currentWeight (st i) + weight (st i)\<rparr>);
             selected1 = (case selected of
                            None \<Rightarrow> Some i
                          | Some j \<Rightarrow> if currentWeight (st1 i) > currentWeight (st1 j) then Some i else selected)
         in wrr_loop is st1 selected1 (totalWeight + weight (st i))))"

definition wrr_select :: "backends \<Rightarrow> nat list \<Rightarrow> nat option \<times> backends" where
  "wrr_select st servers =
     (if servers = [] then (None, st)
      else case wrr_loop servers st None 0 of
             (None, totalWeight, st1) \<Rightarrow> (None, st1)
           | (Some i, totalWeight, st1) \<Rightarrow>
               (Some i, st1(i := (st1 i)\<lparr>currentWeight := currentWeight (st1 i) - totalWeight\<rparr>)))"

definition INT32_MAX :: int where
  "INT32_MAX = 2147483647"

fun lc_loop :: "nat list \<Rightarrow> backends \<Rightarrow> nat option \<Rightarrow> int \<Rightarrow> nat option" where
  "lc_loop [] st selected minConns = selected"
| "lc_loop (i # is) st selected minConns =
     (if healthy (st i) \<and> connections (st i) < minConns then lc_loop is st (Some i) (connections (st i))
      else lc_loop is st selected minConns)"

definition lc_select :: "backends \<Rightarrow> nat list \<Rightarrow> nat option \<times> backends" where
  "lc_select st servers =
     (if servers = [] then (None, st)
      else case lc_loop servers st None INT32_MAX of
             None \<Rightarrow> (None, st)
           | Some i \<Rightarrow> (Some i, st(i := (st i)\<lparr>connections := connections (st i) + 1\<rparr>)))"

definition lc_release :: "nat option \<Rightarrow> backends \<Rightarrow> backends" where
  "lc_release server st =
     (case server of
        None \<Rightarrow> st
      | Some i \<Rightarrow> if connections (st i) > 0 then st(i := (st i)\<lparr>connections := connections (st i) - 1\<rparr>) else st)"

text \<open>\<open>dist a b\<close> is what \<^verbatim>\<open>uniform_int_distribution(a, b)\<close> draws.\<close>

definition random_select :: "(nat \<Rightarrow> nat \<Rightarrow> nat) \<Rightarrow> backends \<Rightarrow> nat list \<Rightarrow> nat option" where
  "random_select dist st servers =
     (if servers = [] then None
      else let hs = filter (\<lambda>i. healthy (st i)) servers in
        if hs = [] then None else Some (hs ! dist 0 (length hs - 1)))"

text \<open>The hash ring, a \<^verbatim>\<open>std::map\<close>: its entries in the order of the hashes.\<close>

type_synonym ring = "(32 word \<times> nat) list"

fun ring_put :: "32 word \<Rightarrow> nat \<Rightarrow> ring \<Rightarrow> ring" where
  "ring_put h i [] = [(h, i)]"
| "ring_put h i ((h', i') # r) =
     (if h = h' then (h, i) # r else if h < h' then (h, i) # (h', i') # r else (h', i') # ring_put h i r)"

definition hashString :: "string \<Rightarrow> 32 word" where
  "hashString str = fold (\<lambda>c hash. (push_bit 5 hash + hash) + of_nat (of_char c)) str 5381"

definition node_hash :: "backend \<Rightarrow> nat \<Rightarrow> 32 word" where
  "node_hash b k = hashString (address b @ ''#'' @ to_string k)"

definition ch_add :: "nat \<Rightarrow> backends \<Rightarrow> nat \<Rightarrow> ring \<Rightarrow> ring" where
  "ch_add virtualNodes st i r = fold (\<lambda>k. ring_put (node_hash (st i) k) i) [0..<virtualNodes] r"

definition ch_init :: "nat \<Rightarrow> backends \<Rightarrow> nat list \<Rightarrow> ring" where
  "ch_init virtualNodes st servers = fold (\<lambda>i r. if healthy (st i) then ch_add virtualNodes st i r else r) servers []"

definition selectWithKey :: "32 word \<Rightarrow> ring \<Rightarrow> nat option" where
  "selectWithKey key r =
     (case r of
        [] \<Rightarrow> None
      | first # _ \<Rightarrow> (case find (\<lambda>(h, i). key \<le> h) r of Some (h, i) \<Rightarrow> Some i | None \<Rightarrow> Some (snd first)))"

section \<open>The balancer\<close>

datatype strategy = RoundRobin | WeightedRoundRobin | LeastConnections | Random | ConsistentHash

record load_balancer =
  lb_strategy :: strategy
  lb_index :: "64 word"
  lb_ring :: ring
  lb_servers :: "nat list"
  lb_store :: backends
  lb_next :: nat

definition LoadBalancer_new :: "strategy \<Rightarrow> load_balancer" where
  "LoadBalancer_new s = \<lparr>lb_strategy = s, lb_index = 0, lb_ring = [], lb_servers = [],
     lb_store = (\<lambda>_. BackendServer_new [] 0 1), lb_next = 0\<rparr>"

definition addServer :: "string \<Rightarrow> int \<Rightarrow> int \<Rightarrow> load_balancer \<Rightarrow> load_balancer" where
  "addServer host port w lb =
     lb\<lparr>lb_servers := lb_servers lb @ [lb_next lb], lb_store := (lb_store lb)(lb_next lb := BackendServer_new host port w),
        lb_next := lb_next lb + 1\<rparr>"

definition at_address :: "load_balancer \<Rightarrow> string \<Rightarrow> int \<Rightarrow> nat \<Rightarrow> bool" where
  "at_address lb host port i \<longleftrightarrow> bs_host (lb_store lb i) = host \<and> bs_port (lb_store lb i) = port"

definition removeServer :: "string \<Rightarrow> int \<Rightarrow> load_balancer \<Rightarrow> load_balancer" where
  "removeServer host port lb = lb\<lparr>lb_servers := filter (\<lambda>i. \<not> at_address lb host port i) (lb_servers lb)\<rparr>"

definition lb_select :: "(nat \<Rightarrow> nat \<Rightarrow> nat) \<Rightarrow> load_balancer \<Rightarrow> nat option \<times> load_balancer" where
  "lb_select dist lb =
     (case lb_strategy lb of
        RoundRobin \<Rightarrow> (let (r, index) = rr_select (lb_index lb) (lb_store lb) (lb_servers lb) in (r, lb\<lparr>lb_index := index\<rparr>))
      | WeightedRoundRobin \<Rightarrow> (let (r, st) = wrr_select (lb_store lb) (lb_servers lb) in (r, lb\<lparr>lb_store := st\<rparr>))
      | LeastConnections \<Rightarrow> (let (r, st) = lc_select (lb_store lb) (lb_servers lb) in (r, lb\<lparr>lb_store := st\<rparr>))
      | Random \<Rightarrow> (random_select dist (lb_store lb) (lb_servers lb), lb)
      | ConsistentHash \<Rightarrow> (selectWithKey 0 (lb_ring lb), lb))"

definition releaseConnection :: "nat option \<Rightarrow> load_balancer \<Rightarrow> load_balancer" where
  "releaseConnection server lb =
     (if lb_strategy lb = LeastConnections then lb\<lparr>lb_store := lc_release server (lb_store lb)\<rparr> else lb)"

definition setServerHealth :: "string \<Rightarrow> int \<Rightarrow> bool \<Rightarrow> load_balancer \<Rightarrow> load_balancer" where
  "setServerHealth host port h lb =
     (case find (at_address lb host port) (lb_servers lb) of
        None \<Rightarrow> lb
      | Some i \<Rightarrow> lb\<lparr>lb_store := (lb_store lb)(i := (lb_store lb i)\<lparr>healthy := h\<rparr>)\<rparr>)"

fun strategyName :: "strategy \<Rightarrow> string" where
  "strategyName RoundRobin = ''RoundRobin''"
| "strategyName WeightedRoundRobin = ''WeightedRoundRobin''"
| "strategyName LeastConnections = ''LeastConnections''"
| "strategyName Random = ''Random''"
| "strategyName ConsistentHash = ''ConsistentHash''"

section \<open>The interface of the strategies\<close>

text \<open>
  \<open>sel s st servers\<close> is the selection in the state \<open>s\<close> of the strategy; \<open>ok\<close> is what a strategy needs of its state and the servers.
  A selection changes no address, weight or health mark.
\<close>

locale load_balance_strategy =
  fixes sel :: "'s \<Rightarrow> backends \<Rightarrow> nat list \<Rightarrow> nat option \<times> 's \<times> backends"
    and ok :: "'s \<Rightarrow> backends \<Rightarrow> nat list \<Rightarrow> bool"
  assumes sel_Some: "ok s st servers \<Longrightarrow> fst (sel s st servers) = Some i \<Longrightarrow> i \<in> set servers \<and> healthy (st i)"
    and sel_None: "ok s st servers \<Longrightarrow> fst (sel s st servers) = None \<Longrightarrow> i \<in> set servers \<Longrightarrow> \<not> healthy (st i)"
    and sel_fixed: "backend.weight (snd (snd (sel s st servers)) i) = weight (st i) \<and> healthy (snd (snd (sel s st servers)) i) = healthy (st i)"
begin

lemma selects_healthy:
  assumes "ok s st servers"
  shows "case fst (sel s st servers) of Some i \<Rightarrow> i \<in> set servers \<and> healthy (st i) | None \<Rightarrow> \<forall>i \<in> set servers. \<not> healthy (st i)"
  using sel_Some [OF assms] sel_None [OF assms] by (auto split: option.split)

end

lemma find_healthy_nth:
  assumes "filter (\<lambda>i. healthy (st i)) servers \<noteq> []" and "k < length (filter (\<lambda>i. healthy (st i)) servers)"
  shows "filter (\<lambda>i. healthy (st i)) servers ! k \<in> set servers \<and> healthy (st (filter (\<lambda>i. healthy (st i)) servers ! k))"
  using nth_mem [OF assms(2)] by auto

interpretation rr: load_balance_strategy
  "\<lambda>index st servers. let (r, index') = rr_select index st servers in (r, index', st)" "\<lambda>_ _ _. True"
proof (unfold_locales, goal_cases)
  case (1 index st servers i)
  then show ?case by (auto simp: rr_select_def Let_def find_healthy_nth split: if_splits)
next
  case (2 index st servers i)
  then show ?case by (auto simp: rr_select_def Let_def filter_empty_conv split: if_splits)
qed (simp add: split_beta Let_def)

definition draws_in_range :: "(nat \<Rightarrow> nat \<Rightarrow> nat) \<Rightarrow> bool" where
  "draws_in_range dist \<longleftrightarrow> (\<forall>a b. a \<le> b \<longrightarrow> a \<le> dist a b \<and> dist a b \<le> b)"

lemma draw_less: "draws_in_range dist \<Longrightarrow> 0 < n \<Longrightarrow> dist 0 (n - 1) < n"
proof -
  assume "draws_in_range dist" and "0 < n"
  then have "dist 0 (n - 1) \<le> n - 1" unfolding draws_in_range_def by blast
  with \<open>0 < n\<close> show ?thesis by linarith
qed

interpretation rnd: load_balance_strategy "\<lambda>dist st servers. (random_select dist st servers, dist, st)" "\<lambda>dist _ _. draws_in_range dist"
proof (unfold_locales, goal_cases)
  case (1 dist st servers i)
  let ?hs = "filter (\<lambda>i. healthy (st i)) servers"
  have hs: "?hs \<noteq> []" "i = ?hs ! dist 0 (length ?hs - 1)" using 1(2) by (auto simp: random_select_def Let_def split: if_splits)
  then have "dist 0 (length ?hs - 1) < length ?hs" using draw_less [OF 1(1)] by simp
  with find_healthy_nth [OF hs(1)] hs(2) show ?case by simp
next
  case (2 dist st servers i)
  then show ?case by (auto simp: random_select_def Let_def filter_empty_conv split: if_splits)
qed simp

section \<open>Least connections\<close>

lemma lc_loop_least:
  assumes "\<And>j. selected = Some j \<Longrightarrow> connections (st j) = minConns"
  shows "case lc_loop is st selected minConns of
      None \<Rightarrow> selected = None \<and> (\<forall>j \<in> set is. healthy (st j) \<longrightarrow> minConns \<le> connections (st j))
    | Some i \<Rightarrow> (selected = Some i \<or> i \<in> set is \<and> healthy (st i)) \<and> connections (st i) \<le> minConns \<and>
        (\<forall>j \<in> set is. healthy (st j) \<longrightarrow> connections (st i) \<le> connections (st j))"
  using assms
proof (induction "is" arbitrary: selected minConns)
  case (Cons k "is")
  show ?case
  proof (cases "healthy (st k) \<and> connections (st k) < minConns")
    case True
    with Cons.IH [of "Some k" "connections (st k)"] show ?thesis by (auto split: option.splits)
  next
    case False
    then have eq: "lc_loop (k # is) st selected minConns = lc_loop is st selected minConns" by auto
    have k: "healthy (st k) \<Longrightarrow> minConns \<le> connections (st k)" using False by auto
    note ih = Cons.IH [of selected minConns, OF Cons.prems, simplified]
    show ?thesis
      unfolding eq using ih k by (cases "lc_loop is st selected minConns") auto
  qed
qed (auto split: option.split)

definition lc_room :: "backends \<Rightarrow> nat list \<Rightarrow> bool" where
  "lc_room st servers \<longleftrightarrow> (\<forall>i \<in> set servers. connections (st i) < INT32_MAX)"

lemma lc_select_least:
  assumes "lc_room st servers"
  shows "case fst (lc_select st servers) of
      None \<Rightarrow> \<forall>j \<in> set servers. \<not> healthy (st j)
    | Some i \<Rightarrow> i \<in> set servers \<and> healthy (st i) \<and> (\<forall>j \<in> set servers. healthy (st j) \<longrightarrow> connections (st i) \<le> connections (st j))"
  using lc_loop_least [of None st INT32_MAX servers] assms
  by (fastforce simp: lc_select_def lc_room_def split: option.splits)

interpretation lc: load_balance_strategy
  "\<lambda>_ st servers. let (r, st') = lc_select st servers in (r, (), st')" "\<lambda>_ st servers. lc_room st servers"
proof (unfold_locales, goal_cases)
  case (1 s st servers i)
  then show ?case using lc_select_least [OF 1(1)] by (auto simp: split_beta Let_def)
next
  case (2 s st servers i)
  then show ?case using lc_select_least [OF 2(1)] by (auto simp: split_beta Let_def)
qed (auto simp: lc_select_def split: option.split)

section \<open>Smooth weighted round robin\<close>

text \<open>What the loop does to the store, the sum it computes, and the candidate it leaves: one with the largest current weight.\<close>

definition bump :: "nat list \<Rightarrow> backends \<Rightarrow> backends" where
  "bump is st = (\<lambda>i. if i \<in> set is \<and> healthy (st i) then (st i)\<lparr>currentWeight := currentWeight (st i) + weight (st i)\<rparr> else st i)"

abbreviation healthy_of :: "backends \<Rightarrow> nat list \<Rightarrow> nat list" where
  "healthy_of st servers \<equiv> filter (\<lambda>i. healthy (st i)) servers"

definition total_weight :: "backends \<Rightarrow> nat list \<Rightarrow> int" where
  "total_weight st servers = (\<Sum>i\<leftarrow>healthy_of st servers. weight (st i))"

definition is_heaviest :: "backends \<Rightarrow> nat set \<Rightarrow> nat option \<Rightarrow> bool" where
  "is_heaviest st A sel \<longleftrightarrow> (case sel of None \<Rightarrow> A = {} | Some i \<Rightarrow> i \<in> A \<and> (\<forall>j \<in> A. currentWeight (st j) \<le> currentWeight (st i)))"

lemma bump_other: "i \<notin> set is \<Longrightarrow> bump is st i = st i"
  by (simp add: bump_def)

lemma bump_Cons:
  "i \<notin> set is \<Longrightarrow> bump is (st(i := (st i)\<lparr>currentWeight := currentWeight (st i) + weight (st i)\<rparr>)) = (if healthy (st i) then bump (i # is) st
     else (bump is st)(i := (st i)\<lparr>currentWeight := currentWeight (st i) + weight (st i)\<rparr>))"
  by (auto simp: bump_def fun_eq_iff)

lemma wrr_loop_sums:
  assumes "distinct is"
  shows "snd (wrr_loop is st sel tot) = (tot + total_weight st is, bump is st)"
  using assms
proof (induction "is" arbitrary: st sel tot)
  case (Cons i "is")
  have "total_weight (st(i := (st i)\<lparr>currentWeight := x\<rparr>)) is = total_weight st is" for x
    unfolding total_weight_def using Cons.prems
    by (intro arg_cong [where f = sum_list] map_cong filter_cong) auto
  with Cons show ?case
    by (auto simp: Let_def bump_Cons total_weight_def) (auto simp: bump_def fun_eq_iff)
qed (simp add: total_weight_def bump_def fun_eq_iff)

lemma is_heaviest_step:
  assumes "is_heaviest st A sel" and "i \<notin> A"
  defines "st1 \<equiv> st(i := (st i)\<lparr>currentWeight := currentWeight (st i) + weight (st i)\<rparr>)"
  shows "is_heaviest st1 (insert i A)
    (case sel of None \<Rightarrow> Some i | Some j \<Rightarrow> if currentWeight (st1 i) > currentWeight (st1 j) then Some i else sel)"
  using assms by (fastforce simp: is_heaviest_def split: option.splits)

lemma is_heaviest_cong:
  "is_heaviest st A sel \<Longrightarrow> (\<And>i. i \<in> A \<Longrightarrow> st' i = st i) \<Longrightarrow> is_heaviest st' A sel"
  by (auto simp: is_heaviest_def split: option.splits)

lemma wrr_loop_heaviest:
  assumes "distinct is" and "is_heaviest st A sel" and "A \<inter> set is = {}"
  shows "is_heaviest (bump is st) (A \<union> set (healthy_of st is)) (fst (wrr_loop is st sel tot))"
  using assms
proof (induction "is" arbitrary: st sel tot A)
  case (Cons i "is")
  show ?case
  proof (cases "healthy (st i)")
    case True
    let ?st1 = "st(i := (st i)\<lparr>currentWeight := currentWeight (st i) + weight (st i)\<rparr>)"
    have hs: "healthy_of ?st1 is = healthy_of st is" using Cons.prems(1) by (intro filter_cong) auto
    let ?sel1 = "case sel of None \<Rightarrow> Some i | Some j \<Rightarrow> if currentWeight (?st1 i) > currentWeight (?st1 j) then Some i else sel"
    have sets: "insert i A \<union> set (healthy_of ?st1 is) = A \<union> set (healthy_of st (i # is))" unfolding hs using True by auto
    have wl: "wrr_loop (i # is) st sel tot = wrr_loop is ?st1 ?sel1 (tot + weight (st i))" using True by (simp add: Let_def)
    have b: "bump is ?st1 = bump (i # is) st" using True Cons.prems(1) bump_Cons [of i "is" st] by simp
    have "is_heaviest (bump is ?st1) (insert i A \<union> set (healthy_of ?st1 is)) (fst (wrr_loop is ?st1 ?sel1 (tot + weight (st i))))"
      by (rule Cons.IH [OF _ is_heaviest_step [OF Cons.prems(2)]]) (use Cons.prems in auto)
    then show ?thesis unfolding sets wl b .
  next
    case False
    then have "bump (i # is) st = bump is st" by (auto simp: bump_def fun_eq_iff)
    with False Cons.IH [OF _ Cons.prems(2), of tot] Cons.prems show ?thesis by auto
  qed
qed (simp add: bump_def)

lemma wrr_select_step:
  assumes "distinct servers" and "healthy_of st servers \<noteq> []"
  obtains i where "i \<in> set (healthy_of st servers)"
    and "\<And>j. j \<in> set (healthy_of st servers) \<Longrightarrow> currentWeight (st j) + weight (st j) \<le> currentWeight (st i) + weight (st i)"
    and "wrr_select st servers = (Some i, (bump servers st)(i := (st i)\<lparr>currentWeight :=
      currentWeight (st i) + weight (st i) - total_weight st servers\<rparr>))"
proof -
  have h: "is_heaviest (bump servers st) (set (healthy_of st servers)) (fst (wrr_loop servers st None 0))"
    using wrr_loop_heaviest [OF assms(1), of st "{}" None 0] by (simp add: is_heaviest_def)
  then obtain i where i: "fst (wrr_loop servers st None 0) = Some i" "i \<in> set (healthy_of st servers)"
      "\<forall>j \<in> set (healthy_of st servers). currentWeight (bump servers st j) \<le> currentWeight (bump servers st i)"
    using assms(2) by (auto simp: is_heaviest_def filter_empty_conv split: option.splits)
  have b: "bump servers st j = (st j)\<lparr>currentWeight := currentWeight (st j) + weight (st j)\<rparr>" if "j \<in> set (healthy_of st servers)" for j
    using that by (simp add: bump_def)
  have "wrr_loop servers st None 0 = (Some i, total_weight st servers, bump servers st)"
    using i(1) wrr_loop_sums [OF assms(1), of st None 0] by (simp add: prod_eq_iff)
  then have "wrr_select st servers = (Some i, (bump servers st)(i := (st i)\<lparr>currentWeight :=
      currentWeight (st i) + weight (st i) - total_weight st servers\<rparr>))"
    using assms(2) b [OF i(2)] by (auto simp: wrr_select_def)
  then show thesis using that [OF i(2)] i(2,3) b by simp
qed

fun wrr_run :: "nat \<Rightarrow> nat list \<Rightarrow> backends \<Rightarrow> nat option list \<times> backends" where
  "wrr_run 0 servers st = ([], st)"
| "wrr_run (Suc n) servers st =
     (let (ps, st1) = wrr_run n servers st; (r, st2) = wrr_select st1 servers in (ps @ [r], st2))"

text \<open>
  After \<open>k\<close> selections the current weight of a server is what it was owed minus what it was given, it is above minus the total,
  and the sum of all current weights is zero.
\<close>

definition wrr_inv :: "nat list \<Rightarrow> backends \<Rightarrow> nat \<Rightarrow> nat option list \<Rightarrow> backends \<Rightarrow> bool" where
  "wrr_inv servers st0 k ps st \<longleftrightarrow>
     (\<forall>i. (st i)\<lparr>currentWeight := 0\<rparr> = (st0 i)\<lparr>currentWeight := 0\<rparr>) \<and>
     (\<forall>i. i \<notin> set (healthy_of st0 servers) \<longrightarrow> st i = st0 i) \<and>
     (\<forall>i \<in> set (healthy_of st0 servers).
        currentWeight (st i) = int k * weight (st0 i) - total_weight st0 servers * int (count_list ps (Some i)) \<and>
        - total_weight st0 servers < currentWeight (st i)) \<and>
     (\<Sum>i \<in> set (healthy_of st0 servers). currentWeight (st i)) = 0"

lemma same_but_weight:
  assumes "(a :: backend)\<lparr>currentWeight := 0\<rparr> = b\<lparr>currentWeight := 0\<rparr>"
  shows "weight a = weight b" and "healthy a = healthy b" and "a\<lparr>currentWeight := x\<rparr> = b\<lparr>currentWeight := x\<rparr>"
  using assms by (cases a; cases b; simp)+

lemma total_weight_sum: "distinct servers \<Longrightarrow> total_weight st servers = (\<Sum>i \<in> set (healthy_of st servers). weight (st i))"
  by (simp add: total_weight_def sum_list_distinct_conv_sum_set)

lemma max_positive:
  fixes f :: "'a \<Rightarrow> int"
  assumes "finite A" and "0 < sum f A" and "\<And>j. j \<in> A \<Longrightarrow> f j \<le> f i"
  shows "0 < f i"
proof (rule ccontr)
  assume "\<not> 0 < f i"
  then have "\<And>j. j \<in> A \<Longrightarrow> f j \<le> 0" using assms(3) by fastforce
  then have "sum f A \<le> 0" by (rule sum_nonpos)
  with assms(2) show False by simp
qed

lemma wrr_inv_step:
  assumes inv: "wrr_inv servers st0 k ps st" and d: "distinct servers" and pos: "0 < total_weight st0 servers"
    and w: "\<And>i. i \<in> set (healthy_of st0 servers) \<Longrightarrow> 0 \<le> weight (st0 i)"
  shows "\<exists>i st'. wrr_select st servers = (Some i, st') \<and> i \<in> set (healthy_of st0 servers) \<and> wrr_inv servers st0 (Suc k) (ps @ [Some i]) st'"
proof -
  let ?H = "set (healthy_of st0 servers)" and ?W = "total_weight st0 servers"
  have static: "weight (st i) = weight (st0 i)" "healthy (st i) = healthy (st0 i)" for i
    using inv same_but_weight unfolding wrr_inv_def by blast+
  have H: "healthy_of st servers = healthy_of st0 servers" and W: "total_weight st servers = ?W"
    by (simp_all add: static total_weight_def)
  have "healthy_of st0 servers \<noteq> []" using pos by (auto simp: total_weight_def)
  then obtain i where i: "i \<in> ?H" and
      heaviest: "\<And>j. j \<in> ?H \<Longrightarrow> currentWeight (st j) + weight (st0 j) \<le> currentWeight (st i) + weight (st0 i)"
      and sel: "wrr_select st servers = (Some i, (bump servers st)(i := (st i)\<lparr>currentWeight := currentWeight (st i) + weight (st0 i) - ?W\<rparr>))"
    using wrr_select_step [OF d, of st] unfolding H W static by blast
  let ?st' = "(bump servers st)(i := (st i)\<lparr>currentWeight := currentWeight (st i) + weight (st0 i) - ?W\<rparr>)"
  have cw: "currentWeight (?st' j) = currentWeight (st j) + weight (st0 j) - (if j = i then ?W else 0)" if "j \<in> ?H" for j
    using that by (auto simp: bump_def static)
  have total: "(\<Sum>j \<in> ?H. currentWeight (st j) + weight (st0 j)) = ?W"
  proof -
    have "(\<Sum>j \<in> ?H. currentWeight (st j)) = 0" using inv unfolding wrr_inv_def by blast
    then show ?thesis by (simp only: sum.distrib total_weight_sum [OF d])
  qed
  then have "0 < currentWeight (st i) + weight (st0 i)" 
    using max_positive [of ?H "\<lambda>j. currentWeight (st j) + weight (st0 j)" i] pos heaviest by simp
  then have low: "- ?W < currentWeight (?st' j)" if "j \<in> ?H" for j
  proof -
    have "- ?W < currentWeight (st j)" using inv that unfolding wrr_inv_def by blast
    with w [OF that] \<open>0 < currentWeight (st i) + weight (st0 i)\<close> show ?thesis unfolding cw [OF that] by auto
  qed
  have "(\<Sum>j \<in> ?H. currentWeight (?st' j)) = (\<Sum>j \<in> ?H. currentWeight (st j) + weight (st0 j)) - (\<Sum>j \<in> ?H. if j = i then ?W else 0)"
    by (simp only: sum_subtractf [symmetric]) (rule sum.cong, simp_all only: cw)
  also have "\<dots> = 0" using i by (simp add: total del: set_filter)
  finally have zero: "(\<Sum>j \<in> ?H. currentWeight (?st' j)) = 0" .
  have "(?st' j)\<lparr>currentWeight := 0\<rparr> = (st0 j)\<lparr>currentWeight := 0\<rparr>" for j
    using inv by (simp add: wrr_inv_def bump_def)
  moreover have "?st' j = st0 j" if "j \<notin> ?H" for j
    using that i inv by (auto simp: wrr_inv_def bump_def static)
  moreover have "currentWeight (?st' j) = int (Suc k) * weight (st0 j) - ?W * int (count_list (ps @ [Some i]) (Some j))" if "j \<in> ?H" for j
  proof -
    have "currentWeight (st j) = int k * weight (st0 j) - ?W * int (count_list ps (Some j))"
      using inv that unfolding wrr_inv_def by blast
    then show ?thesis unfolding cw [OF that] by (auto simp: algebra_simps)
  qed
  ultimately have "wrr_inv servers st0 (Suc k) (ps @ [Some i]) ?st'"
    unfolding wrr_inv_def using low zero by blast
  with sel i show ?thesis by blast
qed

lemma wrr_inv_run:
  assumes "distinct servers" and "0 < total_weight st servers"
    and "\<And>i. i \<in> set (healthy_of st servers) \<Longrightarrow> 0 \<le> weight (st i) \<and> currentWeight (st i) = 0"
  shows "wrr_inv servers st k (fst (wrr_run k servers st)) (snd (wrr_run k servers st))"
proof (induction k)
  case 0
  then show ?case using assms(2,3) by (simp add: wrr_inv_def)
next
  case (Suc k)
  from wrr_inv_step [OF Suc assms(1,2)] assms(3)
  obtain i st' where "wrr_select (snd (wrr_run k servers st)) servers = (Some i, st')"
    "wrr_inv servers st (Suc k) (fst (wrr_run k servers st) @ [Some i]) st'" by blast
  then show ?case by (simp add: split_beta Let_def)
qed

lemma zero_sum_bound:
  fixes f :: "'a \<Rightarrow> int"
  assumes "finite A" and "i \<in> A" and "sum f A = 0" and "\<And>j. j \<in> A \<Longrightarrow> - w < f j"
  shows "f i \<le> int (card A - 1) * (w - 1)"
proof -
  have "f i = (\<Sum>j \<in> A - {i}. - f j)" using assms(3) sum.remove [OF assms(1,2), of f] by (simp add: sum_negf)
  also have "\<dots> \<le> (\<Sum>j \<in> A - {i}. w - 1)" using assms(4) by (intro sum_mono) fastforce
  finally show ?thesis using assms(1,2) by (simp add: card_Diff_singleton)
qed

lemma wrr_inv_bounds:
  assumes inv: "wrr_inv servers st0 k ps st" and i: "i \<in> set (healthy_of st0 servers)" and pos: "0 < total_weight st0 servers"
  shows "- total_weight st0 servers < currentWeight (st i) \<and> currentWeight (st i) \<le> int (length servers) * total_weight st0 servers"
proof -
  let ?W = "total_weight st0 servers" and ?H = "set (healthy_of st0 servers)"
  have low: "\<And>j. j \<in> ?H \<Longrightarrow> - ?W < currentWeight (st j)" and zero: "(\<Sum>j \<in> ?H. currentWeight (st j)) = 0"
    using inv unfolding wrr_inv_def by blast+
  have "currentWeight (st i) \<le> int (card ?H - 1) * (?W - 1)"
    by (rule zero_sum_bound [OF _ i zero low]) simp
  also have "\<dots> \<le> int (length servers) * ?W"
  proof (rule mult_mono)
    show "int (card ?H - 1) \<le> int (length servers)"
      using card_length [of "healthy_of st0 servers"] length_filter_le [of "\<lambda>i. healthy (st0 i)" servers] by linarith
  qed (use pos in simp_all)
  finally show ?thesis using low [OF i] by blast
qed

lemma wrr_select_member:
  assumes "distinct servers" and "fst (wrr_select st servers) = Some i"
  shows "i \<in> set servers \<and> healthy (st i)"
proof (cases "healthy_of st servers = []")
  case False
  then show ?thesis using wrr_select_step [OF assms(1), of st] assms(2) by fastforce
next
  case True
  have "fst (wrr_loop servers st None 0) = None"
    using wrr_loop_heaviest [OF assms(1), of st "{}" None 0] True by (simp add: is_heaviest_def split: option.splits)
  then show ?thesis using assms(2) by (auto simp: wrr_select_def split: prod.splits if_splits)
qed

lemma wrr_loop_fixed: "weight (snd (snd (wrr_loop is st sel tot)) i) = weight (st i) \<and> healthy (snd (snd (wrr_loop is st sel tot)) i) = healthy (st i)"
  by (induction "is" arbitrary: st sel tot) (simp_all add: Let_def)

interpretation wrr: load_balance_strategy
  "\<lambda>_ st servers. let (r, st') = wrr_select st servers in (r, (), st')" "\<lambda>_ st servers. distinct servers"
proof (unfold_locales, goal_cases)
  case (1 s st servers i)
  then show ?case using wrr_select_member [of servers st i] by (simp add: split_beta Let_def)
next
  case (2 s st servers i)
  show ?case
  proof
    assume "healthy (st i)"
    then have "healthy_of st servers \<noteq> []" using 2(3) by (auto simp: filter_empty_conv)
    then show False by (rule wrr_select_step [OF 2(1)]) (use 2(2) in \<open>simp add: split_beta Let_def\<close>)
  qed
next
  case (3 s st servers i)
  show ?case using wrr_loop_fixed [of servers st None 0 i]
    by (auto simp: wrr_select_def split_beta Let_def split: option.split)
qed

section \<open>The hash ring\<close>

definition ring_sorted :: "ring \<Rightarrow> bool" where
  "ring_sorted r \<longleftrightarrow> sorted_wrt (<) (map fst r)"

lemma ring_put_map [simp]: "map_of (ring_put h i r) = (map_of r)(h \<mapsto> i)"
  by (induction h i r rule: ring_put.induct) (auto simp: fun_eq_iff)

lemma ring_put_keys [simp]: "fst ` set (ring_put h i r) = insert h (fst ` set r)"
  by (induction h i r rule: ring_put.induct) auto

lemma ring_put_sorted [inv_intros]: "ring_sorted r \<Longrightarrow> ring_sorted (ring_put h i r)"
proof (induction h i r rule: ring_put.induct)
  case (2 h i h' i' r)
  have r: "ring_sorted r" "\<forall>x \<in> fst ` set r. h' < x" using 2(2) by (auto simp: ring_sorted_def)
  consider "h = h'" | "h < h'" | "h \<noteq> h'" "\<not> h < h'" by blast
  then show ?case
  proof cases
    case 3
    then have "h' < h" by simp
    then have "\<forall>x \<in> fst ` set (ring_put h i r). h' < x" using r(2) by simp
    then show ?thesis using 3 2(1) r(1) by (simp add: ring_sorted_def)
  qed (use 2(2) r in \<open>auto simp: ring_sorted_def\<close>)
qed (simp add: ring_sorted_def)

definition owns :: "nat \<Rightarrow> backends \<Rightarrow> 32 word \<Rightarrow> nat \<Rightarrow> bool" where
  "owns virtualNodes st h i \<longleftrightarrow> healthy (st i) \<and> (\<exists>k < virtualNodes. node_hash (st i) k = h)"

lemma ch_add_map:
  "map_of (ch_add n st i r) h = (if \<exists>k < n. node_hash (st i) k = h then Some i else map_of r h)"
  unfolding ch_add_def by (induction n) (auto simp: less_Suc_eq)

lemma ch_add_sorted [inv_intros]: "ring_sorted r \<Longrightarrow> ring_sorted (ch_add n st i r)"
  unfolding ch_add_def by (induction n) (auto intro: inv_intros)

lemma ch_init_snoc: "ch_init n st (servers @ [i]) = (if healthy (st i) then ch_add n st i (ch_init n st servers) else ch_init n st servers)"
  by (simp add: ch_init_def)

lemma ch_init_map: "map_of (ch_init n st servers) h = find (owns n st h) (rev servers)"
proof (induction servers rule: rev_induct)
  case (snoc i servers)
  then show ?case by (auto simp: ch_init_snoc ch_add_map owns_def)
qed (simp add: ch_init_def)

lemma ch_init_sorted: "ring_sorted (ch_init n st servers)"
proof (induction servers rule: rev_induct)
  case (snoc i servers)
  then show ?case by (auto simp: ch_init_snoc intro: inv_intros)
qed (simp add: ch_init_def ring_sorted_def)

text \<open>The entry a key falls on: the first at or after it, or else the first of all.\<close>

definition ring_hit :: "32 word \<Rightarrow> ring \<Rightarrow> 32 word \<Rightarrow> nat \<Rightarrow> bool" where
  "ring_hit key r h i \<longleftrightarrow> map_of r h = Some i \<and>
     (key \<le> h \<and> (\<forall>h' \<in> dom (map_of r). key \<le> h' \<longrightarrow> h \<le> h') \<or>
      (\<forall>h' \<in> dom (map_of r). h' < key \<and> h \<le> h'))"

lemma ring_hit_unique: "ring_hit key r h i \<Longrightarrow> ring_hit key r h' i' \<Longrightarrow> i = i'"
proof -
  assume a: "ring_hit key r h i" and b: "ring_hit key r h' i'"
  then have "h \<in> dom (map_of r)" "h' \<in> dom (map_of r)" by (auto simp: ring_hit_def)
  with a b have "h = h'" unfolding ring_hit_def by (metis leD order_antisym)
  with a b show ?thesis by (simp add: ring_hit_def)
qed

lemma ring_sorted_split:
  assumes "ring_sorted (pre @ (h, i) # post)"
  shows "map_of (pre @ (h, i) # post) h = Some i" and "\<And>h'. h' \<in> fst ` set post \<Longrightarrow> h < h'"
proof -
  have "h \<notin> fst ` set pre" using assms by (fastforce simp: ring_sorted_def sorted_wrt_append)
  then show "map_of (pre @ (h, i) # post) h = Some i" by (simp add: map_add_def map_of_eq_None_iff [THEN iffD2])
  show "h < h'" if "h' \<in> fst ` set post" for h' using that assms by (auto simp: ring_sorted_def sorted_wrt_append)
qed

lemma selectWithKey_hits:
  assumes "ring_sorted r" and "r \<noteq> []"
  shows "\<exists>h i. selectWithKey key r = Some i \<and> ring_hit key r h i"
proof (cases "find (\<lambda>(h, i). key \<le> h) r")
  case None
  obtain h i post where r: "r = (h, i) # post" using assms(2) by (metis list.exhaust surj_pair)
  have "h' < key" if "h' \<in> dom (map_of r)" for h'
    using None that by (auto simp: find_None_iff dom_map_of_conv_image_fst not_le)
  moreover have "h \<le> h'" if "h' \<in> dom (map_of r)" for h'
  proof -
    from that consider "h' = h" | "h' \<in> fst ` set post" by (auto simp: r dom_map_of_conv_image_fst)
    then show ?thesis using ring_sorted_split(2) [of "[]" h i post] assms(1) by cases (auto simp: r intro: less_imp_le)
  qed
  ultimately have "ring_hit key r h i" by (simp add: ring_hit_def r)
  then show ?thesis using None by (auto simp: selectWithKey_def r)
next
  case (Some e)
  obtain h i where e: "e = (h, i)" by fastforce
  obtain pre post where r: "r = pre @ (h, i) # post" and key: "key \<le> h" and pre: "\<forall>x \<in> set pre. fst x < key"
  proof -
    from Some obtain n where n: "n < length r" "key \<le> fst (r ! n)" "r ! n = (h, i)" "\<forall>j < n. fst (r ! j) < key"
      unfolding find_Some_iff e split_beta not_le by metis
    have "r = take n r @ (h, i) # drop (Suc n) r" using id_take_nth_drop [OF n(1)] n(3) by simp
    moreover have "\<forall>x \<in> set (take n r). fst x < key" 
    proof
      fix x assume "x \<in> set (take n r)"
      then obtain j where "j < length (take n r)" "take n r ! j = x" by (meson in_set_conv_nth)
      with n(4) show "fst x < key" by auto
    qed
    ultimately show thesis using that n(2,3) by simp
  qed
  have s: "map_of r h = Some i" "\<And>h'. h' \<in> fst ` set post \<Longrightarrow> h < h'"
    using ring_sorted_split [of pre h i post] assms(1) by (auto simp: r)
  have "h \<le> h'" if "h' \<in> dom (map_of r)" "key \<le> h'" for h'
  proof -
    from that(1) obtain j where "(h', j) \<in> set r" by (auto simp: dom_map_of_conv_image_fst)
    then consider "(h', j) \<in> set pre" | "h' = h" | "h' \<in> fst ` set post" by (force simp: r)
    then show ?thesis using pre that(2) s(2) by cases (fastforce, simp, simp add: less_imp_le)
  qed
  with s(1) key have "ring_hit key r h i" by (simp add: ring_hit_def)
  then show ?thesis using Some by (cases r) (auto simp: selectWithKey_def e)
qed

lemma selectWithKey_iff:
  assumes "ring_sorted r"
  shows "selectWithKey key r = Some i \<longleftrightarrow> (\<exists>h. ring_hit key r h i)"
proof (cases "r = []")
  case False
  then obtain h j where j: "selectWithKey key r = Some j" "ring_hit key r h j" using selectWithKey_hits [OF assms, of key] by blast
  have "(\<exists>h. ring_hit key r h i) \<longleftrightarrow> j = i" using j(2) ring_hit_unique by blast
  then show ?thesis unfolding j(1) by simp
qed (simp add: selectWithKey_def ring_hit_def)

section \<open>Reachable balancers\<close>

text \<open>The public operations of a balancer, in any order.\<close>

inductive lb_reach :: "load_balancer \<Rightarrow> bool" where
  reach_new: "lb_reach (LoadBalancer_new s)"
| reach_add: "lb_reach lb \<Longrightarrow> lb_reach (addServer host port w lb)"
| reach_remove: "lb_reach lb \<Longrightarrow> lb_reach (removeServer host port lb)"
| reach_select: "lb_reach lb \<Longrightarrow> lb_reach (snd (lb_select dist lb))"
| reach_release: "lb_reach lb \<Longrightarrow> lb_reach (releaseConnection server lb)"
| reach_health: "lb_reach lb \<Longrightarrow> lb_reach (setServerHealth host port h lb)"

text \<open>No server is listed twice, and nothing ever fills the hash ring of a balancer.\<close>

definition lb_inv :: "load_balancer \<Rightarrow> bool" where
  "lb_inv lb \<longleftrightarrow> distinct (lb_servers lb) \<and> (\<forall>i \<in> set (lb_servers lb). i < lb_next lb) \<and> lb_ring lb = []"

lemma lb_select_lists: "lb_servers (snd (lb_select dist lb)) = lb_servers lb \<and> lb_next (snd (lb_select dist lb)) = lb_next lb \<and>
    lb_ring (snd (lb_select dist lb)) = lb_ring lb"
  by (simp add: lb_select_def split_beta Let_def split: strategy.split)

lemma lb_reach_inv: "lb_reach lb \<Longrightarrow> lb_inv lb"
proof (induction rule: lb_reach.induct)
  case (reach_select lb dist)
  then show ?case using lb_select_lists [of dist lb] by (simp add: lb_inv_def)
qed (auto simp: lb_inv_def LoadBalancer_new_def addServer_def removeServer_def releaseConnection_def setServerHealth_def
    less_SucI split: option.split)

lemma find_filter_kept: "find Q xs = Some x \<Longrightarrow> P x \<Longrightarrow> find Q (filter P xs) = Some x"
  by (induction xs) (auto split: if_splits)

lemma find_filter_found: "find Q xs = None \<Longrightarrow> find Q (filter P xs) = None"
  by (induction xs) (auto split: if_splits)

section \<open>Properties\<close>

text \<open>
  (C19) The smooth weighted round robin is exactly fair: started with current weights zero, one round of as many selections as
  the total weight of the healthy servers picks every healthy server exactly as often as its weight says and leaves every
  server as it was.  At every moment the current weights stay above minus the total and below the number of servers times the total,
  so that the \<^verbatim>\<open>int\<close> fields cannot overflow when that product fits.
\<close>

theorem wrr_period:
  assumes "distinct servers" and "0 < total_weight st servers"
    and "\<forall>i \<in> set servers. healthy (st i) \<longrightarrow> 0 \<le> weight (st i) \<and> currentWeight (st i) = 0"
  shows "let (ps, st') = wrr_run (nat (total_weight st servers)) servers st
         in st' = st \<and> (\<forall>i \<in> set servers. healthy (st i) \<longrightarrow> int (count_list ps (Some i)) = weight (st i)) \<and>
            (\<forall>k. \<forall>i \<in> set servers. healthy (st i) \<longrightarrow> - total_weight st servers < currentWeight (snd (wrr_run k servers st) i) \<and>
               currentWeight (snd (wrr_run k servers st) i) \<le> int (length servers) * total_weight st servers)"
proof -
  let ?W = "total_weight st servers" and ?H = "set (healthy_of st servers)"
  have inv: "wrr_inv servers st k (fst (wrr_run k servers st)) (snd (wrr_run k servers st))" for k
    using wrr_inv_run [OF assms(1,2)] assms(3) by simp
  obtain ps st' where run: "wrr_run (nat ?W) servers st = (ps, st')" by fastforce
  from inv [of "nat ?W"] have v: "\<And>i. (st' i)\<lparr>currentWeight := 0\<rparr> = (st i)\<lparr>currentWeight := 0\<rparr>" "\<And>i. i \<notin> ?H \<Longrightarrow> st' i = st i"
      "\<And>i. i \<in> ?H \<Longrightarrow> currentWeight (st' i) = ?W * (weight (st i) - int (count_list ps (Some i)))"
      "\<And>i. i \<in> ?H \<Longrightarrow> - ?W < currentWeight (st' i)" "(\<Sum>i \<in> ?H. currentWeight (st' i)) = 0"
    using assms(2) unfolding wrr_inv_def run by (auto simp: algebra_simps)
  have nonneg: "0 \<le> currentWeight (st' i)" if "i \<in> ?H" for i
  proof -
    have "?W * (weight (st i) - int (count_list ps (Some i)) + 1) > 0" using v(4) [OF that] unfolding v(3) [OF that] by (simp add: algebra_simps)
    then have "0 < weight (st i) - int (count_list ps (Some i)) + 1" using assms(2) zero_less_mult_pos by blast
    then show ?thesis using assms(2) unfolding v(3) [OF that] by simp
  qed
  have zero: "currentWeight (st' i) = 0" if "i \<in> ?H" for i
    using sum_nonneg_eq_0_iff [of ?H "\<lambda>i. currentWeight (st' i)"] nonneg v(5) that by blast
  have "st' i = st i" for i
  proof (cases "i \<in> ?H")
    case True
    then have "currentWeight (st i) = currentWeight (st' i)" using assms(3) zero by simp
    then show ?thesis using v(1) [of i] by (cases "st i"; cases "st' i") simp
  qed (use v(2) in blast)
  moreover have "int (count_list ps (Some i)) = weight (st i)" if "i \<in> ?H" for i
    using zero [OF that] assms(2) unfolding v(3) [OF that] by simp
  moreover have "- ?W < currentWeight (snd (wrr_run k servers st) i) \<and> currentWeight (snd (wrr_run k servers st) i) \<le> int (length servers) * ?W"
    if "i \<in> ?H" for i k
    by (rule wrr_inv_bounds [OF inv that assms(2)])
  ultimately show ?thesis by (simp add: run fun_eq_iff)
qed

definition sample_backends :: backends where
  "sample_backends i = BackendServer_new ''a'' (int i) (if i = 0 then 2 else 1)"

lemma sample_backends_fields: "healthy (sample_backends i)" "currentWeight (sample_backends i) = 0" "connections (sample_backends i) = 0"
  "weight (sample_backends 0) = 2" "weight (sample_backends (Suc 0)) = 1"
  by (simp_all add: sample_backends_def BackendServer_new_def)

theorem wrr_period_witness:
  "snd (wrr_run 3 [0, 1] sample_backends) = sample_backends \<and> count_list (fst (wrr_run 3 [0, 1] sample_backends)) (Some 0) = 2"
  using wrr_period [of "[0, 1]" sample_backends] by (simp add: total_weight_def sample_backends_fields split_beta Let_def)

text \<open>
  Consistent hashing moves only the keys of the servers that go away: when the ring is rebuilt without some of the servers,
  every key whose server stays keeps its server, also when virtual nodes of different servers collide.
\<close>

theorem consistent_hash_stable:
  assumes "selectWithKey key (ch_init virtualNodes st servers) = Some i" and "P i"
  shows "selectWithKey key (ch_init virtualNodes st (filter P servers)) = Some i"
proof -
  let ?r = "ch_init virtualNodes st servers" and ?r' = "ch_init virtualNodes st (filter P servers)"
  obtain h where hit: "ring_hit key ?r h i" using assms(1) selectWithKey_iff [OF ch_init_sorted] by blast
  then have "find (owns virtualNodes st h) (rev servers) = Some i" by (simp add: ring_hit_def ch_init_map)
  then have "map_of ?r' h = Some i" using assms(2) by (simp add: ch_init_map rev_filter find_filter_kept)
  moreover have "dom (map_of ?r') \<subseteq> dom (map_of ?r)"
    using find_filter_found by (fastforce simp: dom_def ch_init_map rev_filter)
  ultimately have "ring_hit key ?r' h i" using hit unfolding ring_hit_def by blast
  then show ?thesis using selectWithKey_iff [OF ch_init_sorted] by blast
qed

theorem consistent_hash_stable_witness:
  "selectWithKey 0 (ch_init 1 sample_backends (filter (\<lambda>i. i = 0) [0, 1])) = Some 0"
proof -
  have "selectWithKey 0 (ch_init 1 sample_backends [0, 1]) = Some 0" by code_simp
  from consistent_hash_stable [OF this, of "\<lambda>i. i = 0"] show ?thesis by simp
qed

text \<open>
  The balancer keeps the promise of the strategy interface after any sequence of its operations: with every
  strategy except consistent hashing, a selection returns a healthy server of the list, and null only when the list has none; with
  least connections the server returned has the fewest connections of all healthy servers.  With consistent hashing a
  selection always returns null, since the balancer never fills the ring.
\<close>

theorem lb_select_healthy:
  assumes "lb_reach lb" and "draws_in_range dist" and "lc_room (lb_store lb) (lb_servers lb)"
  shows "case fst (lb_select dist lb) of
      None \<Rightarrow> lb_strategy lb = ConsistentHash \<or> (\<forall>i \<in> set (lb_servers lb). \<not> healthy (lb_store lb i))
    | Some i \<Rightarrow> lb_strategy lb \<noteq> ConsistentHash \<and> i \<in> set (lb_servers lb) \<and> healthy (lb_store lb i) \<and>
        (lb_strategy lb = LeastConnections \<longrightarrow>
          (\<forall>j \<in> set (lb_servers lb). healthy (lb_store lb j) \<longrightarrow> connections (lb_store lb i) \<le> connections (lb_store lb j)))"
proof (cases "lb_strategy lb")
  case RoundRobin
  then show ?thesis using rr.selects_healthy [where s = "lb_index lb" and st = "lb_store lb" and servers = "lb_servers lb"]
    by (simp add: lb_select_def split_beta Let_def split: option.splits)
next
  case WeightedRoundRobin
  then show ?thesis using wrr.selects_healthy [where servers = "lb_servers lb" and st = "lb_store lb"] lb_reach_inv [OF assms(1)]
    by (simp add: lb_inv_def lb_select_def split_beta Let_def split: option.splits)
next
  case LeastConnections
  then show ?thesis using lc_select_least [OF assms(3)] by (simp add: lb_select_def split_beta Let_def split: option.splits)
next
  case Random
  then show ?thesis using rnd.selects_healthy [OF assms(2), where st = "lb_store lb" and servers = "lb_servers lb"]
    by (simp add: lb_select_def split: option.splits)
next
  case ConsistentHash
  then show ?thesis using lb_reach_inv [OF assms(1)] by (simp add: lb_inv_def lb_select_def selectWithKey_def)
qed

theorem lb_select_healthy_witness:
  "let lb = addServer ''a'' 80 1 (LoadBalancer_new LeastConnections) in fst (lb_select (\<lambda>a b. a) lb) = Some 0 \<and> draws_in_range (\<lambda>a b. a)"
proof -
  let ?lb = "addServer ''a'' 80 1 (LoadBalancer_new LeastConnections)"
  have "draws_in_range (\<lambda>a b. a)" by (simp add: draws_in_range_def)
  moreover have "lb_reach ?lb" by (intro lb_reach.intros)
  ultimately show ?thesis using lb_select_healthy [of ?lb "\<lambda>a b. a"]
    by (auto simp: addServer_def LoadBalancer_new_def BackendServer_new_def lc_room_def INT32_MAX_def split: option.splits)
qed

end
