(* ===== verification/SnowflakeModel.thy ===== *)
theory SnowflakeModel
  imports Prelude
begin

text \<open>
  \<^verbatim>\<open>src/util/Snowflake.h\<close>: the generator of 64-bit identifiers.  \<open>clock n\<close> is the \<open>n\<close>-th reading of the system clock in
  milliseconds; a call starts at a reading and returns the next one.  The clock is arbitrary: it may stand still or go back.  The
  busy wait for the next millisecond need not end, so \<^verbatim>\<open>nextId\<close> is a partial function; that it returns is proved for every clock
  that does not stand still for ever.
\<close>

section \<open>Constants and state\<close>

definition kEpoch :: int where
  "kEpoch = 1735689600000"

definition kWorkerIdBits :: nat where
  "kWorkerIdBits = 10"

definition kSequenceBits :: nat where
  "kSequenceBits = 12"

definition kMaxWorkerId :: int where
  "kMaxWorkerId = push_bit kWorkerIdBits 1 - 1"

definition kMaxSequence :: int where
  "kMaxSequence = push_bit kSequenceBits 1 - 1"

definition kWorkerIdShift :: nat where
  "kWorkerIdShift = kSequenceBits"

definition kTimestampShift :: nat where
  "kTimestampShift = kSequenceBits + kWorkerIdBits"

definition kMaxClockRollbackMs :: int where
  "kMaxClockRollbackMs = 5"

lemmas snow_consts = kWorkerIdBits_def kSequenceBits_def kMaxWorkerId_def kMaxSequence_def kWorkerIdShift_def kTimestampShift_def

datatype snow_error = WorkerOutOfRange int | AlreadyInitialized | NotInitialized | ClockRollback int | InvalidEnv string

record snowflake =
  initialized :: bool
  worker :: int
  lastTimestamp :: int
  sequence :: int

definition Snowflake_new :: snowflake where
  "Snowflake_new = \<lparr>initialized = False, worker = 0, lastTimestamp = - 1, sequence = 0\<rparr>"

definition snow_init :: "int \<Rightarrow> snowflake \<Rightarrow> (snow_error + unit) \<times> snowflake" where
  "snow_init w s =
     (if w < 0 \<or> w > kMaxWorkerId then (Inl (WorkerOutOfRange w), s)
      else if initialized s then (Inl AlreadyInitialized, s)
      else (Inr (), s\<lparr>initialized := True, worker := w\<rparr>))"

text \<open>\<^verbatim>\<open>initFromEnv\<close>: \<open>env\<close> is the value of the variable, if set, and \<open>stoll\<close> what \<^verbatim>\<open>std::stoll\<close> makes of it (\<open>None\<close> when it throws).\<close>

definition initFromEnv :: "(string \<Rightarrow> int option) \<Rightarrow> string option \<Rightarrow> snowflake \<Rightarrow> (snow_error + unit) \<times> snowflake" where
  "initFromEnv stoll env s =
     (case env of
        None \<Rightarrow> snow_init 0 s
      | Some v \<Rightarrow> (case stoll v of None \<Rightarrow> (Inl (InvalidEnv v), s) | Some wid \<Rightarrow> snow_init wid s))"

definition snow_workerId :: "snowflake \<Rightarrow> int" where
  "snow_workerId s = (if initialized s then worker s else - 1)"

section \<open>Identifiers\<close>

definition snow_id :: "int \<Rightarrow> int \<Rightarrow> int \<Rightarrow> 64 word" where
  "snow_id now w s = push_bit kTimestampShift (of_int (now - kEpoch)) OR push_bit kWorkerIdShift (of_int w) OR of_int s"

definition extractTimestamp :: "64 word \<Rightarrow> int" where
  "extractTimestamp x = sint (signed_drop_bit kTimestampShift x) + kEpoch"

definition extractWorkerId :: "64 word \<Rightarrow> int" where
  "extractWorkerId x = sint (signed_drop_bit kWorkerIdShift x AND of_int kMaxWorkerId)"

definition extractSequence :: "64 word \<Rightarrow> int" where
  "extractSequence x = sint (x AND of_int kMaxSequence)"

text \<open>The busy wait: the first reading after the last timestamp, and the number of readings used so far.\<close>

partial_function (option) spin :: "(nat \<Rightarrow> int) \<Rightarrow> nat \<Rightarrow> int \<Rightarrow> (int \<times> nat) option" where
  "spin clock n prev = (if clock n \<le> prev then spin clock (Suc n) prev else Some (clock n, Suc n))"

text \<open>A clock that went back: wait when it is a little, refuse when it is more.\<close>

definition catch_up :: "(nat \<Rightarrow> int) \<Rightarrow> nat \<Rightarrow> int \<Rightarrow> snow_error + int \<times> nat" where
  "catch_up clock n prev =
     (let now = clock n in
      if now < prev then
        (let offset = prev - now in
         if offset \<le> kMaxClockRollbackMs
         then Inr (if clock (Suc n) < prev then prev else clock (Suc n), Suc (Suc n))
         else Inl (ClockRollback offset))
      else Inr (now, Suc n))"

definition nextId :: "(nat \<Rightarrow> int) \<Rightarrow> nat \<Rightarrow> snowflake \<Rightarrow> ((snow_error + 64 word) \<times> snowflake \<times> nat) option" where
  "nextId clock n s =
     (if \<not> initialized s then Some (Inl NotInitialized, s, n)
      else case catch_up clock n (lastTimestamp s) of
             Inl e \<Rightarrow> Some (Inl e, s, Suc n)
           | Inr (now, n1) \<Rightarrow>
               (let seq = (if now = lastTimestamp s then (sequence s + 1) AND kMaxSequence else 0);
                    waited = (if now = lastTimestamp s \<and> seq = 0 then spin clock n1 (lastTimestamp s) else Some (now, n1)) in
                case waited of
                  None \<Rightarrow> None
                | Some (now', n2) \<Rightarrow>
                    Some (Inr (snow_id now' (worker s) seq), s\<lparr>sequence := seq, lastTimestamp := now'\<rparr>, n2)))"

section \<open>The bits of an identifier\<close>

lemma or_shifted:
  fixes a b :: int
  assumes "0 \<le> b" and "b < 2 ^ n"
  shows "push_bit n a OR b = a * 2 ^ n + b"
proof -
  have "push_bit n a AND b = 0"
  proof (rule bit_eqI)
    fix m
    have "bit b m \<Longrightarrow> m < n"
      using assms by (metis bit_take_bit_iff take_bit_int_eq_self)
    then show "bit (push_bit n a AND b) m = bit 0 m" by (auto simp: bit_and_iff bit_push_bit_iff)
  qed
  then show ?thesis by (simp add: disjunctive_add_eq_or [symmetric] push_bit_eq_mult)
qed

definition snow_num :: "int \<Rightarrow> int \<Rightarrow> int \<Rightarrow> int" where
  "snow_num now w s = (now - kEpoch) * 2 ^ 22 + w * 2 ^ 12 + s"

definition in_range :: "int \<Rightarrow> int \<Rightarrow> int \<Rightarrow> bool" where
  "in_range now w s \<longleftrightarrow> 0 \<le> now - kEpoch \<and> now - kEpoch < 2 ^ 41 \<and> 0 \<le> w \<and> w < 2 ^ 10 \<and> 0 \<le> s \<and> s < 2 ^ 12"

lemma snow_num_range: "in_range now w s \<Longrightarrow> 0 \<le> snow_num now w s \<and> snow_num now w s < 2 ^ 63"
  by (auto simp: in_range_def snow_num_def)

lemma snow_id_num: 
  assumes "in_range now w s"
  shows "snow_id now w s = of_int (snow_num now w s)"
proof -
  have i: "push_bit 12 w OR s = w * 2 ^ 12 + s" "0 \<le> w * 2 ^ 12 + s" "w * 2 ^ 12 + s < 2 ^ 22"
    using assms or_shifted [of s 12 w] by (auto simp: in_range_def)
  have "snow_id now w s = of_int (push_bit 22 (now - kEpoch) OR (push_bit 12 w OR s))"
    by (simp add: snow_id_def snow_consts of_int_or_eq or.assoc push_bit_of_int del: of_int_diff)
  also have "push_bit 22 (now - kEpoch) OR (push_bit 12 w OR s) = snow_num now w s"
    unfolding i(1) or_shifted [OF i(2,3)] by (simp add: snow_num_def)
  finally show ?thesis .
qed

text \<open>In range, an identifier is a non-negative number whose digits are the three parts.\<close>

lemma sint_snow_id:
  assumes "in_range now w s"
  shows "sint (snow_id now w s) = snow_num now w s"
proof -
  have "sint (of_int (snow_num now w s) :: 64 word) = signed_take_bit 63 (snow_num now w s)" by (simp add: sint_sbintrunc')
  also have "\<dots> = snow_num now w s" using snow_num_range [OF assms] by (intro signed_take_bit_int_eq_self) auto
  finally show ?thesis by (simp add: snow_id_num [OF assms])
qed

lemma snow_num_parts:
  assumes "in_range now w s"
  shows "snow_num now w s div 2 ^ 22 = now - kEpoch" and "snow_num now w s div 2 ^ 12 mod 2 ^ 10 = w" and "snow_num now w s mod 2 ^ 12 = s"
proof -
  have e: "snow_num now w s = (w * 2 ^ 12 + s) + (now - kEpoch) * 2 ^ 22" "snow_num now w s = s + ((now - kEpoch) * 2 ^ 10 + w) * 2 ^ 12"
    by (simp_all add: snow_num_def)
  have "(w * 2 ^ 12 + s) div 2 ^ 22 = 0" using assms by (intro div_pos_pos_trivial) (auto simp: in_range_def)
  then show "snow_num now w s div 2 ^ 22 = now - kEpoch" unfolding e(1) by simp
  have s: "s div 2 ^ 12 = 0" "s mod 2 ^ 12 = s" using assms by (auto simp: in_range_def)
  then show "snow_num now w s mod 2 ^ 12 = s" unfolding e(2) by (simp only: mod_mult_self1)
  have "snow_num now w s div 2 ^ 12 = (now - kEpoch) * 2 ^ 10 + w" unfolding e(2) using s(1) by simp
  then have "snow_num now w s div 2 ^ 12 mod 2 ^ 10 = w mod 2 ^ 10" by (simp only: mod_mult_self3)
  then show "snow_num now w s div 2 ^ 12 mod 2 ^ 10 = w" using assms by (simp add: in_range_def)
qed

lemma extract_snow_id:
  assumes "in_range now w s"
  shows "extractTimestamp (snow_id now w s) = now" and "extractWorkerId (snow_id now w s) = w" and "extractSequence (snow_id now w s) = s"
proof -
  note n = sint_snow_id [OF assms] and p = snow_num_parts [OF assms]
  have d: "sint (signed_drop_bit k x) = sint x div 2 ^ k" for k and x :: "64 word"
    by (simp add: sint_signed_drop_bit_eq drop_bit_eq_div)
  show "extractTimestamp (snow_id now w s) = now"
    using p(1) by (simp add: extractTimestamp_def snow_consts d n)
  have m: "sint (x AND of_int (2 ^ k - 1)) = sint x mod 2 ^ k" if "k < 63" for k and x :: "64 word"
  proof -
    have "x AND of_int (2 ^ k - 1) = take_bit k x" by (simp add: take_bit_eq_mask mask_eq_exp_minus_1)
    moreover have "sint (take_bit k x) = take_bit k (sint x)"
      using that by (simp add: sint_uint unsigned_take_bit_eq signed_take_bit_take_bit take_bit_signed_take_bit min_def)
    ultimately show ?thesis by (simp add: take_bit_eq_mod)
  qed
  show "extractWorkerId (snow_id now w s) = w"
    using m [of 10 "signed_drop_bit 12 (snow_id now w s)"] p(2) by (simp add: extractWorkerId_def snow_consts d n)
  show "extractSequence (snow_id now w s) = s"
    using m [of 12 "snow_id now w s"] p(3) by (simp add: extractSequence_def snow_consts n)
qed

section \<open>Generating\<close>

lemma spin_later: "spin clock n prev = Some (t, m) \<Longrightarrow> prev < t \<and> (\<exists>j. t = clock j)"
proof -
  have "case y of (t, m) \<Rightarrow> prev < t \<and> (\<exists>j. t = clock j)" if "spin clock n prev = Some y" for y
    using that
    by (rule spin.raw_induct [rotated, where P = "\<lambda>clock n prev y. case y of (t, m) \<Rightarrow> prev < t \<and> (\<exists>j. t = clock j)"])
      (auto split: if_splits)
  then show "spin clock n prev = Some (t, m) \<Longrightarrow> prev < t \<and> (\<exists>j. t = clock j)" by fastforce
qed

lemma spin_returns: "n \<le> m \<Longrightarrow> prev < clock m \<Longrightarrow> spin clock n prev \<noteq> None"
proof (induction "m - n" arbitrary: n)
  case (Suc d)
  then have "spin clock (Suc n) prev \<noteq> None" by (intro Suc.hyps(1)) simp_all
  then show ?case by (subst spin.simps) simp
qed (subst spin.simps, simp)

definition snow_ok :: "snowflake \<Rightarrow> bool" where
  "snow_ok s \<longleftrightarrow> initialized s \<and> 0 \<le> worker s \<and> worker s < 2 ^ 10 \<and> 0 \<le> sequence s \<and> sequence s < 2 ^ 12"

definition clock_ok :: "(nat \<Rightarrow> int) \<Rightarrow> bool" where
  "clock_ok clock \<longleftrightarrow> (\<forall>n. kEpoch \<le> clock n \<and> clock n < kEpoch + 2 ^ 41)"

definition earlier :: "int \<times> int \<Rightarrow> int \<times> int \<Rightarrow> bool" where
  "earlier a b \<longleftrightarrow> fst a < fst b \<or> fst a = fst b \<and> snd a < snd b"

lemma earlier_trans: "earlier a b \<Longrightarrow> earlier b c \<Longrightarrow> earlier a c"
  by (auto simp: earlier_def)

lemma earlier_num: "in_range t w q \<Longrightarrow> in_range t' w q' \<Longrightarrow> earlier (t, q) (t', q') \<Longrightarrow> snow_num t w q < snow_num t' w q'"
  by (auto simp: earlier_def in_range_def snow_num_def)

lemma next_sequence: "(q + 1) AND kMaxSequence = (q + 1) mod 2 ^ 12"
proof -
  have "kMaxSequence = mask 12" by (simp add: snow_consts mask_eq_exp_minus_1)
  then have "(q + 1) AND kMaxSequence = take_bit 12 (q + 1)" by (simp only: take_bit_eq_mask)
  then show ?thesis by (simp only: take_bit_eq_mod)
qed

lemma catch_up_time:
  assumes "catch_up clock n prev = Inr (now, m)"
  shows "prev \<le> now" and "now = prev \<or> (\<exists>j. now = clock j)" and "m \<le> Suc (Suc n)"
  using assms by (auto simp: catch_up_def Let_def split: if_splits)

lemma nextId_step:
  assumes "snow_ok s" and "clock_ok clock" and "nextId clock n s = Some (r, s', n')"
    and "lastTimestamp s = - 1 \<or> (\<exists>j. lastTimestamp s = clock j)"
  shows "snow_ok s' \<and> worker s' = worker s \<and> (lastTimestamp s' = - 1 \<or> (\<exists>j. lastTimestamp s' = clock j)) \<and>
    (case r of Inl _ \<Rightarrow> s' = s
     | Inr i \<Rightarrow> i = snow_id (lastTimestamp s') (worker s) (sequence s') \<and> in_range (lastTimestamp s') (worker s) (sequence s') \<and>
         earlier (lastTimestamp s, sequence s) (lastTimestamp s', sequence s'))"
proof (cases "catch_up clock n (lastTimestamp s)")
  case (Inl e)
  then show ?thesis using assms by (auto simp: nextId_def snow_ok_def)
next
  case (Inr c)
  obtain now n1 where c: "c = (now, n1)" by fastforce
  note cu = catch_up_time [OF Inr [unfolded c]]
  let ?seq = "if now = lastTimestamp s then (sequence s + 1) AND kMaxSequence else 0"
  let ?wait = "now = lastTimestamp s \<and> ?seq = 0"
  from assms(1,3) Inr c obtain now' where w: "(if ?wait then spin clock n1 (lastTimestamp s) else Some (now, n1)) = Some (now', n')"
      and s': "r = Inr (snow_id now' (worker s) ?seq)" "s' = s\<lparr>sequence := ?seq, lastTimestamp := now'\<rparr>"
    by (auto simp: nextId_def snow_ok_def Let_def split: option.splits prod.splits)
  note q = next_sequence [of "sequence s"]
  have seq: "0 \<le> ?seq" "?seq < 2 ^ 12" unfolding q by simp_all
  have cl: "\<exists>j. now = clock j"
  proof (cases "now = lastTimestamp s \<and> lastTimestamp s = - 1")
    case True
    have "kEpoch \<le> clock n" using assms(2) by (simp add: clock_ok_def)
    then show ?thesis using Inr c True by (auto simp: catch_up_def Let_def kEpoch_def split: if_splits)
  next
    case False
    then show ?thesis using cu(2) assms(4) by auto
  qed
  have time: "(\<exists>j. now' = clock j) \<and> earlier (lastTimestamp s, sequence s) (now', ?seq)"
  proof (cases ?wait)
    case True
    then show ?thesis using spin_later [of clock n1 "lastTimestamp s" now' n'] w by (auto simp: earlier_def)
  next
    case False
    then have now: "now' = now" using w by (simp only: if_False option.inject prod.inject)
    show ?thesis
    proof (cases "now = lastTimestamp s")
      case True
      then have ne: "(sequence s + 1) mod 2 ^ 12 \<noteq> 0" using False unfolding q by auto
      have "sequence s + 1 < 2 ^ 12"
      proof (rule ccontr)
        assume "\<not> sequence s + 1 < 2 ^ 12"
        then have "sequence s + 1 = 2 ^ 12" using assms(1) by (simp add: snow_ok_def)
        with ne show False by simp
      qed
      then have "?seq = sequence s + 1" using True assms(1) unfolding q by (simp add: snow_ok_def)
      then show ?thesis using True now cl by (auto simp: earlier_def)
    next
      case False
      then show ?thesis using now cu(1) cl by (auto simp: earlier_def)
    qed
  qed
  then have "in_range now' (worker s) ?seq"
    using assms(1,2) seq unfolding in_range_def snow_ok_def clock_ok_def by (metis add.commute diff_ge_0_iff_ge diff_less_eq)
  then show ?thesis using time seq assms(1) by (auto simp: s' snow_ok_def)
qed

text \<open>Calls one after the other; a call that throws yields no identifier.\<close>

fun snow_run :: "(nat \<Rightarrow> int) \<Rightarrow> nat \<Rightarrow> nat \<Rightarrow> snowflake \<Rightarrow> (64 word list \<times> snowflake \<times> nat) option" where
  "snow_run clock 0 n s = Some ([], s, n)"
| "snow_run clock (Suc k) n s =
     (case nextId clock n s of
        None \<Rightarrow> None
      | Some (r, s1, n1) \<Rightarrow>
          map_option (\<lambda>(ids, s2, n2). (case r of Inl _ \<Rightarrow> ids | Inr i \<Rightarrow> i # ids, s2, n2)) (snow_run clock k n1 s1))"

lemma snow_run_increases:
  assumes "snow_ok s" and "clock_ok clock" and "lastTimestamp s = - 1 \<or> (\<exists>j. lastTimestamp s = clock j)"
    and "snow_run clock k n s = Some (ids, s', n')"
  shows "sorted_wrt (\<lambda>i j. sint i < sint j) ids \<and>
    (\<forall>i \<in> set ids. \<exists>t q. i = snow_id t (worker s) q \<and> in_range t (worker s) q \<and> earlier (lastTimestamp s, sequence s) (t, q))"
  using assms(1,3,4)
proof (induction k arbitrary: n s ids)
  case (Suc k)
  from Suc.prems(3) obtain r s1 n1 ids1 where a: "nextId clock n s = Some (r, s1, n1)" "snow_run clock k n1 s1 = Some (ids1, s', n')"
      "ids = (case r of Inl _ \<Rightarrow> ids1 | Inr i \<Rightarrow> i # ids1)"
    by (auto split: option.splits)
  note step = nextId_step [OF Suc.prems(1) assms(2) a(1) Suc.prems(2)]
  have ih: "sorted_wrt (\<lambda>i j. sint i < sint j) ids1 \<and>
      (\<forall>i \<in> set ids1. \<exists>t q. i = snow_id t (worker s) q \<and> in_range t (worker s) q \<and> earlier (lastTimestamp s1, sequence s1) (t, q))"
    using Suc.IH [OF _ _ a(2)] step by simp
  show ?case
  proof (cases r)
    case (Inl e)
    then show ?thesis using ih step a(3) by simp
  next
    case (Inr i)
    note s = step [unfolded Inr sum.case]
    have "sint i < sint j" if "j \<in> set ids1" for j
    proof -
      from bspec [OF conjunct2 [OF ih] that]
      obtain t q where j: "j = snow_id t (worker s) q" "in_range t (worker s) q" "earlier (lastTimestamp s1, sequence s1) (t, q)"
        by (elim exE conjE)
      show ?thesis using earlier_num [OF _ j(2,3)] s j(1,2) by (simp add: sint_snow_id)
    qed
    moreover have "\<exists>t q. j = snow_id t (worker s) q \<and> in_range t (worker s) q \<and> earlier (lastTimestamp s, sequence s) (t, q)"
      if "j \<in> set (i # ids1)" for j
    proof (cases "j = i")
      case True
      show ?thesis unfolding True by (intro exI) (rule s [THEN conjunct2, THEN conjunct2, THEN conjunct2])
    next
      case False
      then have "j \<in> set ids1" using that by simp
      from bspec [OF conjunct2 [OF ih] this]
      obtain t q where j: "j = snow_id t (worker s) q" "in_range t (worker s) q" "earlier (lastTimestamp s1, sequence s1) (t, q)"
        by (elim exE conjE)
      have "earlier (lastTimestamp s, sequence s) (lastTimestamp s1, sequence s1)" using s by simp
      from earlier_trans [OF this j(3)] j(1,2) show ?thesis by blast
    qed
    ultimately show ?thesis using ih a(3) Inr by simp
  qed
qed simp

section \<open>Properties\<close>

text \<open>
  (C20) Identifiers are unique, ordered and readable: whatever the clock does between the epoch and 2^41 milliseconds after it,
  the identifiers an initialised generator returns are strictly increasing positive numbers, and the three extraction functions
  give back the worker, a sequence number and a reading of the clock; so two workers never give the same identifier.  A call returns
  whenever the clock later passes the last timestamp.
\<close>

theorem snowflake_ids_increase:
  assumes "snow_init w Snowflake_new = (Inr (), s)" and "clock_ok clock"
  shows "(\<forall>k n ids s' n'. snow_run clock k n s = Some (ids, s', n') \<longrightarrow>
      sorted_wrt (\<lambda>i j. sint i < sint j) ids \<and>
      (\<forall>i \<in> set ids. 0 \<le> sint i \<and> extractWorkerId i = w \<and> 0 \<le> extractSequence i \<and> extractSequence i \<le> kMaxSequence \<and>
         kEpoch \<le> extractTimestamp i \<and> i = snow_id (extractTimestamp i) w (extractSequence i))) \<and>
    (\<forall>n s1. (\<exists>m \<ge> Suc (Suc n). lastTimestamp s1 < clock m) \<longrightarrow> nextId clock n s1 \<noteq> None)"
proof (intro conjI allI impI)
  have s: "snow_ok s" "worker s = w" "lastTimestamp s = - 1"
    using assms(1) by (auto simp: snow_init_def Snowflake_new_def snow_ok_def snow_consts split: if_splits)
  fix k n ids s' n' assume "snow_run clock k n s = Some (ids, s', n')"
  note r = snow_run_increases [OF s(1) assms(2) _ this, unfolded s(2,3), simplified]
  then show "sorted_wrt (\<lambda>i j. sint i < sint j) ids" by blast
  show "\<forall>i \<in> set ids. 0 \<le> sint i \<and> extractWorkerId i = w \<and> 0 \<le> extractSequence i \<and> extractSequence i \<le> kMaxSequence \<and>
      kEpoch \<le> extractTimestamp i \<and> i = snow_id (extractTimestamp i) w (extractSequence i)"
  proof
    fix i assume "i \<in> set ids"
    then obtain t q where i: "i = snow_id t w q" "in_range t w q" using r by blast
    then show "0 \<le> sint i \<and> extractWorkerId i = w \<and> 0 \<le> extractSequence i \<and> extractSequence i \<le> kMaxSequence \<and>
        kEpoch \<le> extractTimestamp i \<and> i = snow_id (extractTimestamp i) w (extractSequence i)"
      using snow_num_range [OF i(2)] unfolding i(1) extract_snow_id [OF i(2)] sint_snow_id [OF i(2)]
      by (simp add: in_range_def snow_consts)
  qed
next
  fix n and s1 :: snowflake assume "\<exists>m \<ge> Suc (Suc n). lastTimestamp s1 < clock m"
  then obtain m where m: "Suc (Suc n) \<le> m" "lastTimestamp s1 < clock m" by blast
  have "spin clock n1 (lastTimestamp s1) \<noteq> None" if "catch_up clock n (lastTimestamp s1) = Inr (now, n1)" for now n1
    using spin_returns [of n1 m "lastTimestamp s1" clock] catch_up_time(3) [OF that] m by simp
  then show "nextId clock n s1 \<noteq> None" by (auto simp: nextId_def Let_def split: sum.split option.split)
qed

theorem snowflake_ids_increase_witness:
  "let s = \<lparr>initialized = True, worker = 7, lastTimestamp = - 1, sequence = 0\<rparr>;
       ids = [snow_id kEpoch 7 0, snow_id kEpoch 7 1]
   in snow_run (\<lambda>_. kEpoch) 2 0 s = Some (ids, s\<lparr>lastTimestamp := kEpoch, sequence := 1\<rparr>, 2) \<and> sorted_wrt (\<lambda>i j. sint i < sint j) ids"
proof -
  let ?s = "\<lparr>initialized = True, worker = 7, lastTimestamp = - 1, sequence = 0\<rparr>"
  have i: "snow_init 7 Snowflake_new = (Inr (), ?s)" by (simp add: snow_init_def Snowflake_new_def snow_consts)
  have c: "clock_ok (\<lambda>_. kEpoch)" by (simp add: clock_ok_def)
  have run: "snow_run (\<lambda>_. kEpoch) 2 0 ?s = Some ([snow_id kEpoch 7 0, snow_id kEpoch 7 1], ?s\<lparr>lastTimestamp := kEpoch, sequence := 1\<rparr>, 2)"
    by (simp add: numeral_2_eq_2 nextId_def catch_up_def Let_def kEpoch_def snow_consts)
  from snowflake_ids_increase [OF i c, THEN conjunct1, rule_format, OF run] run show ?thesis unfolding Let_def by blast
qed

end
