(* ===== verification/CircuitBreakerModel.thy ===== *)
theory CircuitBreakerModel
  imports Prelude
begin

text \<open>
  \<^verbatim>\<open>src/util/CircuitBreaker.h\<close>: the breaker with its three states.  Every operation takes the reading of the clock it makes, in
  milliseconds.  A guarded operation is its result, or \<open>None\<close> when it throws.
\<close>

section \<open>State and operations\<close>

datatype cb_state = CbClosed | CbOpen | CbHalfOpen

record breaker =
  failureThreshold :: int
  successThreshold :: int
  timeoutMs :: int
  cb_state_of :: cb_state
  failureCount :: int
  successCount :: int
  lastFailureTime :: int

definition CircuitBreaker_new :: "int \<Rightarrow> int \<Rightarrow> int \<Rightarrow> breaker" where
  "CircuitBreaker_new ft st timeoutSec = \<lparr>failureThreshold = ft, successThreshold = st, timeoutMs = timeoutSec * 1000,
     cb_state_of = CbClosed, failureCount = 0, successCount = 0, lastFailureTime = 0\<rparr>"

definition timed_out :: "int \<Rightarrow> breaker \<Rightarrow> bool" where
  "timed_out now c \<longleftrightarrow> now - lastFailureTime c \<ge> timeoutMs c"

definition cb_get_state :: "int \<Rightarrow> breaker \<Rightarrow> cb_state \<times> breaker" where
  "cb_get_state now c =
     (let c1 = (if cb_state_of c = CbOpen \<and> timed_out now c then c\<lparr>cb_state_of := CbHalfOpen, successCount := 0\<rparr> else c)
      in (cb_state_of c1, c1))"

definition cb_allow :: "int \<Rightarrow> breaker \<Rightarrow> bool \<times> breaker" where
  "cb_allow now c =
     (case cb_state_of c of
        CbClosed \<Rightarrow> (True, c)
      | CbOpen \<Rightarrow> if timed_out now c then (True, c\<lparr>cb_state_of := CbHalfOpen, successCount := 0\<rparr>) else (False, c)
      | CbHalfOpen \<Rightarrow> (True, c))"

definition recordSuccess :: "breaker \<Rightarrow> breaker" where
  "recordSuccess c =
     (case cb_state_of c of
        CbClosed \<Rightarrow> c\<lparr>failureCount := 0\<rparr>
      | CbHalfOpen \<Rightarrow>
          (let c1 = c\<lparr>successCount := successCount c + 1\<rparr>
           in if successCount c1 \<ge> successThreshold c1 then c1\<lparr>cb_state_of := CbClosed, failureCount := 0, successCount := 0\<rparr> else c1)
      | CbOpen \<Rightarrow> c)"

definition recordFailure :: "int \<Rightarrow> breaker \<Rightarrow> breaker" where
  "recordFailure now c =
     (let c1 = c\<lparr>lastFailureTime := now\<rparr> in
      case cb_state_of c of
        CbClosed \<Rightarrow>
          (let c2 = c1\<lparr>failureCount := failureCount c1 + 1\<rparr>
           in if failureCount c2 \<ge> failureThreshold c2 then c2\<lparr>cb_state_of := CbOpen\<rparr> else c2)
      | CbHalfOpen \<Rightarrow> c1\<lparr>cb_state_of := CbOpen\<rparr>
      | CbOpen \<Rightarrow> c1)"

text \<open>
  \<^verbatim>\<open>execute\<close>: the clock readings of \<^verbatim>\<open>allow\<close> and of the recording, the operation and the default value.  The first component says whether
  the operation was called.
\<close>

definition cb_execute :: "int \<Rightarrow> int \<Rightarrow> 'a option \<Rightarrow> 'a \<Rightarrow> breaker \<Rightarrow> bool \<times> 'a \<times> breaker" where
  "cb_execute now now' func dflt c =
     (case cb_allow now c of
        (False, c1) \<Rightarrow> (False, dflt, c1)
      | (True, c1) \<Rightarrow> (case func of Some r \<Rightarrow> (True, r, recordSuccess c1) | None \<Rightarrow> (True, dflt, recordFailure now' c1)))"

section \<open>Runs\<close>

text \<open>Operations executed one after the other, each with its two clock readings and its outcome; the number of those that were called.\<close>

fun cb_run :: "(int \<times> int \<times> 'a option) list \<Rightarrow> 'a \<Rightarrow> breaker \<Rightarrow> nat \<times> breaker" where
  "cb_run [] dflt c = (0, c)"
| "cb_run ((now, now', func) # es) dflt c =
     (let (called, r, c1) = cb_execute now now' func dflt c; (n, c2) = cb_run es dflt c1
      in (if called then Suc n else n, c2))"

fun chronological :: "int \<Rightarrow> (int \<times> int \<times> 'a option) list \<Rightarrow> int \<Rightarrow> bool" where
  "chronological t [] u \<longleftrightarrow> t \<le> u"
| "chronological t ((now, now', func) # es) u \<longleftrightarrow> t \<le> now \<and> now \<le> now' \<and> chronological now' es u"

lemma chronological_le: "chronological t es u \<Longrightarrow> t \<le> u"
  by (induction t es u rule: chronological.induct) auto

lemma open_rejects: "cb_state_of c = CbOpen \<Longrightarrow> \<not> timed_out now c \<Longrightarrow> cb_execute now now' func dflt c = (False, dflt, c)"
  by (simp add: cb_execute_def cb_allow_def)

lemma open_probe_fails:
  "cb_state_of c = CbOpen \<Longrightarrow> timed_out now c \<Longrightarrow> cb_execute now now' None dflt c =
     (True, dflt, c\<lparr>successCount := 0, lastFailureTime := now'\<rparr>)"
  by (simp add: cb_execute_def cb_allow_def recordFailure_def Let_def)

lemma closed_fails:
  "cb_state_of c = CbClosed \<Longrightarrow> cb_execute now now' None dflt c =
     (True, dflt, c\<lparr>failureCount := failureCount c + 1, lastFailureTime := now',
        cb_state_of := (if failureCount c + 1 \<ge> failureThreshold c then CbOpen else CbClosed)\<rparr>)"
  by (simp add: cb_execute_def cb_allow_def recordFailure_def Let_def)

lemma open_run_bound:
  assumes "list_all (\<lambda>(_, _, func). func = None) es" and "cb_state_of c = CbOpen" and "0 < timeoutMs c"
    and "chronological t es u" and "lastFailureTime c \<le> t"
  shows "int (fst (cb_run es dflt c)) \<le> (u - lastFailureTime c) div timeoutMs c"
  using assms
proof (induction es arbitrary: c t)
  case Nil
  then show ?case by (simp add: pos_imp_zdiv_nonneg_iff)
next
  case (Cons e es)
  obtain now now' where e: "e = (now, now', None)" using Cons.prems(1) by (cases e) auto
  have chron: "t \<le> now" "now \<le> now'" "chronological now' es u" using Cons.prems(4) by (auto simp: e)
  have none: "list_all (\<lambda>(_, _, func). func = None) es" using Cons.prems(1) by simp
  show ?case
  proof (cases "timed_out now c")
    case False
    then have "fst (cb_run (e # es) dflt c) = fst (cb_run es dflt c)"
      by (simp add: e open_rejects [OF Cons.prems(2)] split_beta Let_def)
    with Cons.IH [OF none Cons.prems(2,3) chron(3)] chron Cons.prems(5) show ?thesis by simp
  next
    case True
    let ?c1 = "c\<lparr>successCount := 0, lastFailureTime := now'\<rparr>"
    have "fst (cb_run (e # es) dflt c) = Suc (fst (cb_run es dflt ?c1))"
      by (simp add: e open_probe_fails [OF Cons.prems(2) True] split_beta Let_def)
    moreover have "int (fst (cb_run es dflt ?c1)) \<le> (u - now') div timeoutMs c"
      using Cons.IH [OF none, of ?c1 now'] Cons.prems(2,3) chron(3) by simp
    moreover have "(u - now') div timeoutMs c + 1 \<le> (u - lastFailureTime c) div timeoutMs c"
    proof -
      have "(u - now') div timeoutMs c + 1 = (u - now' + timeoutMs c) div timeoutMs c" using Cons.prems(3) by (simp add: div_add_self2)
      also have "\<dots> \<le> (u - lastFailureTime c) div timeoutMs c"
        using True chron Cons.prems(3) by (intro zdiv_mono1) (auto simp: timed_out_def)
      finally show ?thesis .
    qed
    ultimately show ?thesis by simp
  qed
qed

lemma closed_run_bound:
  assumes "list_all (\<lambda>(_, _, func). func = None) es" and "cb_state_of c = CbClosed" and "0 < timeoutMs c"
    and "chronological t es u" and "failureCount c < failureThreshold c"
  shows "int (fst (cb_run es dflt c)) \<le> failureThreshold c - failureCount c + (u - t) div timeoutMs c"
  using assms
proof (induction es arbitrary: c t)
  case Nil
  then show ?case by (simp add: pos_imp_zdiv_nonneg_iff add_nonneg_nonneg)
next
  case (Cons e es)
  obtain now now' where e: "e = (now, now', None)" using Cons.prems(1) by (cases e) auto
  have chron: "t \<le> now" "now \<le> now'" "chronological now' es u" using Cons.prems(4) by (auto simp: e)
  have none: "list_all (\<lambda>(_, _, func). func = None) es" using Cons.prems(1) by simp
  let ?st = "if failureCount c + 1 \<ge> failureThreshold c then CbOpen else CbClosed"
  let ?c1 = "c\<lparr>failureCount := failureCount c + 1, lastFailureTime := now', cb_state_of := ?st\<rparr>"
  have run: "fst (cb_run (e # es) dflt c) = Suc (fst (cb_run es dflt ?c1))"
    unfolding e by (simp add: closed_fails [OF Cons.prems(2)] split_beta Let_def)
  have mono: "(u - now') div timeoutMs c \<le> (u - t) div timeoutMs c" using chron Cons.prems(3) by (intro zdiv_mono1) auto
  have "int (fst (cb_run es dflt ?c1)) \<le> failureThreshold c - (failureCount c + 1) + (u - now') div timeoutMs c"
  proof (cases "failureCount c + 1 \<ge> failureThreshold c")
    case True
    then have "int (fst (cb_run es dflt ?c1)) \<le> (u - now') div timeoutMs c"
      using open_run_bound [OF none, of ?c1 now' u dflt] Cons.prems(3) chron(3) by simp
    moreover have "failureThreshold c - (failureCount c + 1) = 0" using True Cons.prems(5) by simp
    ultimately show ?thesis by simp
  next
    case False
    then show ?thesis using Cons.IH [OF none, of ?c1 now'] Cons.prems(3) chron(3) by simp
  qed
  with run mono show ?case by simp
qed

section \<open>Properties\<close>



end
