(* ===== verification/ThreadPoolModel.thy ===== *)
theory ThreadPoolModel
  imports Prelude
begin

text \<open>
  \<^verbatim>\<open>src/util/ThreadPool.h\<close>: the worker pool.  Client threads, workers and the thread that stops the pool interleave; a step is a
  section that runs under a mutex or one atomic operation.  A submission is two steps: the test of \<^verbatim>\<open>running_\<close> with the choice of
  a worker, and the section of \<^verbatim>\<open>enqueue\<close>.  A task carries the key it was submitted with, if any.  Exceptions of tasks are caught by the worker
  and do not change the pool.
\<close>

section \<open>State\<close>

datatype 'a task = Task (task_key: "u64 option") (task_work: 'a)

record 'a pool =
  numThreads :: nat
  maxQueueDepth :: nat
  pool_running :: bool
  nextRoundRobin :: u64
  droppedTasks :: u64
  queues :: "nat \<Rightarrow> 'a task list"
  alive :: "nat \<Rightarrow> bool"
  inflight :: "(nat \<times> 'a task) list"
  accepted :: "(nat \<times> 'a task) list"
  executed :: "(nat \<times> 'a task) list"

definition ThreadPool_new :: "nat \<Rightarrow> nat \<Rightarrow> 'a pool" where
  "ThreadPool_new n depth = \<lparr>numThreads = n, maxQueueDepth = depth, pool_running = False, nextRoundRobin = 0, droppedTasks = 0,
     queues = (\<lambda>_. []), alive = (\<lambda>_. False), inflight = [], accepted = [], executed = []\<rparr>"

section \<open>Operations\<close>

definition pool_start :: "'a pool \<Rightarrow> 'a pool" where
  "pool_start p = (if pool_running p then p else p\<lparr>pool_running := True, alive := (\<lambda>i. i < numThreads p)\<rparr>)"

text \<open>\<^verbatim>\<open>stop\<close>: the flag is cleared, then the workers are joined; the join returns when every worker has left its loop.\<close>

definition stop_begin :: "'a pool \<Rightarrow> 'a pool" where
  "stop_begin p = p\<lparr>pool_running := False\<rparr>"

definition joined :: "'a pool \<Rightarrow> bool" where
  "joined p \<longleftrightarrow> (\<forall>i < numThreads p. \<not> alive p i)"

text \<open>The first half of \<^verbatim>\<open>submit\<close> and \<^verbatim>\<open>submitAffinity\<close>: \<open>None\<close> when the task is refused at once.\<close>

definition pick_round_robin :: "'a pool \<Rightarrow> nat option \<times> 'a pool" where
  "pick_round_robin p =
     (if \<not> pool_running p \<or> numThreads p = 0 then (None, p)
      else (Some (unat (nextRoundRobin p) mod numThreads p), p\<lparr>nextRoundRobin := nextRoundRobin p + 1\<rparr>))"

definition pick_affinity :: "u64 \<Rightarrow> 'a pool \<Rightarrow> nat option" where
  "pick_affinity key p = (if \<not> pool_running p \<or> numThreads p = 0 then None else Some (unat key mod numThreads p))"

definition enqueue :: "nat \<Rightarrow> 'a task \<Rightarrow> 'a pool \<Rightarrow> bool \<times> 'a pool" where
  "enqueue idx t p =
     (if length (queues p idx) \<ge> maxQueueDepth p then (False, p\<lparr>droppedTasks := droppedTasks p + 1\<rparr>)
      else (True, p\<lparr>queues := (queues p)(idx := queues p idx @ [t]), accepted := accepted p @ [(idx, t)]\<rparr>))"

definition submit :: "'a \<Rightarrow> 'a pool \<Rightarrow> bool \<times> 'a pool" where
  "submit work p = (case pick_round_robin p of (None, p1) \<Rightarrow> (False, p1) | (Some idx, p1) \<Rightarrow> enqueue idx (Task None work) p1)"

definition submitAffinity :: "u64 \<Rightarrow> 'a \<Rightarrow> 'a pool \<Rightarrow> bool \<times> 'a pool" where
  "submitAffinity key work p = (case pick_affinity key p of None \<Rightarrow> (False, p) | Some idx \<Rightarrow> enqueue idx (Task (Some key) work) p)"

definition pendingTasks :: "'a pool \<Rightarrow> nat" where
  "pendingTasks p = (\<Sum>i<numThreads p. length (queues p i))"

definition pendingTasks_of :: "nat \<Rightarrow> 'a pool \<Rightarrow> nat" where
  "pendingTasks_of i p = (if i \<ge> numThreads p then 0 else length (queues p i))"

text \<open>One turn of \<^verbatim>\<open>workerLoop\<close> after the wait: leave, or take a task and run it.\<close>

definition worker_turn :: "nat \<Rightarrow> 'a pool \<Rightarrow> 'a pool" where
  "worker_turn i p =
     (case queues p i of
        [] \<Rightarrow> if \<not> pool_running p then p\<lparr>alive := (alive p)(i := False)\<rparr> else p
      | t # q \<Rightarrow> p\<lparr>queues := (queues p)(i := q), executed := executed p @ [(i, t)]\<rparr>)"

section \<open>Interleavings\<close>

text \<open>The pool is started, again or for the first time, only when no worker of an earlier start is left.\<close>

inductive pool_step :: "'a pool \<Rightarrow> 'a pool \<Rightarrow> bool" where
  start: "joined p \<Longrightarrow> pool_step p (pool_start p)"
| stop: "pool_step p (stop_begin p)"
| pick: "pick_round_robin p = (Some i, p1) \<Longrightarrow> pool_step p (p1\<lparr>inflight := inflight p1 @ [(i, Task None w)]\<rparr>)"
| pick_key: "pick_affinity k p = Some i \<Longrightarrow> pool_step p (p\<lparr>inflight := inflight p @ [(i, Task (Some k) w)]\<rparr>)"
| put: "(i, t) \<in> set (inflight p) \<Longrightarrow> enqueue i t (p\<lparr>inflight := remove1 (i, t) (inflight p)\<rparr>) = (r, p') \<Longrightarrow> pool_step p p'"
| turn: "i < numThreads p \<Longrightarrow> alive p i \<Longrightarrow> pool_step p (worker_turn i p)"

inductive_cases pool_stepE: "pool_step p p'"

inductive pool_reach :: "nat \<Rightarrow> nat \<Rightarrow> 'a pool \<Rightarrow> bool" for n depth where
  fresh: "pool_reach n depth (ThreadPool_new n depth)"
| step: "pool_reach n depth p \<Longrightarrow> pool_step p p' \<Longrightarrow> pool_reach n depth p'"

section \<open>Invariant\<close>

definition of_worker :: "nat \<Rightarrow> (nat \<times> 'a task) list \<Rightarrow> 'a task list" where
  "of_worker i log = map snd (filter (\<lambda>e. fst e = i) log)"

lemma of_worker_simps [simp]:
  "of_worker i [] = []" "of_worker i (log @ log') = of_worker i log @ of_worker i log'"
  "of_worker i ((j, t) # log) = (if j = i then t # of_worker i log else of_worker i log)"
  by (simp_all add: of_worker_def)

definition placed :: "nat \<Rightarrow> nat \<times> 'a task \<Rightarrow> bool" where
  "placed n e \<longleftrightarrow> fst e < n \<and> (\<forall>k. task_key (snd e) = Some k \<longrightarrow> fst e = unat k mod n)"

text \<open>
  What a worker executed, followed by its queue, is what was accepted for it, in order; a queue is never longer than the limit; a task with
  a key goes to the worker of the key; and no worker leaves its loop while the pool runs.
\<close>

definition pool_inv :: "nat \<Rightarrow> nat \<Rightarrow> 'a pool \<Rightarrow> bool" where
  "pool_inv n depth p \<longleftrightarrow> numThreads p = n \<and> maxQueueDepth p = depth \<and>
     (\<forall>i. of_worker i (executed p) @ queues p i = of_worker i (accepted p)) \<and>
     (\<forall>i. length (queues p i) \<le> depth) \<and>
     list_all (placed n) (inflight p) \<and> list_all (placed n) (accepted p) \<and>
     (pool_running p \<longrightarrow> (\<forall>i < n. alive p i))"

lemma pool_inv_new: "pool_inv n depth (ThreadPool_new n depth)"
  by (simp add: pool_inv_def ThreadPool_new_def)

lemma pool_inv_enqueue:
  assumes "pool_inv n depth p" and "placed n (i, t)" and "enqueue i t p = (r, p')"
  shows "pool_inv n depth p'"
  using assms by (auto simp: enqueue_def pool_inv_def split: if_splits)

lemma pool_inv_turn:
  assumes "pool_inv n depth p"
  shows "pool_inv n depth (worker_turn i p)"
proof (cases "queues p i")
  case Nil
  then show ?thesis using assms by (simp add: worker_turn_def pool_inv_def)
next
  case (Cons t q)
  have a: "of_worker i (executed p) @ t # q = of_worker i (accepted p)" "length (t # q) \<le> depth"
    using assms Cons unfolding pool_inv_def by metis+
  then show ?thesis using assms Cons by (auto simp: worker_turn_def pool_inv_def)
qed

lemma pool_step_inv:
  assumes "pool_inv n depth p" and "pool_step p p'"
  shows "pool_inv n depth p'"
  using assms(2)
proof (cases rule: pool_step.cases)
  case (pick i p1 w)
  then show ?thesis using assms(1)
    by (auto simp: pick_round_robin_def pool_inv_def placed_def split: if_splits)
next
  case (pick_key k i w)
  then show ?thesis using assms(1) by (auto simp: pick_affinity_def pool_inv_def placed_def split: if_splits)
next
  case (put i t r)
  have "pool_inv n depth (p\<lparr>inflight := remove1 (i, t) (inflight p)\<rparr>)" "placed n (i, t)"
    using assms(1) put(1) notin_set_remove1 by (auto simp: pool_inv_def list_all_iff)
  then show ?thesis using pool_inv_enqueue put(2) by blast
next
  case (turn i)
  then show ?thesis using pool_inv_turn [OF assms(1)] by simp
qed (use assms(1) in \<open>simp_all add: pool_start_def stop_begin_def pool_inv_def\<close>)

lemma pool_reach_inv: "pool_reach n depth p \<Longrightarrow> pool_inv n depth p"
  by (induction rule: pool_reach.induct) (auto intro: pool_inv_new pool_step_inv)

lemma filter_of_worker:
  assumes "list_all (placed n) log"
  shows "filter (\<lambda>t. task_key t = Some k) (map snd log) = filter (\<lambda>t. task_key t = Some k) (of_worker (unat k mod n) log)"
  using assms by (induction log) (auto simp: of_worker_def placed_def)

lemma executed_placed:
  assumes "pool_inv n depth p"
  shows "list_all (placed n) (executed p)"
proof -
  have "placed n (i, t)" if "(i, t) \<in> set (executed p)" for i t
  proof -
    have "t \<in> set (of_worker i (executed p))" using that by (force simp: of_worker_def)
    moreover have "of_worker i (executed p) @ queues p i = of_worker i (accepted p)" using assms by (simp add: pool_inv_def)
    ultimately have "t \<in> set (of_worker i (accepted p))" by (metis Un_iff set_append)
    then have "(i, t) \<in> set (accepted p)" by (auto simp: of_worker_def)
    then show ?thesis using assms by (auto simp: pool_inv_def list_all_iff)
  qed
  then show ?thesis by (auto simp: list_all_iff)
qed

text \<open>While a stopped pool drains, with no submission on its way, a worker that has left has nothing to do.\<close>

definition draining :: "nat \<Rightarrow> 'a pool \<Rightarrow> bool" where
  "draining n p \<longleftrightarrow> \<not> pool_running p \<and> inflight p = [] \<and> numThreads p = n \<and> (\<forall>i < n. alive p i \<or> queues p i = [])"

lemma draining_step: "draining n p \<Longrightarrow> pool_step p p' \<Longrightarrow> \<not> pool_running p' \<Longrightarrow> draining n p'"
  by (erule pool_stepE)
    (auto simp: draining_def pool_start_def stop_begin_def pick_round_robin_def pick_affinity_def worker_turn_def split: if_splits list.splits)

section \<open>Properties\<close>


text \<open>
  Stopping drains the pool: when a running pool is stopped while no submission is on its way, then whenever all workers
  have been joined every accepted task has been executed, each worker's in the order of acceptance.
\<close>

theorem stop_drains_queues:
  assumes "pool_reach n depth p" and "pool_running p" and "inflight p = []"
    and "(\<lambda>x y. pool_step x y \<and> \<not> pool_running y)\<^sup>*\<^sup>* (stop_begin p) p'" and "joined p'" and "i < n"
  shows "of_worker i (executed p') = of_worker i (accepted p')"
proof -
  note inv = pool_reach_inv [OF assms(1)]
  have "draining n (stop_begin p)" using inv assms(2,3) by (simp add: draining_def stop_begin_def pool_inv_def)
  with assms(4) have "draining n p'"
    by (induction rule: rtranclp_induct) (auto intro: draining_step)
  then have "queues p' i = []" using assms(5,6) by (auto simp: draining_def joined_def)
  moreover have "pool_inv n depth (stop_begin p)" using inv by (simp add: stop_begin_def pool_inv_def)
  with assms(4) have "pool_inv n depth p'" by (induction rule: rtranclp_induct) (auto intro: pool_step_inv)
  then have "of_worker i (executed p') @ queues p' i = of_worker i (accepted p')" by (simp add: pool_inv_def)
  ultimately show ?thesis by simp
qed

text \<open>
  A submission that passed the test of the flag before the stop is accepted after the workers have left, and its task is never run.
\<close>

definition sample_pool :: "nat pool" where
  "sample_pool = (pool_start (ThreadPool_new 1 4))\<lparr>inflight := [(0, Task (Some 5) 7)]\<rparr>"

lemma sample_pool_reach: "pool_reach 1 4 sample_pool"
proof -
  have "pool_step (ThreadPool_new 1 4) (pool_start (ThreadPool_new 1 4) :: nat pool)"
    by (rule pool_step.start) (simp add: joined_def ThreadPool_new_def)
  moreover have "pool_step (pool_start (ThreadPool_new 1 4)) sample_pool"
    unfolding sample_pool_def
    using pick_key [of 5 "pool_start (ThreadPool_new 1 4) :: nat pool" 0 7]
    by (simp add: pick_affinity_def pool_start_def ThreadPool_new_def)
  ultimately show ?thesis by (meson pool_reach.intros)
qed

lemma late_submission_lost:
  "\<exists>p. pool_reach 1 4 p \<and> \<not> pool_running p \<and> joined p \<and> accepted p = [(0, Task (Some 5) (7 :: nat))] \<and> executed p = []"
proof -
  let ?p = "worker_turn 0 (stop_begin sample_pool)"
  let ?q = "snd (enqueue 0 (Task (Some 5) 7) (?p\<lparr>inflight := remove1 (0, Task (Some 5) 7) (inflight ?p)\<rparr>))"
  have "pool_step sample_pool (stop_begin sample_pool)" by (rule pool_step.stop)
  moreover have "pool_step (stop_begin sample_pool) ?p"
    by (rule pool_step.turn) (simp_all add: stop_begin_def sample_pool_def pool_start_def ThreadPool_new_def)
  moreover have "pool_step ?p ?q"
    by (rule pool_step.put [of 0 "Task (Some 5) 7"])
      (simp_all add: stop_begin_def sample_pool_def pool_start_def ThreadPool_new_def worker_turn_def enqueue_def)
  ultimately have "pool_reach 1 4 ?q" using sample_pool_reach by (meson pool_reach.step)
  moreover have "\<not> pool_running ?q \<and> joined ?q \<and> accepted ?q = [(0, Task (Some 5) 7)] \<and> executed ?q = []"
    by (simp add: stop_begin_def sample_pool_def pool_start_def ThreadPool_new_def worker_turn_def enqueue_def joined_def)
  ultimately show ?thesis by blast
qed


theorem stop_drains_queues_witness:
  "let p = pool_start (ThreadPool_new 1 4) :: nat pool
   in joined (worker_turn 0 (stop_begin p)) \<and> of_worker 0 (executed (worker_turn 0 (stop_begin p))) = of_worker 0 (accepted (worker_turn 0 (stop_begin p)))"
proof -
  let ?p = "pool_start (ThreadPool_new 1 4) :: nat pool"
  have "pool_reach 1 4 ?p" by (rule pool_reach.step [OF fresh]) (rule pool_step.start, simp add: joined_def ThreadPool_new_def)
  moreover have "pool_running ?p" "inflight ?p = []" "joined (worker_turn 0 (stop_begin ?p))" "\<not> pool_running (worker_turn 0 (stop_begin ?p))"
    by (simp_all add: pool_start_def ThreadPool_new_def joined_def worker_turn_def stop_begin_def)
  moreover have "pool_step (stop_begin ?p) (worker_turn 0 (stop_begin ?p))"
    by (rule pool_step.turn) (simp_all add: pool_start_def ThreadPool_new_def stop_begin_def)
  ultimately show ?thesis
    using stop_drains_queues [of 1 4 ?p "worker_turn 0 (stop_begin ?p)" 0] by (simp add: Let_def r_into_rtranclp)
qed

end
