(* ===== verification/PoolModel.thy ===== *)
theory PoolModel
  imports Prelude
begin

text \<open>
  \<^verbatim>\<open>src/util/ObjectPool.h\<close> and \<^verbatim>\<open>src/pool/ConnectionPool.h\<close>: pools that lend objects.  Objects are pointers in the source and numbers
  here.  Threads interleave; a step is a section that runs under the mutex.  What the pool promises its clients, that an
  object belongs to one owner at a time, is a locale that both pools interpret.
\<close>

section \<open>The contract of a pool\<close>

text \<open>\<open>idle\<close> and \<open>lent\<close> are the objects in the pool and with the clients.\<close>

locale lending_pool =
  fixes start :: "'s \<Rightarrow> bool" and step :: "'s \<Rightarrow> 's \<Rightarrow> bool"
    and idle :: "'s \<Rightarrow> nat list" and lent :: "'s \<Rightarrow> nat list" and inv :: "'s \<Rightarrow> bool"
  assumes start_inv: "start s \<Longrightarrow> inv s"
    and step_inv: "inv s \<Longrightarrow> step s s' \<Longrightarrow> inv s'"
    and inv_exclusive: "inv s \<Longrightarrow> distinct (idle s @ lent s)"
begin

lemma run_inv: "start s \<Longrightarrow> step\<^sup>*\<^sup>* s s' \<Longrightarrow> inv s'"
  by (erule rtranclp_induct) (auto intro: start_inv step_inv)

lemma one_owner: "start s \<Longrightarrow> step\<^sup>*\<^sup>* s s' \<Longrightarrow> distinct (idle s') \<and> distinct (lent s') \<and> set (idle s') \<inter> set (lent s') = {}"
  using inv_exclusive [OF run_inv] by simp

end

section \<open>The object pool\<close>

text \<open>
  The shared core and the pointers held by clients; \<open>reset_log\<close> and \<open>deleted\<close> record the calls of the reset function and of \<^verbatim>\<open>delete\<close>.  The core
  dies with the pool; the deleter of a pointer that outlives it deletes the object.
\<close>

record object_pool =
  op_pool :: "nat list"
  op_maxSize :: nat
  op_totalCreated :: nat
  op_resetFunc :: bool
  op_core_alive :: bool
  op_next :: nat
  op_lent :: "nat list"
  op_reset_log :: "nat list"
  op_deleted :: "nat list"

definition ObjectPool_new :: "nat \<Rightarrow> nat \<Rightarrow> object_pool" where
  "ObjectPool_new initialSize maxSize = \<lparr>op_pool = [0..<initialSize], op_maxSize = (if maxSize = 0 then initialSize * 2 else maxSize),
     op_totalCreated = initialSize, op_resetFunc = False, op_core_alive = True, op_next = initialSize, op_lent = [], op_reset_log = [],
     op_deleted = []\<rparr>"

definition op_acquire :: "object_pool \<Rightarrow> nat option \<times> object_pool" where
  "op_acquire p =
     (if op_pool p \<noteq> []
      then (Some (last (op_pool p)), p\<lparr>op_pool := butlast (op_pool p), op_lent := op_lent p @ [last (op_pool p)]\<rparr>)
      else if op_totalCreated p < op_maxSize p
      then (Some (op_next p), p\<lparr>op_totalCreated := op_totalCreated p + 1, op_next := op_next p + 1, op_lent := op_lent p @ [op_next p]\<rparr>)
      else (None, p))"

text \<open>The deleter, run when a client drops its pointer; \<^verbatim>\<open>release\<close> does nothing else.\<close>

definition op_release :: "nat \<Rightarrow> object_pool \<Rightarrow> object_pool" where
  "op_release i p =
     (let p1 = p\<lparr>op_lent := remove1 i (op_lent p)\<rparr> in
      if op_core_alive p1
      then (let p2 = (if op_resetFunc p1 then p1\<lparr>op_reset_log := op_reset_log p1 @ [i]\<rparr> else p1) in p2\<lparr>op_pool := op_pool p2 @ [i]\<rparr>)
      else p1\<lparr>op_deleted := op_deleted p1 @ [i]\<rparr>)"

definition setResetFunc :: "object_pool \<Rightarrow> object_pool" where
  "setResetFunc p = p\<lparr>op_resetFunc := True\<rparr>"

definition op_available :: "object_pool \<Rightarrow> nat" where
  "op_available p = length (op_pool p)"

definition op_destroy :: "object_pool \<Rightarrow> object_pool" where
  "op_destroy p = p\<lparr>op_core_alive := False, op_deleted := op_deleted p @ op_pool p, op_pool := []\<rparr>"

inductive op_step :: "object_pool \<Rightarrow> object_pool \<Rightarrow> bool" where
  op_get: "op_core_alive p \<Longrightarrow> op_step p (snd (op_acquire p))"
| op_put: "i \<in> set (op_lent p) \<Longrightarrow> op_step p (op_release i p)"
| op_set: "op_core_alive p \<Longrightarrow> op_step p (setResetFunc p)"
| op_end: "op_core_alive p \<Longrightarrow> op_step p (op_destroy p)"

text \<open>Every object created is in the pool, with a client, or deleted, and in one of these places only.\<close>

definition op_inv :: "object_pool \<Rightarrow> bool" where
  "op_inv p \<longleftrightarrow> distinct (op_pool p @ op_lent p @ op_deleted p) \<and> set (op_pool p @ op_lent p @ op_deleted p) = {0..<op_next p} \<and>
     op_totalCreated p = op_next p \<and> (op_core_alive p \<longrightarrow> op_deleted p = []) \<and> (\<not> op_core_alive p \<longrightarrow> op_pool p = [])"

lemma butlast_last_set: "xs \<noteq> [] \<Longrightarrow> distinct xs \<Longrightarrow> last xs \<notin> set (butlast xs) \<and> set xs = insert (last xs) (set (butlast xs))"
  by (induction xs rule: rev_induct) auto

lemma op_inv_acquire: "op_inv p \<Longrightarrow> op_core_alive p \<Longrightarrow> op_inv (snd (op_acquire p))"
  using butlast_last_set [of "op_pool p"]
  by (auto simp: op_acquire_def op_inv_def distinct_butlast)

lemma op_inv_release: "op_inv p \<Longrightarrow> i \<in> set (op_lent p) \<Longrightarrow> op_inv (op_release i p)"
  by (auto simp: op_release_def op_inv_def Let_def)

lemma op_step_inv: "op_inv p \<Longrightarrow> op_step p p' \<Longrightarrow> op_inv p'"
proof (erule op_step.cases, goal_cases)
  case (3 q)
  then show ?case by (auto simp: setResetFunc_def op_inv_def)
next
  case (4 q)
  then show ?case by (auto simp: op_destroy_def op_inv_def)
qed (simp_all add: op_inv_acquire op_inv_release)

interpretation objects: lending_pool "\<lambda>p. \<exists>n m. p = ObjectPool_new n m" op_step op_pool op_lent op_inv
  proof (unfold_locales, goal_cases)
  case (1 s)
  then show ?case by (auto simp: ObjectPool_new_def op_inv_def)
next
  case (2 s s')
  then show ?case by (rule op_step_inv)
next
  case (3 s)
  then show ?case by (auto simp: op_inv_def)
qed

section \<open>The connection pool\<close>

text \<open>
  A connection is its descriptor and the second it was last used.  \<open>closed_fds\<close> records the descriptors closed by destructors; \<open>cp_lent\<close> are the
  connections clients hold and \<open>cp_reserved\<close> counts the threads that create a connection outside the lock.
\<close>

record conn =
  conn_fd :: int
  lastUsed :: int

definition Connection_new :: "int \<Rightarrow> conn" where
  "Connection_new fd = \<lparr>conn_fd = fd, lastUsed = 0\<rparr>"

definition conn_valid :: "conn \<Rightarrow> bool" where
  "conn_valid c \<longleftrightarrow> conn_fd c \<ge> 0"

record conn_pool =
  cp_minSize :: nat
  cp_maxSize :: nat
  totalCreated :: nat
  cp_closed :: bool
  cp_pool :: "nat list"
  cp_store :: "nat \<Rightarrow> conn"
  cp_next :: nat
  cp_lent :: "nat list"
  cp_reserved :: nat
  closed_fds :: "int list"

text \<open>
  \<^verbatim>\<open>createConnection\<close>: the answers of the system calls, and the descriptors closed on the way.  The result is the descriptor or -1.
\<close>

record create_answers =
  ans_socket :: int
  ans_connect :: int
  ans_inprogress :: bool
  ans_select :: int
  ans_so_error :: int

definition createConnection :: "create_answers \<Rightarrow> int \<times> int list" where
  "createConnection a =
     (let fd = ans_socket a in
      if fd < 0 then (- 1, [])
      else if ans_connect a < 0 then
        (if \<not> ans_inprogress a then (- 1, [fd])
         else if ans_select a \<le> 0 then (- 1, [fd])
         else if ans_so_error a \<noteq> 0 then (- 1, [fd])
         else (fd, []))
      else (fd, []))"

fun initial_conns :: "create_answers list \<Rightarrow> conn list \<times> int list" where
  "initial_conns [] = ([], [])"
| "initial_conns (a # as) =
     (let (fd, cl) = createConnection a; (cs, cls) = initial_conns as
      in (if fd \<ge> 0 then Connection_new fd # cs else cs, cl @ cls))"

definition ConnectionPool_new :: "nat \<Rightarrow> nat \<Rightarrow> create_answers list \<Rightarrow> conn_pool" where
  "ConnectionPool_new minSize maxSize as =
     (let (cs, cl) = initial_conns (take minSize as) in
      \<lparr>cp_minSize = minSize, cp_maxSize = maxSize, totalCreated = length cs, cp_closed = False, cp_pool = [0..<length cs],
       cp_store = (\<lambda>i. if i < length cs then cs ! i else Connection_new (- 1)), cp_next = length cs, cp_lent = [], cp_reserved = 0,
       closed_fds = cl\<rparr>)"

text \<open>\<^verbatim>\<open>acquire\<close> after the wait: refuse, hand out the front of the queue, or reserve a place and create outside the lock.\<close>

datatype acquired = NoConnection | Reused nat | Reserved

definition acquire_begin :: "int \<Rightarrow> conn_pool \<Rightarrow> acquired \<times> conn_pool" where
  "acquire_begin now p =
     (if cp_closed p then (NoConnection, p)
      else case cp_pool p of
             i # q \<Rightarrow> (Reused i, p\<lparr>cp_pool := q, cp_store := (cp_store p)(i := (cp_store p i)\<lparr>lastUsed := now\<rparr>), cp_lent := cp_lent p @ [i]\<rparr>)
           | [] \<Rightarrow>
               if totalCreated p < cp_maxSize p
               then (Reserved, p\<lparr>totalCreated := totalCreated p + 1, cp_reserved := cp_reserved p + 1\<rparr>)
               else (NoConnection, p))"

text \<open>The second half; the decrement is one of a \<^verbatim>\<open>size_t\<close>.\<close>

definition size_dec :: "nat \<Rightarrow> nat" where
  "size_dec n = (if n = 0 then 2 ^ 64 - 1 else n - 1)"

definition acquire_end :: "create_answers \<Rightarrow> conn_pool \<Rightarrow> nat option \<times> conn_pool" where
  "acquire_end a p =
     (let (fd, cl) = createConnection a;
          p1 = p\<lparr>cp_reserved := cp_reserved p - 1, closed_fds := closed_fds p @ cl\<rparr> in
      if fd < 0 then (None, p1\<lparr>totalCreated := size_dec (totalCreated p1)\<rparr>)
      else (Some (cp_next p1), p1\<lparr>cp_store := (cp_store p1)(cp_next p1 := Connection_new fd), cp_next := cp_next p1 + 1,
              cp_lent := cp_lent p1 @ [cp_next p1]\<rparr>))"

definition guarded_dec :: "nat \<Rightarrow> nat" where
  "guarded_dec n = (if n > 0 then n - 1 else n)"

text \<open>The last reference to a connection goes away: the destructor closes the descriptor.\<close>

definition drop_conn :: "nat \<Rightarrow> conn_pool \<Rightarrow> conn_pool" where
  "drop_conn i p = (if conn_fd (cp_store p i) \<ge> 0 then p\<lparr>closed_fds := closed_fds p @ [conn_fd (cp_store p i)]\<rparr> else p)"

definition cp_release :: "nat option \<Rightarrow> conn_pool \<Rightarrow> conn_pool" where
  "cp_release c p =
     (case c of
        None \<Rightarrow> p
      | Some i \<Rightarrow>
          (let p1 = p\<lparr>cp_lent := remove1 i (cp_lent p)\<rparr> in
           if \<not> conn_valid (cp_store p1 i) then drop_conn i (p1\<lparr>totalCreated := guarded_dec (totalCreated p1)\<rparr>)
           else if cp_closed p1 \<or> length (cp_pool p1) \<ge> cp_maxSize p1
           then drop_conn i (p1\<lparr>totalCreated := guarded_dec (totalCreated p1)\<rparr>)
           else p1\<lparr>cp_pool := cp_pool p1 @ [i]\<rparr>))"

fun health_loop :: "int \<Rightarrow> nat list \<Rightarrow> nat list \<Rightarrow> conn_pool \<Rightarrow> conn_pool" where
  "health_loop now [] valid p = p\<lparr>cp_pool := valid\<rparr>"
| "health_loop now (i # q) valid p =
     (if now - lastUsed (cp_store p i) > 60 \<and> length valid \<ge> cp_minSize p
      then health_loop now q valid (drop_conn i (p\<lparr>totalCreated := guarded_dec (totalCreated p)\<rparr>))
      else health_loop now q (valid @ [i]) p)"

definition healthCheck :: "int \<Rightarrow> conn_pool \<Rightarrow> conn_pool" where
  "healthCheck now p = (if cp_closed p then p else health_loop now (cp_pool p) [] p)"

definition cp_available :: "conn_pool \<Rightarrow> nat" where
  "cp_available p = length (cp_pool p)"

text \<open>The destructor of the pool drops every idle connection.\<close>

definition cp_destroy :: "conn_pool \<Rightarrow> conn_pool" where
  "cp_destroy p = (fold drop_conn (cp_pool p) (p\<lparr>cp_closed := True\<rparr>))\<lparr>cp_pool := []\<rparr>"

text \<open>The system hands out descriptors that are not open.\<close>

abbreviation owned :: "conn_pool \<Rightarrow> nat list" where
  "owned p \<equiv> cp_pool p @ cp_lent p"

definition fresh_fd :: "create_answers \<Rightarrow> conn_pool \<Rightarrow> bool" where
  "fresh_fd a p \<longleftrightarrow> ans_socket a \<notin> (\<lambda>i. conn_fd (cp_store p i)) ` set (owned p)"

inductive cp_step :: "conn_pool \<Rightarrow> conn_pool \<Rightarrow> bool" where
  cp_begin: "cp_step p (snd (acquire_begin now p))"
| cp_end: "0 < cp_reserved p \<Longrightarrow> fresh_fd a p \<Longrightarrow> cp_step p (snd (acquire_end a p))"
| cp_put: "i \<in> set (cp_lent p) \<Longrightarrow> cp_step p (cp_release (Some i) p)"
| cp_check: "cp_step p (healthCheck now p)"
| cp_forget: "i \<in> set (cp_lent p) \<Longrightarrow> cp_step p (drop_conn i (p\<lparr>cp_lent := remove1 i (cp_lent p)\<rparr>))"

text \<open>
  Connections and descriptors have one owner each; the count covers the connections owned and those being created, and stays within the
  limits.
\<close>

definition owned_ok :: "nat list \<Rightarrow> (nat \<Rightarrow> int) \<Rightarrow> nat \<Rightarrow> bool" where
  "owned_ok is f n \<longleftrightarrow> distinct is \<and> (\<forall>i \<in> set is. i < n \<and> 0 \<le> f i) \<and> inj_on f (set is)"

definition cp_counts :: "nat \<Rightarrow> conn_pool \<Rightarrow> bool" where
  "cp_counts k p \<longleftrightarrow> k + cp_reserved p \<le> totalCreated p \<and> totalCreated p \<le> max (cp_minSize p) (cp_maxSize p)"

abbreviation fd_of :: "conn_pool \<Rightarrow> nat \<Rightarrow> int" where
  "fd_of p \<equiv> \<lambda>i. conn_fd (cp_store p i)"

definition cp_inv :: "conn_pool \<Rightarrow> bool" where
  "cp_inv p \<longleftrightarrow> owned_ok (owned p) (fd_of p) (cp_next p) \<and> cp_counts (length (owned p)) p"

lemma owned_ok_sub: "owned_ok is f n \<Longrightarrow> distinct js \<Longrightarrow> set js \<subseteq> set is \<Longrightarrow> owned_ok js f n"
  by (auto simp: owned_ok_def intro: inj_on_subset)

lemma owned_ok_new: "owned_ok is f n \<Longrightarrow> fd \<notin> f ` set is \<Longrightarrow> 0 \<le> fd \<Longrightarrow> owned_ok (is @ [n]) (f(n := fd)) (Suc n)"
  by (auto simp: owned_ok_def inj_on_def less_Suc_eq)

lemma drop_conn_views [simp]:
  "cp_pool (drop_conn i p) = cp_pool p" "cp_lent (drop_conn i p) = cp_lent p" "cp_store (drop_conn i p) = cp_store p"
  "cp_next (drop_conn i p) = cp_next p" "cp_reserved (drop_conn i p) = cp_reserved p" "totalCreated (drop_conn i p) = totalCreated p"
  "cp_minSize (drop_conn i p) = cp_minSize p" "cp_maxSize (drop_conn i p) = cp_maxSize p" "cp_closed (drop_conn i p) = cp_closed p"
  by (simp_all add: drop_conn_def)

lemma cp_inv_begin:
  assumes "cp_inv p"
  shows "cp_inv (snd (acquire_begin now p))"
proof (cases "cp_closed p")
  case False
  show ?thesis
  proof (cases "cp_pool p")
    case Nil
    then show ?thesis using assms False by (auto simp: acquire_begin_def cp_inv_def cp_counts_def)
  next
    case (Cons i q)
    let ?p' = "p\<lparr>cp_pool := q, cp_store := (cp_store p)(i := (cp_store p i)\<lparr>lastUsed := now\<rparr>), cp_lent := cp_lent p @ [i]\<rparr>"
    have ok: "owned_ok (owned p) (fd_of p) (cp_next p)" using assms by (simp add: cp_inv_def)
    then have "distinct (q @ cp_lent p @ [i])" using Cons by (auto simp: owned_ok_def)
    with ok have "owned_ok (q @ cp_lent p @ [i]) (fd_of p) (cp_next p)" by (rule owned_ok_sub) (use Cons in auto)
    moreover have "fd_of ?p' = fd_of p" by auto
    ultimately have "cp_inv ?p'" using assms Cons by (simp add: cp_inv_def cp_counts_def)
    then show ?thesis using Cons False by (simp add: acquire_begin_def)
  qed
qed (use assms in \<open>simp add: acquire_begin_def\<close>)

lemma createConnection_fd: "createConnection a = (fd, cl) \<Longrightarrow> fd = - 1 \<or> fd = ans_socket a \<and> 0 \<le> fd"
  by (auto simp: createConnection_def Let_def split: if_splits)

lemma cp_inv_end:
  assumes "cp_inv p" and "0 < cp_reserved p" and "fresh_fd a p"
  shows "cp_inv (snd (acquire_end a p))"
proof -
  obtain fd cl where c: "createConnection a = (fd, cl)" by fastforce
  show ?thesis
  proof (cases "fd < 0")
    case True
    then show ?thesis using assms(1,2) by (auto simp: acquire_end_def c cp_inv_def cp_counts_def size_dec_def)
  next
    case False
    then have "fd \<notin> fd_of p ` set (owned p)" "0 \<le> fd"
      using createConnection_fd [OF c] assms(3) by (auto simp: fresh_fd_def)
    with assms(1) have "owned_ok (owned p @ [cp_next p]) ((fd_of p)(cp_next p := fd)) (Suc (cp_next p))"
      by (intro owned_ok_new) (simp_all add: cp_inv_def)
    moreover have "(fd_of p)(cp_next p := fd) = (\<lambda>i. conn_fd (((cp_store p)(cp_next p := Connection_new fd)) i))"
      by (auto simp: Connection_new_def)
    ultimately show ?thesis using False assms(1,2) by (simp add: acquire_end_def c cp_inv_def cp_counts_def)
  qed
qed

text \<open>Taking a connection back from a client.\<close>

lemma cp_inv_take:
  assumes "cp_inv p" and "i \<in> set (cp_lent p)"
  shows "owned_ok (cp_pool p @ remove1 i (cp_lent p)) (fd_of p) (cp_next p)"
    and "cp_counts (Suc (length (cp_pool p @ remove1 i (cp_lent p)))) p"
    and "owned_ok (cp_pool p @ i # remove1 i (cp_lent p)) (fd_of p) (cp_next p)"
proof -
  have ok: "owned_ok (owned p) (fd_of p) (cp_next p)" using assms(1) by (simp add: cp_inv_def)
  then have d: "distinct (cp_pool p @ i # remove1 i (cp_lent p))" using assms(2) by (auto simp: owned_ok_def dest: notin_set_remove1)
  show 3: "owned_ok (cp_pool p @ i # remove1 i (cp_lent p)) (fd_of p) (cp_next p)"
    by (rule owned_ok_sub [OF ok d]) (use assms(2) in \<open>auto dest: notin_set_remove1\<close>)
  show "owned_ok (cp_pool p @ remove1 i (cp_lent p)) (fd_of p) (cp_next p)"
    by (rule owned_ok_sub [OF 3]) (use d in auto)
  have "Suc (length (remove1 i (cp_lent p))) = length (cp_lent p)"
    using assms(2) length_pos_if_in_set [OF assms(2)] by (simp add: length_remove1)
  then show "cp_counts (Suc (length (cp_pool p @ remove1 i (cp_lent p)))) p" using assms(1) by (simp add: cp_inv_def cp_counts_def)
qed

lemma cp_inv_release:
  assumes "cp_inv p" and "i \<in> set (cp_lent p)"
  shows "cp_inv (cp_release (Some i) p)"
proof -
  note t = cp_inv_take [OF assms]
  let ?p1 = "p\<lparr>cp_lent := remove1 i (cp_lent p)\<rparr>"
  have drop: "cp_inv (drop_conn i (?p1\<lparr>totalCreated := guarded_dec (totalCreated ?p1)\<rparr>))"
    using t(1,2) by (auto simp: cp_inv_def cp_counts_def guarded_dec_def)
  have "owned_ok ((cp_pool p @ [i]) @ remove1 i (cp_lent p)) (fd_of p) (cp_next p)" using t(3) by simp
  then have "cp_inv (?p1\<lparr>cp_pool := cp_pool ?p1 @ [i]\<rparr>)" using t(2) by (simp add: cp_inv_def cp_counts_def)
  with drop show ?thesis by (simp add: cp_release_def Let_def)
qed

lemma cp_inv_forget:
  assumes "cp_inv p" and "i \<in> set (cp_lent p)"
  shows "cp_inv (drop_conn i (p\<lparr>cp_lent := remove1 i (cp_lent p)\<rparr>))"
  using cp_inv_take [OF assms] by (simp add: cp_inv_def cp_counts_def)

text \<open>The health check keeps some of the idle connections, in order, and counts the others off.\<close>

definition health_kept :: "int \<Rightarrow> nat list \<Rightarrow> nat list \<Rightarrow> conn_pool \<Rightarrow> conn_pool \<Rightarrow> nat list \<Rightarrow> bool" where
  "health_kept now q valid p p' r \<longleftrightarrow> subseq r q \<and> cp_pool p' = valid @ r \<and> cp_lent p' = cp_lent p \<and>
     cp_store p' = cp_store p \<and> cp_next p' = cp_next p \<and> cp_reserved p' = cp_reserved p \<and> cp_minSize p' = cp_minSize p \<and>
     cp_maxSize p' = cp_maxSize p \<and> (length q \<le> totalCreated p \<longrightarrow> totalCreated p' + length q = totalCreated p + length r) \<and>
     (cp_minSize p \<le> length valid + length q \<longrightarrow> cp_minSize p \<le> length valid + length r) \<and>
     (\<forall>i \<in> set q - set r. now - lastUsed (cp_store p i) > 60)"

lemma health_loop_effect: "\<exists>r. health_kept now q valid p (health_loop now q valid p) r"
proof (induction q arbitrary: valid p)
  case Nil
  show ?case by (rule exI [of _ "[]"]) (simp add: health_kept_def)
next
  case (Cons i q)
  show ?case
  proof (cases "now - lastUsed (cp_store p i) > 60 \<and> length valid \<ge> cp_minSize p")
    case True
    let ?p1 = "drop_conn i (p\<lparr>totalCreated := guarded_dec (totalCreated p)\<rparr>)"
    obtain r where "health_kept now q valid ?p1 (health_loop now q valid ?p1) r" using Cons.IH by blast
    then have "health_kept now (i # q) valid p (health_loop now q valid ?p1) r"
      using True by (auto simp: health_kept_def guarded_dec_def split: if_splits)
    moreover have "health_loop now (i # q) valid p = health_loop now q valid ?p1" using True by simp
    ultimately show ?thesis by metis
  next
    case False
    obtain r where "health_kept now q (valid @ [i]) p (health_loop now q (valid @ [i]) p) r" using Cons.IH by blast
    then have "health_kept now (i # q) valid p (health_loop now q (valid @ [i]) p) (i # r)"
      by (auto simp: health_kept_def)
    moreover have "health_loop now (i # q) valid p = health_loop now q (valid @ [i]) p" using False by auto
    ultimately show ?thesis by metis
  qed
qed

lemma subseq_distinct: "subseq xs ys \<Longrightarrow> distinct ys \<Longrightarrow> distinct xs"
  by (induction rule: list_emb.induct) (auto dest: list_emb_set)

lemma cp_inv_health:
  assumes "cp_inv p"
  shows "cp_inv (healthCheck now p)"
proof (cases "cp_closed p")
  case False
  let ?p' = "health_loop now (cp_pool p) [] p"
  obtain r where r: "subseq r (cp_pool p)" "cp_pool ?p' = r" "cp_lent ?p' = cp_lent p" "cp_store ?p' = cp_store p" "cp_next ?p' = cp_next p"
      "cp_reserved ?p' = cp_reserved p" "cp_minSize ?p' = cp_minSize p" "cp_maxSize ?p' = cp_maxSize p"
      "length (cp_pool p) \<le> totalCreated p \<longrightarrow> totalCreated ?p' + length (cp_pool p) = totalCreated p + length r"
    using health_loop_effect [of now "cp_pool p" "[]" p] by (auto simp: health_kept_def)
  have ok: "owned_ok (owned p) (fd_of p) (cp_next p)" using assms by (simp add: cp_inv_def)
  have sub: "set r \<subseteq> set (cp_pool p)" "length r \<le> length (cp_pool p)" using list_emb_set [OF r(1)] list_emb_length [OF r(1)] by auto
  have "owned_ok (r @ cp_lent p) (fd_of p) (cp_next p)"
    by (rule owned_ok_sub [OF ok]) (use ok sub subseq_distinct [OF r(1)] in \<open>auto simp: owned_ok_def\<close>)
  then have "cp_inv ?p'" using assms r sub(2) by (auto simp: cp_inv_def cp_counts_def)
  then show ?thesis using False by (simp add: healthCheck_def)
qed (use assms in \<open>simp add: healthCheck_def\<close>)

lemma cp_step_inv: "cp_inv p \<Longrightarrow> cp_step p p' \<Longrightarrow> cp_inv p'"
  by (erule cp_step.cases)
    (simp_all add: cp_inv_begin cp_inv_end cp_inv_release cp_inv_health cp_inv_forget)

definition cp_start :: "conn_pool \<Rightarrow> bool" where
  "cp_start p \<longleftrightarrow> (\<exists>minSize maxSize as. p = ConnectionPool_new minSize maxSize as \<and>
     distinct (map conn_fd (fst (initial_conns (take minSize as)))))"

lemma initial_conns_ok: "length (fst (initial_conns as)) \<le> length as \<and> (\<forall>c \<in> set (fst (initial_conns as)). 0 \<le> conn_fd c)"
  by (induction as) (auto simp: split_beta Let_def Connection_new_def)

lemma cp_start_inv:
  assumes "cp_start p"
  shows "cp_inv p"
proof -
  obtain m M as where p: "p = ConnectionPool_new m M as" and d: "distinct (map conn_fd (fst (initial_conns (take m as))))"
    using assms by (auto simp: cp_start_def)
  let ?cs = "fst (initial_conns (take m as))"
  have cs: "length ?cs \<le> m" "\<And>i. i < length ?cs \<Longrightarrow> 0 \<le> conn_fd (?cs ! i)"
    using initial_conns_ok [of "take m as"] nth_mem by (auto simp: min_def split: if_splits)
  have "inj_on (\<lambda>i. conn_fd (?cs ! i)) {0..<length ?cs}"
    using nth_eq_iff_index_eq [OF d] by (simp add: inj_on_def)
  then have "owned_ok [0..<length ?cs] (\<lambda>i. conn_fd (if i < length ?cs then ?cs ! i else Connection_new (- 1))) (length ?cs)"
    using cs(2) by (auto simp: owned_ok_def inj_on_def)
  then show ?thesis using cs(1) by (simp add: p ConnectionPool_new_def split_beta Let_def cp_inv_def cp_counts_def)
qed

interpretation connections: lending_pool cp_start cp_step cp_pool cp_lent cp_inv
proof (unfold_locales, goal_cases)
  case (1 s)
  then show ?case by (rule cp_start_inv)
next
  case (2 s s')
  then show ?case by (rule cp_step_inv)
next
  case (3 s)
  then show ?case by (simp add: cp_inv_def owned_ok_def)
qed

section \<open>Properties\<close>

text \<open>
  The object pool hands an object to one client at a time, never holds more objects than it created, and loses none: in every
  interleaving of acquisitions, releases and the destruction of the pool, every object created is in exactly one of the pool, the hands of one
  client, and the set of deleted objects.
\<close>

theorem object_pool_conserves:
  assumes "op_step\<^sup>*\<^sup>* (ObjectPool_new n m) p"
  shows "distinct (op_pool p @ op_lent p @ op_deleted p) \<and> set (op_pool p @ op_lent p @ op_deleted p) = {0..<op_totalCreated p} \<and>
    set (op_pool p) \<inter> set (op_lent p) = {}"
proof -
  have "op_inv p" by (rule objects.run_inv [OF _ assms]) blast
  moreover have "set (op_pool p) \<inter> set (op_lent p) = {}" using objects.one_owner [OF _ assms] by blast
  ultimately show ?thesis by (auto simp: op_inv_def)
qed

theorem object_pool_conserves_witness:
  "op_step\<^sup>*\<^sup>* (ObjectPool_new 1 2) (snd (op_acquire (ObjectPool_new 1 2))) \<and> op_lent (snd (op_acquire (ObjectPool_new 1 2))) = [0] \<and>
   set (op_pool (snd (op_acquire (ObjectPool_new 1 2)))) \<inter> {0} = {}"
proof -
  have "op_step\<^sup>*\<^sup>* (ObjectPool_new 1 2) (snd (op_acquire (ObjectPool_new 1 2)))"
    by (rule r_into_rtranclp, rule op_get) (simp add: ObjectPool_new_def)
  with object_pool_conserves [OF this] show ?thesis by (simp add: ObjectPool_new_def op_acquire_def)
qed

text \<open>
  (C23) The connection pool never lends a connection to two clients and never owns the same descriptor twice, under any interleaving of
  its sections and for every behaviour of the network; the connections owned and those being created never exceed the count, and the count never
  exceeds the larger of the two limits.
\<close>

theorem conn_pool_exclusive:
  assumes "distinct (map conn_fd (fst (initial_conns (take minSize as))))"
    and "cp_step\<^sup>*\<^sup>* (ConnectionPool_new minSize maxSize as) p"
  shows "distinct (cp_pool p @ cp_lent p) \<and> inj_on (\<lambda>i. conn_fd (cp_store p i)) (set (cp_pool p @ cp_lent p)) \<and>
    length (cp_pool p) + length (cp_lent p) + cp_reserved p \<le> totalCreated p \<and> totalCreated p \<le> max (cp_minSize p) (cp_maxSize p)"
proof -
  have "cp_inv p" by (rule connections.run_inv [OF _ assms(2)]) (use assms(1) in \<open>auto simp: cp_start_def\<close>)
  then show ?thesis by (simp add: cp_inv_def owned_ok_def cp_counts_def)
qed

theorem conn_pool_exclusive_witness:
  "let as = [\<lparr>ans_socket = 7, ans_connect = 0, ans_inprogress = False, ans_select = 0, ans_so_error = 0\<rparr>];
       p = snd (acquire_begin 5 (ConnectionPool_new 1 2 as))
   in cp_step\<^sup>*\<^sup>* (ConnectionPool_new 1 2 as) p \<and> cp_lent p = [0] \<and> distinct (cp_pool p @ cp_lent p) \<and> totalCreated p \<le> 2"
proof -
  let ?as = "[\<lparr>ans_socket = 7, ans_connect = 0, ans_inprogress = False, ans_select = 0, ans_so_error = 0\<rparr>]"
  let ?p = "snd (acquire_begin 5 (ConnectionPool_new 1 2 ?as))"
  have s: "cp_step\<^sup>*\<^sup>* (ConnectionPool_new 1 2 ?as) ?p" by (rule r_into_rtranclp, rule cp_begin)
  have "distinct (map conn_fd (fst (initial_conns (take 1 ?as))))" by (simp add: createConnection_def Connection_new_def)
  from conn_pool_exclusive [OF this s] s show ?thesis
    by (simp add: Let_def ConnectionPool_new_def acquire_begin_def createConnection_def)
qed

end
