(* ===== verification/ConnectorModel.thy ===== *)
theory ConnectorModel
  imports TcpConn
begin

text \<open>
  \<^verbatim>\<open>src/net/Connector.cc\<close>: the state machine that establishes outgoing connections.  Sockets are numbered in the order of their
  creation.  The functors the connector queues in its loop are a FIFO list and its retry timers a list of delays; \<open>cn_epoll\<close> are the
  sockets whose channel is registered in the poller.
\<close>

section \<open>State\<close>

datatype connector_state = CnDisconnected | CnConnecting | CnConnected

datatype cn_functor = StartInLoop | StopInLoop | ResetChannel

record connector =
  want_connect :: bool
  cn_state :: connector_state
  cn_channel :: "nat option"
  retryDelayMs :: int
  cn_pending :: "cn_functor list"
  cn_timers :: "int list"
  cn_epoll :: "nat list"
  next_sock :: nat
  cn_closed :: "nat list"
  cn_handed :: "nat list"

definition kMaxRetryDelayMs :: int where
  "kMaxRetryDelayMs = 30 * 1000"

definition kInitRetryDelayMs :: int where
  "kInitRetryDelayMs = 500"

definition Connector_new :: connector where
  "Connector_new = \<lparr>want_connect = False, cn_state = CnDisconnected, cn_channel = None, retryDelayMs = kInitRetryDelayMs,
     cn_pending = [], cn_timers = [], cn_epoll = [], next_sock = 0, cn_closed = [], cn_handed = []\<rparr>"

section \<open>Operations\<close>

definition close_sock :: "nat \<Rightarrow> connector \<Rightarrow> connector" where
  "close_sock s c = c\<lparr>cn_closed := cn_closed c @ [s]\<rparr>"

definition cn_connecting :: "nat \<Rightarrow> connector \<Rightarrow> connector" where
  "cn_connecting s c = c\<lparr>cn_state := CnConnecting, cn_channel := Some s, cn_epoll := cn_epoll c @ [s]\<rparr>"

definition cn_retry :: "nat \<Rightarrow> connector \<Rightarrow> connector" where
  "cn_retry s c =
     (let c1 = (close_sock s c)\<lparr>cn_state := CnDisconnected\<rparr> in
      if want_connect c1
      then c1\<lparr>cn_timers := cn_timers c1 @ [retryDelayMs c1], retryDelayMs := min (retryDelayMs c1 * 2) kMaxRetryDelayMs\<rparr>
      else c1)"

text \<open>The classes of \<^verbatim>\<open>errno\<close> after \<^verbatim>\<open>connect(2)\<close> (0 when it succeeded at once), with the values of Linux.\<close>

definition in_progress :: "nat \<Rightarrow> bool" where
  "in_progress e \<longleftrightarrow> e = 0 \<or> e = 115 \<or> e = 4 \<or> e = 106"

definition retriable :: "nat \<Rightarrow> bool" where
  "retriable e \<longleftrightarrow> e = EAGAIN \<or> e = 98 \<or> e = 99 \<or> e = 111 \<or> e = 101"

definition cn_connect :: "nat \<Rightarrow> connector \<Rightarrow> connector" where
  "cn_connect savedErrno c =
     (let s = next_sock c; c1 = c\<lparr>next_sock := s + 1\<rparr> in
      if in_progress savedErrno then cn_connecting s c1
      else if retriable savedErrno then cn_retry s c1
      else close_sock s c1)"

definition cn_startInLoop :: "nat \<Rightarrow> connector \<Rightarrow> connector" where
  "cn_startInLoop e c = (if want_connect c then cn_connect e c else c)"

text \<open>\<^verbatim>\<open>start\<close> acts at once in the thread of the loop and is queued from any other.\<close>

definition cn_start :: "bool \<Rightarrow> nat \<Rightarrow> connector \<Rightarrow> connector" where
  "cn_start in_loop e c =
     (let c1 = c\<lparr>want_connect := True\<rparr>
      in if in_loop then cn_startInLoop e c1 else c1\<lparr>cn_pending := cn_pending c1 @ [StartInLoop]\<rparr>)"

definition cn_restart :: "nat \<Rightarrow> connector \<Rightarrow> connector" where
  "cn_restart e c =
     cn_startInLoop e (c\<lparr>cn_state := CnDisconnected, retryDelayMs := kInitRetryDelayMs, want_connect := True\<rparr>)"

definition cn_stop :: "connector \<Rightarrow> connector" where
  "cn_stop c = c\<lparr>want_connect := False, cn_pending := cn_pending c @ [StopInLoop]\<rparr>"

definition removeAndResetChannel :: "nat \<Rightarrow> connector \<Rightarrow> connector" where
  "removeAndResetChannel s c = c\<lparr>cn_epoll := remove1 s (cn_epoll c), cn_pending := cn_pending c @ [ResetChannel]\<rparr>"

definition resetChannel :: "connector \<Rightarrow> connector" where
  "resetChannel c = c\<lparr>cn_channel := None\<rparr>"

text \<open>\<open>None\<close> when the code reaches through a null channel pointer.\<close>

definition cn_stopInLoop :: "connector \<Rightarrow> connector option" where
  "cn_stopInLoop c =
     (if cn_state c = CnConnecting
      then case cn_channel c of
             None \<Rightarrow> None
           | Some s \<Rightarrow> Some (close_sock s (removeAndResetChannel s (c\<lparr>cn_state := CnDisconnected\<rparr>)))
      else Some c)"

text \<open>\<open>optval\<close> is the socket error the kernel reports, 0 when the connection is established.\<close>

definition cn_handleWrite :: "int \<Rightarrow> connector \<Rightarrow> connector option" where
  "cn_handleWrite optval c =
     (if cn_state c = CnConnecting
      then case cn_channel c of
             None \<Rightarrow> None
           | Some s \<Rightarrow>
               (let c1 = removeAndResetChannel s c in
                Some (if optval \<noteq> 0 then cn_retry s c1
                      else let c2 = c1\<lparr>cn_state := CnConnected\<rparr> in
                        if want_connect c2 then c2\<lparr>retryDelayMs := kInitRetryDelayMs, cn_handed := cn_handed c2 @ [s]\<rparr>
                        else close_sock s c2))
      else Some c)"

definition cn_handleError :: "connector \<Rightarrow> connector option" where
  "cn_handleError c =
     (if cn_state c = CnConnecting
      then case cn_channel c of None \<Rightarrow> None | Some s \<Rightarrow> Some (cn_retry s (removeAndResetChannel s c))
      else Some c)"

text \<open>The loop runs the first queued functor; \<open>e\<close> is what \<^verbatim>\<open>connect(2)\<close> answers if it is called.\<close>

definition cn_run_functor :: "nat \<Rightarrow> connector \<Rightarrow> connector option" where
  "cn_run_functor e c =
     (case cn_pending c of
        [] \<Rightarrow> Some c
      | f # fs \<Rightarrow>
          (let c1 = c\<lparr>cn_pending := fs\<rparr> in
           case f of
             StartInLoop \<Rightarrow> Some (cn_startInLoop e c1)
           | StopInLoop \<Rightarrow> cn_stopInLoop c1
           | ResetChannel \<Rightarrow> Some (resetChannel c1)))"

section \<open>Runs\<close>

text \<open>
  One step of the loop or of a thread that uses the connector.  A timer fires in a later turn of the loop than the event that set it, so after
  the functors queued by that event.
\<close>

inductive cn_step :: "connector \<Rightarrow> connector \<Rightarrow> bool" where
  cn_user_stop: "cn_step c (cn_stop c)"
| cn_functor: "cn_run_functor e c = Some c' \<Longrightarrow> cn_step c c'"
| cn_timer: "cn_timers c = d # ds \<Longrightarrow> ResetChannel \<notin> set (cn_pending c) \<Longrightarrow> cn_step c (cn_startInLoop e (c\<lparr>cn_timers := ds\<rparr>))"
| cn_write: "cn_channel c = Some s \<Longrightarrow> s \<in> set (cn_epoll c) \<Longrightarrow> cn_handleWrite v c = Some c' \<Longrightarrow> cn_step c c'"
| cn_error: "cn_channel c = Some s \<Longrightarrow> s \<in> set (cn_epoll c) \<Longrightarrow> cn_handleError c = Some c' \<Longrightarrow> cn_step c c'"

text \<open>The attempts under way: queued starts, retry timers, and a connection in progress.\<close>

definition attempts :: "connector \<Rightarrow> nat" where
  "attempts c = count_list (cn_pending c) StartInLoop + length (cn_timers c) + of_bool (cn_state c = CnConnecting)"

definition cn_idle :: "connector \<Rightarrow> bool" where
  "cn_idle c \<longleftrightarrow> attempts c = 0 \<and> ResetChannel \<notin> set (cn_pending c)"

text \<open>A client that starts the connector only when it is idle.\<close>

inductive cn_reach :: "connector \<Rightarrow> bool" where
  cn_fresh: "cn_reach Connector_new"
| cn_run: "cn_reach c \<Longrightarrow> cn_step c c' \<Longrightarrow> cn_reach c'"
| cn_begin: "cn_reach c \<Longrightarrow> cn_idle c \<Longrightarrow> cn_reach (cn_start in_loop e c)"
| cn_again: "cn_reach c \<Longrightarrow> cn_idle c \<Longrightarrow> cn_reach (cn_restart e c)"

section \<open>Invariant\<close>

definition open_socks :: "connector \<Rightarrow> nat list" where
  "open_socks c = (if cn_state c = CnConnecting then (case cn_channel c of Some s \<Rightarrow> [s] | None \<Rightarrow> []) else [])"

text \<open>Every socket created is closed, handed over or being connected, and only one of these.\<close>

definition cn_socks :: "connector \<Rightarrow> bool" where
  "cn_socks c \<longleftrightarrow> distinct (cn_closed c @ cn_handed c @ open_socks c) \<and> set (cn_closed c @ cn_handed c @ open_socks c) = {0..<next_sock c}"

text \<open>The channel and its registration follow the state.\<close>

definition cn_chan :: "connector \<Rightarrow> bool" where
  "cn_chan c \<longleftrightarrow>
     (if cn_state c = CnConnecting then (\<exists>s. cn_channel c = Some s \<and> cn_epoll c = [s]) \<and> ResetChannel \<notin> set (cn_pending c)
      else cn_epoll c = [] \<and> (cn_channel c \<noteq> None \<longrightarrow> ResetChannel \<in> set (cn_pending c)))"

definition cn_delays :: "connector \<Rightarrow> bool" where
  "cn_delays c \<longleftrightarrow> kInitRetryDelayMs \<le> retryDelayMs c \<and> retryDelayMs c \<le> kMaxRetryDelayMs \<and>
     (\<forall>d \<in> set (cn_timers c). kInitRetryDelayMs \<le> d \<and> d \<le> kMaxRetryDelayMs)"

text \<open>A start is never queued together with the reset of a channel, so that a connection begins with no channel in place.\<close>

definition cn_inv :: "connector \<Rightarrow> bool" where
  "cn_inv c \<longleftrightarrow> cn_socks c \<and> cn_chan c \<and> cn_delays c \<and> attempts c \<le> 1 \<and>
     (StartInLoop \<in> set (cn_pending c) \<longrightarrow> ResetChannel \<notin> set (cn_pending c))"

lemmas cn_ops = cn_connecting_def close_sock_def cn_retry_def removeAndResetChannel_def resetChannel_def Let_def

lemma cn_socks_cong:
  "cn_closed c' = cn_closed c \<Longrightarrow> cn_handed c' = cn_handed c \<Longrightarrow> next_sock c' = next_sock c \<Longrightarrow> open_socks c' = open_socks c \<Longrightarrow>
   cn_socks c' = cn_socks c"
  by (simp add: cn_socks_def)

lemma cn_socks_frame [simp]:
  "cn_socks (c\<lparr>want_connect := w\<rparr>) = cn_socks c" "cn_socks (c\<lparr>cn_pending := fs\<rparr>) = cn_socks c"
  "cn_socks (c\<lparr>cn_timers := ds\<rparr>) = cn_socks c" "cn_socks (c\<lparr>retryDelayMs := d\<rparr>) = cn_socks c"
  "cn_state c \<noteq> CnConnecting \<Longrightarrow> cn_socks (c\<lparr>cn_state := CnDisconnected\<rparr>) = cn_socks c"
  "cn_state c \<noteq> CnConnecting \<Longrightarrow> cn_socks (c\<lparr>cn_channel := None\<rparr>) = cn_socks c"
  by (rule cn_socks_cong; simp add: open_socks_def)+

lemma attempts_0_iff: "attempts c = 0 \<longleftrightarrow> StartInLoop \<notin> set (cn_pending c) \<and> cn_timers c = [] \<and> cn_state c \<noteq> CnConnecting"
  by (auto simp: attempts_def count_list_0_iff)

lemma backoff_bounds:
  "kInitRetryDelayMs \<le> d \<Longrightarrow> kInitRetryDelayMs \<le> min (d * 2) kMaxRetryDelayMs"
  "kInitRetryDelayMs \<le> kInitRetryDelayMs" "kInitRetryDelayMs \<le> kMaxRetryDelayMs"
  by (simp_all add: kInitRetryDelayMs_def kMaxRetryDelayMs_def)

text \<open>A new socket, whatever \<^verbatim>\<open>connect(2)\<close> answers.\<close>

lemma cn_connect_inv:
  assumes "cn_socks c" and "cn_chan c" and "cn_delays c" and "cn_idle c"
  shows "cn_inv (cn_connect e c)"
proof -
  have st: "cn_state c \<noteq> CnConnecting" "cn_timers c = []" "StartInLoop \<notin> set (cn_pending c)" "ResetChannel \<notin> set (cn_pending c)"
    using assms(4) by (auto simp: cn_idle_def attempts_0_iff)
  have ch: "cn_epoll c = []" using assms(2) st by (simp add: cn_chan_def)
  have none: "cn_channel c = None" using assms(2) st(1,4) by (cases "cn_channel c") (auto simp: cn_chan_def)
  have so: "distinct (cn_closed c @ cn_handed c)" "set (cn_closed c @ cn_handed c) = {0..<next_sock c}"
    using assms(1) st(1) by (auto simp: cn_socks_def open_socks_def)
  then have new: "next_sock c \<notin> set (cn_closed c)" "next_sock c \<notin> set (cn_handed c)" by auto
  have filt: "count_list (cn_pending c) StartInLoop = 0" using st(3) by (simp add: count_list_0_iff)
  consider "in_progress e" | "\<not> in_progress e" "retriable e" | "\<not> in_progress e" "\<not> retriable e" by blast
  then show ?thesis
  proof cases
    case 1
    then show ?thesis
      using st ch so new filt assms(3)
      by (auto simp: cn_connect_def cn_ops cn_inv_def cn_socks_def open_socks_def cn_chan_def cn_delays_def attempts_def atLeast0_lessThan_Suc)
  next
    case 2
    let ?c = "cn_connect e c"
    have eq: "cn_closed ?c = cn_closed c @ [next_sock c]" "cn_handed ?c = cn_handed c" "cn_state ?c = CnDisconnected"
      "next_sock ?c = Suc (next_sock c)" "cn_channel ?c = None" "cn_epoll ?c = []" "cn_pending ?c = cn_pending c"
      "cn_timers ?c = (if want_connect c then [retryDelayMs c] else [])"
      "retryDelayMs ?c = (if want_connect c then min (retryDelayMs c * 2) kMaxRetryDelayMs else retryDelayMs c)"
      using 2 st ch none by (simp_all add: cn_connect_def cn_ops)
    have "cn_socks ?c" using so new by (auto simp: cn_socks_def open_socks_def eq atLeast0_lessThan_Suc)
    moreover have "cn_chan ?c" by (simp add: cn_chan_def eq)
    moreover have "cn_delays ?c" using assms(3) st(2) backoff_bounds(1) by (simp add: cn_delays_def eq)
    moreover have "attempts ?c \<le> 1" by (simp add: attempts_def eq filt)
    ultimately show ?thesis using st by (simp add: cn_inv_def eq)
  next
    case 3
    then show ?thesis
      using st ch so new filt none assms(3)
      by (auto simp: cn_connect_def cn_ops cn_inv_def cn_socks_def open_socks_def cn_chan_def cn_delays_def attempts_def atLeast0_lessThan_Suc)
  qed
qed

lemma cn_startInLoop_inv:
  assumes "cn_socks c" and "cn_chan c" and "cn_delays c" and "cn_idle c"
  shows "cn_inv (cn_startInLoop e c)"
  using assms cn_connect_inv [OF assms] by (auto simp: cn_startInLoop_def cn_inv_def cn_idle_def)

text \<open>Taking a connecting socket out of the poller, and then closing or handing it over.\<close>

lemma connecting_socket:
  assumes "cn_inv c" and "cn_state c = CnConnecting"
  obtains s where "cn_channel c = Some s" and "cn_epoll c = [s]" and "ResetChannel \<notin> set (cn_pending c)"
    and "StartInLoop \<notin> set (cn_pending c)" and "cn_timers c = []"
    and "s \<notin> set (cn_closed c) \<union> set (cn_handed c)" and "s < next_sock c"
    and "distinct (cn_closed c @ cn_handed c)" and "insert s (set (cn_closed c) \<union> set (cn_handed c)) = {0..<next_sock c}"
proof -
  have ch: "cn_chan c" and so: "cn_socks c" and at: "attempts c \<le> 1" using assms(1) by (simp_all add: cn_inv_def)
  obtain s where s: "cn_channel c = Some s" "cn_epoll c = [s]" "ResetChannel \<notin> set (cn_pending c)"
    using ch assms(2) by (auto simp: cn_chan_def)
  have "count_list (cn_pending c) StartInLoop = 0" "length (cn_timers c) = 0"
    using at assms(2) by (simp_all add: attempts_def)
  then have st: "StartInLoop \<notin> set (cn_pending c)" "cn_timers c = []" by (simp_all add: count_list_0_iff)
  have d: "distinct (cn_closed c @ cn_handed c @ [s])" "set (cn_closed c @ cn_handed c @ [s]) = {0..<next_sock c}"
    using so s(1) assms(2) by (simp_all add: cn_socks_def open_socks_def)
  have "s \<in> {0..<next_sock c}" unfolding d(2) [symmetric] by simp
  then show ?thesis using that [OF s st] d by auto
qed

lemma cn_left_inv:
  assumes "cn_inv c" and "cn_state c = CnConnecting" and "cn_channel c = Some s"
    and so: "cn_closed c' = cn_closed c @ [s] \<and> cn_handed c' = cn_handed c \<or> cn_closed c' = cn_closed c \<and> cn_handed c' = cn_handed c @ [s]"
    and eq: "cn_state c' \<noteq> CnConnecting" "next_sock c' = next_sock c" "cn_epoll c' = remove1 s (cn_epoll c)"
      "cn_pending c' = cn_pending c @ [ResetChannel]"
    and "cn_delays c'" and "length (cn_timers c') \<le> 1"
  shows "cn_inv c'"
proof -
  obtain s' where s': "cn_channel c = Some s'" "cn_epoll c = [s']" "StartInLoop \<notin> set (cn_pending c)"
    "s' \<notin> set (cn_closed c) \<union> set (cn_handed c)" "distinct (cn_closed c @ cn_handed c)"
    "insert s' (set (cn_closed c) \<union> set (cn_handed c)) = {0..<next_sock c}"
    using connecting_socket [OF assms(1,2)] by metis
  have s: "s' = s" using s'(1) assms(3) by simp
  have filt: "count_list (cn_pending c) StartInLoop = 0" using s'(3) by (simp add: count_list_0_iff)
  have "cn_socks c'" using so s'(4,5) eq(1) by (auto simp: cn_socks_def open_socks_def s eq(2) s'(6) [symmetric])
  moreover have "cn_chan c'" using s'(2) eq by (simp add: cn_chan_def s)
  moreover have "attempts c' \<le> 1" using assms(10) eq by (simp add: attempts_def filt)
  ultimately show ?thesis using assms(9) s'(3) eq(4) by (simp add: cn_inv_def)
qed

lemma cn_retry_delays: "cn_delays c \<Longrightarrow> cn_delays (cn_retry s (removeAndResetChannel s' c))"
  using backoff_bounds(1) by (simp add: cn_ops cn_delays_def ball_Un)

lemma cn_retry_inv:
  assumes "cn_inv c" and "cn_state c = CnConnecting" and "cn_channel c = Some s"
  shows "cn_inv (cn_retry s (removeAndResetChannel s c))"
proof (rule cn_left_inv [OF assms])
  show "cn_delays (cn_retry s (removeAndResetChannel s c))" using assms(1) by (simp add: cn_inv_def cn_retry_delays)
  have "cn_timers c = []" using connecting_socket [OF assms(1,2)] by metis
  then show "length (cn_timers (cn_retry s (removeAndResetChannel s c))) \<le> 1" by (simp add: cn_ops)
qed (simp_all add: cn_ops)

lemma cn_dropped_inv:
  assumes "cn_inv c" and "cn_state c = CnConnecting" and "cn_channel c = Some s" and "st \<noteq> CnConnecting"
  shows "cn_inv (close_sock s ((removeAndResetChannel s c)\<lparr>cn_state := st\<rparr>))"
proof (rule cn_left_inv [OF assms(1-3)])
  have "cn_timers c = []" using connecting_socket [OF assms(1,2)] by metis
  then show "length (cn_timers (close_sock s ((removeAndResetChannel s c)\<lparr>cn_state := st\<rparr>))) \<le> 1" by (simp add: cn_ops)
qed (use assms in \<open>simp_all add: cn_ops cn_inv_def cn_delays_def\<close>)

lemma cn_handed_inv:
  assumes "cn_inv c" and "cn_state c = CnConnecting" and "cn_channel c = Some s"
  shows "cn_inv ((removeAndResetChannel s c)\<lparr>cn_state := CnConnected, retryDelayMs := kInitRetryDelayMs, cn_handed := cn_handed c @ [s]\<rparr>)"
proof (rule cn_left_inv [OF assms])
  have "cn_timers c = []" using connecting_socket [OF assms(1,2)] by metis
  then show "length (cn_timers ((removeAndResetChannel s c)\<lparr>cn_state := CnConnected, retryDelayMs := kInitRetryDelayMs,
    cn_handed := cn_handed c @ [s]\<rparr>)) \<le> 1" by (simp add: cn_ops)
qed (use assms backoff_bounds in \<open>simp_all add: cn_ops cn_inv_def cn_delays_def\<close>)

section \<open>Every run keeps it\<close>

lemma cn_inv_new: "cn_inv Connector_new"
  by (simp add: Connector_new_def cn_inv_def cn_socks_def open_socks_def cn_chan_def cn_delays_def attempts_def backoff_bounds)

lemma cn_stop_inv: "cn_inv c \<Longrightarrow> cn_inv (cn_stop c)"
  by (simp add: cn_stop_def cn_inv_def  cn_chan_def cn_delays_def attempts_def)

lemma cn_start_inv:
  assumes "cn_inv c" and "cn_idle c"
  shows "cn_inv (cn_start in_loop e c)"
proof (cases in_loop)
  case True
  have "cn_inv (cn_startInLoop e (c\<lparr>want_connect := True\<rparr>))"
    by (rule cn_startInLoop_inv)
      (use assms in \<open>simp_all add: cn_inv_def cn_idle_def  cn_chan_def cn_delays_def attempts_def\<close>)
  then show ?thesis using True by (simp add: cn_start_def)
next
  case False
  then show ?thesis
    using assms
    by (simp add: cn_start_def cn_inv_def cn_idle_def  cn_chan_def cn_delays_def attempts_def split: if_splits)
qed

lemma cn_restart_inv:
  assumes "cn_inv c" and "cn_idle c"
  shows "cn_inv (cn_restart e c)"
  unfolding cn_restart_def
  by (rule cn_startInLoop_inv)
    (use assms backoff_bounds in \<open>simp_all add: cn_inv_def cn_idle_def  cn_chan_def cn_delays_def attempts_def split: if_splits\<close>)

lemma cn_timer_inv:
  assumes "cn_inv c" and "cn_timers c = d # ds" and "ResetChannel \<notin> set (cn_pending c)"
  shows "cn_inv (cn_startInLoop e (c\<lparr>cn_timers := ds\<rparr>))"
  by (rule cn_startInLoop_inv)
    (use assms in \<open>simp_all add: cn_inv_def cn_idle_def  cn_chan_def cn_delays_def attempts_def split: if_splits\<close>)

lemma removeAndResetChannel_state: "removeAndResetChannel s (c\<lparr>cn_state := st\<rparr>) = (removeAndResetChannel s c)\<lparr>cn_state := st\<rparr>"
  by (simp add: removeAndResetChannel_def)

lemma cn_stopInLoop_inv: "cn_inv c \<Longrightarrow> cn_stopInLoop c = Some c' \<Longrightarrow> cn_inv c'"
  using cn_dropped_inv [of c _ CnDisconnected]
  by (auto simp: cn_stopInLoop_def removeAndResetChannel_state split: if_splits option.splits)

lemma cn_handleError_inv: "cn_inv c \<Longrightarrow> cn_handleError c = Some c' \<Longrightarrow> cn_inv c'"
  using cn_retry_inv by (auto simp: cn_handleError_def split: if_splits option.splits)

lemma removed_handed: "cn_handed (removeAndResetChannel s c) = cn_handed c"
  by (simp add: removeAndResetChannel_def)

lemma cn_handleWrite_inv:
  assumes "cn_inv c" and "cn_handleWrite v c = Some c'"
  shows "cn_inv c'"
proof (cases "cn_state c = CnConnecting")
  case True
  then obtain s where s: "cn_channel c = Some s" using assms(2) by (auto simp: cn_handleWrite_def split: option.splits)
  note inv = cn_retry_inv [OF assms(1) True s] cn_dropped_inv [OF assms(1) True s, of CnConnected] cn_handed_inv [OF assms(1) True s]
  show ?thesis
    using assms(2) True s inv by (auto simp: cn_handleWrite_def Let_def removed_handed split: if_splits)
next
  case False
  then show ?thesis using assms by (simp add: cn_handleWrite_def)
qed

lemma cn_run_functor_inv:
  assumes "cn_inv c" and "cn_run_functor e c = Some c'"
  shows "cn_inv c'"
proof (cases "cn_pending c")
  case Nil
  then show ?thesis using assms by (simp add: cn_run_functor_def)
next
  case (Cons f fs)
  let ?d = "c\<lparr>cn_pending := fs\<rparr>"
  show ?thesis
  proof (cases f)
    case StartInLoop
    have "cn_inv (cn_startInLoop e ?d)"
      by (rule cn_startInLoop_inv)
        (use assms(1) Cons StartInLoop in
          \<open>auto simp: cn_inv_def cn_idle_def  cn_chan_def cn_delays_def attempts_def split: if_splits\<close>)
    then show ?thesis using assms(2) Cons StartInLoop by (simp add: cn_run_functor_def)
  next
    case StopInLoop
    have "cn_inv ?d"
      using assms(1) Cons StopInLoop
      by (simp add: cn_inv_def  cn_chan_def cn_delays_def attempts_def split: if_splits)
    then show ?thesis using assms(2) Cons StopInLoop cn_stopInLoop_inv by (simp add: cn_run_functor_def)
  next
    case ResetChannel
    have "cn_inv (resetChannel ?d)"
      using assms(1) Cons ResetChannel
      by (simp add: resetChannel_def cn_inv_def  cn_chan_def cn_delays_def attempts_def split: if_splits)
    then show ?thesis using assms(2) Cons ResetChannel by (simp add: cn_run_functor_def)
  qed
qed

lemma cn_step_inv: "cn_step c c' \<Longrightarrow> cn_inv c \<Longrightarrow> cn_inv c'"
  by (induction rule: cn_step.induct)
    (auto intro: cn_stop_inv cn_run_functor_inv cn_timer_inv cn_handleWrite_inv cn_handleError_inv)

lemma cn_reach_inv: "cn_reach c \<Longrightarrow> cn_inv c"
  by (induction rule: cn_reach.induct) (auto intro: cn_inv_new cn_step_inv cn_start_inv cn_restart_inv)

section \<open>Properties\<close>


text \<open>A refused connection that is retried, succeeds and is handed over.\<close>

lemma reach_handed_over:
  "cn_reach \<lparr>want_connect = True, cn_state = CnConnected, cn_channel = Some 1, retryDelayMs = 500, cn_pending = [ResetChannel],
     cn_timers = [], cn_epoll = [], next_sock = 2, cn_closed = [0], cn_handed = [1]\<rparr>"
proof -
  have "cn_reach (cn_start True 111 Connector_new)"
    by (rule cn_begin [OF cn_fresh]) (simp add: cn_idle_def attempts_def Connector_new_def)
  then have 1: "cn_reach \<lparr>want_connect = True, cn_state = CnDisconnected, cn_channel = None, retryDelayMs = 1000, cn_pending = [],
     cn_timers = [500], cn_epoll = [], next_sock = 1, cn_closed = [0], cn_handed = []\<rparr>"
    by (simp add: cn_start_def cn_startInLoop_def cn_connect_def in_progress_def retriable_def cn_ops Connector_new_def
        kInitRetryDelayMs_def kMaxRetryDelayMs_def)
  from cn_run [OF 1 cn_timer [where e = 115]]
  have 2: "cn_reach \<lparr>want_connect = True, cn_state = CnConnecting, cn_channel = Some 1, retryDelayMs = 1000, cn_pending = [],
     cn_timers = [], cn_epoll = [1], next_sock = 2, cn_closed = [0], cn_handed = []\<rparr>"
    by (simp add: cn_startInLoop_def cn_connect_def in_progress_def cn_ops numeral_2_eq_2)
  from cn_run [OF 2 cn_write [where v = 0]] show ?thesis
    by (simp add: cn_handleWrite_def cn_ops kInitRetryDelayMs_def)
qed


text \<open>
  a caller in another thread that stops a connecting connector and starts it again loses it.  The stop queues the reset of the old channel
  behind the start, which by then has installed the new one: the connector ends up connecting with no channel, its second socket registered
  but neither closed nor handed over, and \<^verbatim>\<open>stopInLoop\<close> or \<^verbatim>\<open>handleWrite\<close> then go through the null channel pointer.
\<close>

theorem stop_start_strands_connector:
  assumes "in_progress e" and "in_progress e'"
  shows "\<exists>c1 c2 c3. cn_run_functor e' (cn_start False e' (cn_stop (cn_start True e Connector_new))) = Some c1 \<and>
    cn_run_functor e' c1 = Some c2 \<and> cn_run_functor e' c2 = Some c3 \<and> cn_pending c3 = [] \<and>
    cn_state c3 = CnConnecting \<and> cn_channel c3 = None \<and> cn_epoll c3 = [1] \<and> cn_closed c3 = [0] \<and> cn_handed c3 = [] \<and>
    cn_stopInLoop c3 = None \<and> (\<forall>v. cn_handleWrite v c3 = None)"
  using assms
  by (simp add: cn_run_functor_def cn_start_def cn_stop_def cn_stopInLoop_def cn_handleWrite_def cn_startInLoop_def cn_connect_def cn_ops
      Connector_new_def)

theorem stop_start_strands_connector_witness:
  "in_progress 115 \<and> (\<exists>c1 c2 c3. cn_run_functor 115 (cn_start False 115 (cn_stop (cn_start True 115 Connector_new))) = Some c1 \<and>
    cn_run_functor 115 c1 = Some c2 \<and> cn_run_functor 115 c2 = Some c3 \<and> cn_state c3 = CnConnecting \<and> cn_channel c3 = None)"
proof -
  have p: "in_progress 115" by (simp add: in_progress_def)
  from stop_start_strands_connector [OF p p] p show ?thesis by blast
qed

end
