(* ===== verification/TcpServerModel.thy ===== *)
theory TcpServerModel
  imports EventLoopModel TcpConn CppString
begin

text \<open>
  \<^verbatim>\<open>src/net/Acceptor.cc\<close>, \<^verbatim>\<open>TcpServer.cc\<close> and the start of \<^verbatim>\<open>EventLoopThreadPool.cc\<close>: a listening socket in the base loop, connections spread
  over the loops of the pool, and the table of connections.  It composes the connections of \<^verbatim>\<open>TcpConn\<close>, the pollers of \<^verbatim>\<open>ChannelPoller\<close>
  (one per loop, shared by the channels of that loop) and the round robin of \<^verbatim>\<open>EventLoopModel\<close>.  Each loop has a FIFO of the functors the server queues
  there.  Connections are numbered in the order of their creation, from 1; channel 0 of the base loop is the acceptor's.
\<close>

section \<open>State\<close>

datatype srv_functor = Listen | Established nat | RemoveInLoop nat | Destroyed nat

record srv_conn =
  sc_name :: string
  sc_loop :: nat
  sc_fd :: int
  sc_tcp :: tcp_conn

record tcp_server =
  sv_name :: string
  sv_ipPort :: string
  sv_listenFd :: int
  sv_numThreads :: int
  sv_started :: u32
  sv_pool :: loop_pool
  sv_threadNames :: "string list"
  sv_nextConnId :: u32
  sv_connections :: "string \<rightharpoonup> nat"
  sv_conns :: "nat \<Rightarrow> srv_conn"
  sv_next :: nat
  sv_queues :: "nat \<Rightarrow> srv_functor list"
  sv_pollers :: "nat \<Rightarrow> poller"
  listenning :: bool

text \<open>\<^verbatim>\<open>InetAddress\<close>: the four bytes of an IPv4 address and a port.\<close>

type_synonym inet_address = "(u8 \<times> u8 \<times> u8 \<times> u8) \<times> u16"

definition toIpPort :: "inet_address \<Rightarrow> string" where
  "toIpPort addr =
     (let ((a, b, c, d), port) = addr
      in to_string (unat a) @ ''.'' @ to_string (unat b) @ ''.'' @ to_string (unat c) @ ''.'' @ to_string (unat d) @
         '':'' @ to_string (unat port))"

definition EventLoopThreadPool_new :: "nat \<Rightarrow> loop_pool" where
  "EventLoopThreadPool_new base = \<lparr>baseLoop = base, loops = [], next_loop = 0\<rparr>"

text \<open>The constructor, with the acceptor's channel on its new socket.\<close>

definition TcpServer_new :: "string \<Rightarrow> inet_address \<Rightarrow> int \<Rightarrow> nat \<Rightarrow> tcp_server" where
  "TcpServer_new nameArg listenAddr listenFd base =
     \<lparr>sv_name = nameArg, sv_ipPort = toIpPort listenAddr, sv_listenFd = listenFd, sv_numThreads = 0, sv_started = 0,
      sv_pool = EventLoopThreadPool_new base, sv_threadNames = [], sv_nextConnId = 1, sv_connections = Map.empty,
      sv_conns = (\<lambda>_. \<lparr>sc_name = [], sc_loop = base, sc_fd = 0, sc_tcp = TcpConnection_new 0 (EPollPoller_new (\<lambda>_. Channel_new 0)) False False\<rparr>),
      sv_next = 1, sv_queues = (\<lambda>_. []), sv_pollers = (\<lambda>_. EPollPoller_new (\<lambda>_. Channel_new listenFd)), listenning = False\<rparr>"

section \<open>Operations\<close>

definition setThreadNum :: "int \<Rightarrow> tcp_server \<Rightarrow> tcp_server" where
  "setThreadNum n s = s\<lparr>sv_numThreads := n\<rparr>"

text \<open>
  The pool starts its threads one after the other, each with a new loop; \<open>newLoop i\<close> is the loop of the \<open>i\<close>-th thread, that \<^verbatim>\<open>startLoop\<close> returns.
\<close>

definition pool_name :: "tcp_server \<Rightarrow> string" where
  "pool_name s = (if sv_name s = [] then ''EventLoopThreadPoll-'' else sv_name s)"

definition loop_pool_start :: "(nat \<Rightarrow> nat) \<Rightarrow> tcp_server \<Rightarrow> tcp_server" where
  "loop_pool_start newLoop s =
     (let n = nat (sv_numThreads s) in
      s\<lparr>sv_threadNames := sv_threadNames s @ map (\<lambda>i. pool_name s @ int_to_string (int i)) [0..<n],
        sv_pool := (sv_pool s)\<lparr>loops := loops (sv_pool s) @ map newLoop [0..<n]\<rparr>\<rparr>)"

definition sv_base :: "tcp_server \<Rightarrow> nat" where
  "sv_base s = baseLoop (sv_pool s)"

text \<open>Run a handler of connection \<open>k\<close> with the poller of its loop.\<close>

definition with_conn :: "nat \<Rightarrow> (tcp_conn \<Rightarrow> tcp_conn) \<Rightarrow> tcp_server \<Rightarrow> tcp_server" where
  "with_conn k f s =
     (let sc = sv_conns s k; c = f ((sc_tcp sc)\<lparr>lp := sv_pollers s (sc_loop sc)\<rparr>)
      in s\<lparr>sv_conns := (sv_conns s)(k := sc\<lparr>sc_tcp := c\<rparr>), sv_pollers := (sv_pollers s)(sc_loop sc := lp c)\<rparr>)"

definition sv_queue :: "nat \<Rightarrow> srv_functor \<Rightarrow> tcp_server \<Rightarrow> tcp_server" where
  "sv_queue l f s = s\<lparr>sv_queues := (sv_queues s)(l := sv_queues s l @ [f])\<rparr>"

definition Acceptor_listen :: "kernel \<Rightarrow> tcp_server \<Rightarrow> tcp_server" where
  "Acceptor_listen accept s =
     s\<lparr>listenning := True, sv_pollers := (sv_pollers s)(sv_base s := enableReading accept 0 (sv_pollers s (sv_base s)))\<rparr>"

definition removeConnectionInLoop :: "nat \<Rightarrow> tcp_server \<Rightarrow> tcp_server" where
  "removeConnectionInLoop k s =
     (let s1 = s\<lparr>sv_connections := (sv_connections s)(sc_name (sv_conns s k) := None)\<rparr>
      in sv_queue (sc_loop (sv_conns s1 k)) (Destroyed k) s1)"

definition run_srv_functor :: "kernel \<Rightarrow> srv_functor \<Rightarrow> tcp_server \<Rightarrow> tcp_server" where
  "run_srv_functor accept f s =
     (case f of
        Listen \<Rightarrow> Acceptor_listen accept s
      | Established k \<Rightarrow> with_conn k (connectEstablished accept) s
      | RemoveInLoop k \<Rightarrow> removeConnectionInLoop k s
      | Destroyed k \<Rightarrow> with_conn k (connectDestroyed accept) s)"

text \<open>\<open>here\<close> is the loop of the calling thread.\<close>

definition sv_runInLoop :: "kernel \<Rightarrow> nat \<Rightarrow> nat \<Rightarrow> srv_functor \<Rightarrow> tcp_server \<Rightarrow> tcp_server" where
  "sv_runInLoop accept here l f s = (if here = l then run_srv_functor accept f s else sv_queue l f s)"

definition sv_start :: "kernel \<Rightarrow> nat \<Rightarrow> (nat \<Rightarrow> nat) \<Rightarrow> tcp_server \<Rightarrow> tcp_server" where
  "sv_start accept here newLoop s =
     (let s1 = s\<lparr>sv_started := sv_started s + 1\<rparr> in
      if sv_started s = 0 then sv_runInLoop accept here (sv_base s1) Listen (loop_pool_start newLoop s1) else s1)"

text \<open>The name of a connection; \<^verbatim>\<open>snprintf\<close> keeps 63 characters.\<close>

definition conn_name :: "string \<Rightarrow> string \<Rightarrow> u32 \<Rightarrow> string" where
  "conn_name name ipPort connId = name @ take 63 (''-'' @ ipPort @ ''#'' @ int_to_string (sint connId))"

definition newConnection :: "kernel \<Rightarrow> int \<Rightarrow> bool \<Rightarrow> tcp_server \<Rightarrow> tcp_server" where
  "newConnection accept sockfd wc s =
     (let (ioLoop, pool) = getNextLoop (sv_pool s);
          connId = sv_nextConnId s;
          connName = conn_name (sv_name s) (sv_ipPort s) connId;
          k = sv_next s;
          p = sv_pollers s ioLoop;
          p1 = p\<lparr>store := (store p)(k := Channel_new sockfd)\<rparr>;
          conn = \<lparr>sc_name = connName, sc_loop = ioLoop, sc_fd = sockfd, sc_tcp = TcpConnection_new k p1 wc False\<rparr>;
          s1 = s\<lparr>sv_pool := pool, sv_nextConnId := connId + 1, sv_next := k + 1, sv_pollers := (sv_pollers s)(ioLoop := p1),
                 sv_conns := (sv_conns s)(k := conn), sv_connections := (sv_connections s)(connName \<mapsto> k)\<rparr>
      in sv_runInLoop accept (sv_base s) ioLoop (Established k) s1)"

text \<open>\<open>connfd\<close> is what \<^verbatim>\<open>accept(2)\<close> answers, negative on an error.\<close>

definition Acceptor_handleRead :: "kernel \<Rightarrow> int \<Rightarrow> bool \<Rightarrow> tcp_server \<Rightarrow> tcp_server" where
  "Acceptor_handleRead accept connfd wc s = (if connfd \<ge> 0 then newConnection accept connfd wc s else s)"

definition removeConnection :: "kernel \<Rightarrow> nat \<Rightarrow> nat \<Rightarrow> tcp_server \<Rightarrow> tcp_server" where
  "removeConnection accept here k s = sv_runInLoop accept here (sv_base s) (RemoveInLoop k) s"

text \<open>
  A handler of connection \<open>k\<close> in the thread of its loop; the close callback the server installed is \<^verbatim>\<open>removeConnection\<close>, and it is the last action of
  the handler that calls it.
\<close>

definition close_calls :: "tcp_conn \<Rightarrow> nat" where
  "close_calls c = count_list (calls c) CloseCallbackUser"

definition conn_handler :: "kernel \<Rightarrow> nat \<Rightarrow> (tcp_conn \<Rightarrow> tcp_conn) \<Rightarrow> tcp_server \<Rightarrow> tcp_server" where
  "conn_handler accept k f s =
     (let s1 = with_conn k f s; n = close_calls (sc_tcp (sv_conns s1 k)) - close_calls (sc_tcp (sv_conns s k))
      in (removeConnection accept (sc_loop (sv_conns s k)) k ^^ n) s1)"

text \<open>
  An event on a connection: the poller stores the ready events \<open>r\<close> in the channel, whose \<^verbatim>\<open>handleEvent\<close> runs the callbacks that the connection
  installed in its constructor.
\<close>

definition conn_callback ::
  "kernel \<Rightarrow> (nat \<Rightarrow> nat + string) \<Rightarrow> (string \<Rightarrow> nat + nat) \<Rightarrow> sendfile_answers \<Rightarrow> (int \<Rightarrow> string) \<Rightarrow> callback \<Rightarrow> tcp_conn \<Rightarrow> tcp_conn" where
  "conn_callback accept readv write sf disk cb =
     (case cb of
        CloseCallback \<Rightarrow> handleClose accept
      | ErrorCallback \<Rightarrow> handleError
      | ReadCallback \<Rightarrow> handleRead accept readv
      | WriteCallback \<Rightarrow> handleWrite accept write sf disk)"

definition conn_handleEvent ::
  "kernel \<Rightarrow> (nat \<Rightarrow> nat + string) \<Rightarrow> (string \<Rightarrow> nat + nat) \<Rightarrow> sendfile_answers \<Rightarrow> (int \<Rightarrow> string) \<Rightarrow> u32 \<Rightarrow> tcp_conn \<Rightarrow> tcp_conn" where
  "conn_handleEvent accept readv write sf disk r c =
     (let c1 = c\<lparr>lp := snd (fillActiveChannels [(r, chan c)] (lp c))\<rparr>
      in fold (conn_callback accept readv write sf disk) (handleEvent True (\<lambda>_. True) (store (lp c1) (chan c1))) c1)"

section \<open>Runs\<close>

text \<open>What the holder of a connection may call at any time, and the functors a connection queues itself.\<close>

inductive conn_user_op :: "kernel \<Rightarrow> (tcp_conn \<Rightarrow> tcp_conn) \<Rightarrow> bool" for accept where
  op_send: "conn_user_op accept (TcpConn.send accept inLoop write msg)"
| op_sendIov: "conn_user_op accept (sendIov accept inLoop writev slices)"
| op_sendFile: "conn_user_op accept (sendFile accept inLoop sf disk fd offset count)"
| op_shutdown: "conn_user_op accept (shutdown inLoop)"
| op_task: "conn_user_op accept
    (\<lambda>c. case functors c of [] \<Rightarrow> c | t # ts \<Rightarrow> runTask accept write sf disk t (c\<lparr>functors := ts\<rparr>))"

text \<open>A hang-up comes with \<^verbatim>\<open>EPOLLIN\<close> when urgent data is reported as well, since the end of the stream is readable.\<close>

definition hup_readable :: "u32 \<Rightarrow> bool" where
  "hup_readable r \<longleftrightarrow> (r AND EPOLLHUP \<noteq> 0 \<longrightarrow> r AND EPOLLPRI \<noteq> 0 \<longrightarrow> r AND EPOLLIN \<noteq> 0)"

text \<open>A socket that is closed only with the last reference to its connection: the table, or the functor that destroys it.\<close>

definition referenced :: "tcp_server \<Rightarrow> nat \<Rightarrow> bool" where
  "referenced s k \<longleftrightarrow> sv_connections s (sc_name (sv_conns s k)) = Some k \<or> Destroyed k \<in> set (sv_queues s (sc_loop (sv_conns s k)))"

text \<open>The descriptors of the process that belong to the server; \<^verbatim>\<open>accept(2)\<close> returns none of them.\<close>

definition open_fd :: "tcp_server \<Rightarrow> int \<Rightarrow> bool" where
  "open_fd s fd \<longleftrightarrow> fd = sv_listenFd s \<or> (\<exists>k \<in> {1..<sv_next s}. sc_fd (sv_conns s k) = fd \<and> referenced s k)"

text \<open>
  The loops interleave: a loop runs its first functor, the acceptor's channel or the channel of a connection is ready, or somebody uses a connection.
\<close>

inductive srv_step :: "kernel \<Rightarrow> tcp_server \<Rightarrow> tcp_server \<Rightarrow> bool" for accept where
  srv_start: "srv_step accept s (sv_start accept here newLoop s)"
| srv_run: "sv_queues s l = f # fs \<Longrightarrow> srv_step accept s (run_srv_functor accept f (s\<lparr>sv_queues := (sv_queues s)(l := fs)\<rparr>))"
| srv_accept: "listenning s \<Longrightarrow> \<not> open_fd s connfd \<Longrightarrow> srv_step accept s (Acceptor_handleRead accept connfd wc s)"
| srv_event: "k \<in> {1..<sv_next s} \<Longrightarrow> interest (ctl_log (sv_pollers s (sc_loop (sv_conns s k)))) (sc_fd (sv_conns s k)) = Some (ev, k) \<Longrightarrow>
    hup_readable r \<Longrightarrow> srv_step accept s (conn_handler accept k (conn_handleEvent accept readv write sf disk r) s)"
| srv_user: "k \<in> {1..<sv_next s} \<Longrightarrow> conn_user_op accept f \<Longrightarrow> srv_step accept s (conn_handler accept k f s)"

inductive srv_reach :: "kernel \<Rightarrow> tcp_server \<Rightarrow> bool" for accept where
  srv_fresh: "srv_reach accept (setThreadNum n (TcpServer_new nameArg listenAddr listenFd base))"
| srv_run_step: "srv_reach accept s \<Longrightarrow> srv_step accept s s' \<Longrightarrow> srv_reach accept s'"

section \<open>What the handlers of a connection keep\<close>

abbreviation state_calls :: "tcp_conn \<Rightarrow> user_call list" where
  "state_calls c \<equiv> filter (\<lambda>u. u \<noteq> MessageCallback) (calls c)"

text \<open>An established connection stays established, except for its write interest.\<close>

definition conn_kept :: "kernel \<Rightarrow> tcp_conn \<Rightarrow> tcp_conn \<Rightarrow> bool" where
  "conn_kept accept c c' \<longleftrightarrow> chan c' = chan c \<and> state_calls c' = state_calls c \<and>
     lp c' \<in> {lp c, enableWriting accept (chan c) (lp c), disableWriting accept (chan c) (lp c)} \<and>
     (conn_state c' = conn_state c \<or> conn_state c = kConnected \<and> conn_state c' = kDisconnecting)"

text \<open>Changes that nobody outside the connection sees.\<close>

definition conn_same :: "tcp_conn \<Rightarrow> tcp_conn \<Rightarrow> bool" where
  "conn_same c c' \<longleftrightarrow> chan c' = chan c \<and> state_calls c' = state_calls c \<and> lp c' = lp c \<and> conn_state c' = conn_state c"

lemma conn_same_simps [simp]:
  "conn_same c c" "conn_same c (c'\<lparr>functors := ts\<rparr>) = conn_same c c'" "conn_same c (c'\<lparr>wire := w\<rparr>) = conn_same c c'"
  "conn_same c (c'\<lparr>outputBuffer := b\<rparr>) = conn_same c c'" "conn_same c (c'\<lparr>pendingFiles := fs\<rparr>) = conn_same c c'"
  "conn_same c (c'\<lparr>closedFds := fds\<rparr>) = conn_same c c'" "conn_same c (c'\<lparr>writeShut := x\<rparr>) = conn_same c c'"
  "conn_same c (c'\<lparr>inputBuffer := b\<rparr>) = conn_same c c'" "conn_same c (queueTask t c') = conn_same c c'"
  "conn_same c (queueWriteComplete c') = conn_same c c'"
  by (simp_all add: conn_same_def queueTask_def queueWriteComplete_def)

lemma conn_same_drain [simp]: "conn_same c (snd (drainPendingFiles sf disk c')) = conn_same c c'"
  by (simp add: drainPendingFiles_def split_beta Let_def)

lemma conn_keptI:
  "conn_same c c' \<Longrightarrow> conn_kept accept c c'"
  "conn_same c c' \<Longrightarrow> conn_kept accept c (conn_enableWriting accept c')"
  "conn_same c c' \<Longrightarrow> conn_kept accept c (c'\<lparr>lp := disableWriting accept (chan c') (lp c')\<rparr>)"
  by (simp_all add: conn_same_def conn_kept_def conn_enableWriting_def)

lemma conn_kept_frame [simp]:
  "conn_kept accept c (c'\<lparr>functors := ts\<rparr>) = conn_kept accept c c'" "conn_kept accept c (c'\<lparr>writeShut := x\<rparr>) = conn_kept accept c c'"
  "conn_kept accept c (queueTask t c') = conn_kept accept c c'" "conn_kept accept c (queueWriteComplete c') = conn_kept accept c c'"
  "conn_kept accept c (shutdownInLoop c') = conn_kept accept c c'"
  by (simp_all add: conn_kept_def queueTask_def queueWriteComplete_def shutdownInLoop_def)

lemma conn_kept_refl [simp]: "conn_kept accept c c"
  by (rule conn_keptI) simp

lemma conn_writing_frame:
  "conn_writing (c\<lparr>wire := w\<rparr>) = conn_writing c" "conn_writing (c\<lparr>outputBuffer := b\<rparr>) = conn_writing c"
  "conn_writing (queueTask t c) = conn_writing c" "conn_writing (queueWriteComplete c) = conn_writing c"
  by (simp_all add: conn_writing_def queueTask_def queueWriteComplete_def)

lemma lp_frame:
  "lp (queueTask t c) = lp c" "lp (queueWriteComplete c) = lp c" "chan (queueTask t c) = chan c" "chan (queueWriteComplete c) = chan c"
  by (simp_all add: queueTask_def queueWriteComplete_def)

lemma sendInLoop_frame:
  "chan (sendInLoop accept write data c) = chan c" "calls (sendInLoop accept write data c) = calls c"
  "conn_state (sendInLoop accept write data c) = conn_state c"
  by (simp_all add: sendInLoop_def conn_defs Let_def split: sum.split)

lemma sendInLoop_lp: "lp (sendInLoop accept write data c) \<in> {lp c, enableWriting accept (chan c) (lp c)}"
proof (cases "conn_writing c \<or> readableBytes (outputBuffer c) > 0")
  case True
  then show ?thesis by (auto simp: sendInLoop_def Let_def conn_writing_frame conn_enableWriting_def lp_frame)
next
  case False
  then show ?thesis
    by (cases "write data") (simp_all add: sendInLoop_def Let_def conn_writing_frame conn_enableWriting_def lp_frame)
qed

lemma sendIov_frame:
  "chan (sendIov accept inLoop writev slices c) = chan c" "calls (sendIov accept inLoop writev slices c) = calls c"
  "conn_state (sendIov accept inLoop writev slices c) = conn_state c"
  by (simp_all add: sendIov_def conn_defs Let_def split: sum.split)

lemma sendIov_lp: "lp (sendIov accept inLoop writev slices c) \<in> {lp c, enableWriting accept (chan c) (lp c)}"
proof (cases "conn_writing c \<or> readableBytes (outputBuffer c) > 0")
  case True
  then show ?thesis by (simp add: sendIov_def Let_def conn_writing_frame conn_enableWriting_def lp_frame)
next
  case False
  then show ?thesis
    by (cases "writev (take (min (length slices) kMaxIov) slices)")
      (simp_all add: sendIov_def Let_def conn_writing_frame conn_enableWriting_def lp_frame)
qed

lemma conn_kept_sendInLoop: "conn_kept accept c (sendInLoop accept write data c)"
  using sendInLoop_lp by (simp add: conn_kept_def sendInLoop_frame) blast

lemma conn_kept_sendIov: "conn_kept accept c (sendIov accept inLoop writev slices c)"
  using sendIov_lp by (simp add: conn_kept_def sendIov_frame) blast

lemma conn_kept_sendFile: "conn_kept accept c (sendFile accept inLoop sf disk fd offset count c)"
  by (simp add: sendFile_def Let_def conn_keptI split_beta)

lemma conn_kept_shutdown: "conn_kept accept c (shutdown inLoop c)"
  by (simp add: shutdown_def Let_def) (simp add: conn_kept_def)

lemma conn_kept_handleWrite: "conn_kept accept c (handleWrite accept write sf disk c)"
  by (simp add: handleWrite_def Let_def conn_keptI split_beta split: sum.split)

lemma conn_kept_functors: "conn_kept accept (c\<lparr>functors := ts\<rparr>) c' = conn_kept accept c c'"
  by (simp add: conn_kept_def)

lemma conn_kept_runTask: "conn_kept accept c (runTask accept write sf disk t c)"
  using conn_kept_sendInLoop conn_kept_sendFile
  by (cases t) (auto simp: runTask_def shutdownInLoop_def conn_kept_def)

lemma conn_user_op_kept: "conn_user_op accept f \<Longrightarrow> conn_kept accept c (f c)"
proof (induction rule: conn_user_op.induct)
  case (op_task "write" sf disk)
  then show ?case
    using conn_kept_runTask [of accept "c\<lparr>functors := tl (functors c)\<rparr>"]
    by (cases "functors c") (auto simp: conn_kept_functors)
qed (use conn_kept_sendInLoop conn_kept_sendIov conn_kept_sendFile conn_kept_shutdown in
    \<open>simp_all add: TcpConn.send_def\<close>)

text \<open>A connection that is not up ignores its users.\<close>

lemma conn_user_op_idle:
  "conn_user_op accept f \<Longrightarrow> conn_state c = kDisconnected \<or> conn_state c = kConnecting \<and> functors c = [] \<Longrightarrow>
   conn_state (f c) = conn_state c \<and> chan (f c) = chan c \<and> calls (f c) = calls c \<and> lp (f c) = lp c \<and> (functors c = [] \<longrightarrow> functors (f c) = [])"
proof (induction rule: conn_user_op.induct)
  case (op_task "write" sf disk)
  then show ?case
    by (cases "functors c"; cases "hd (functors c)")
      (auto simp: runTask_def shutdownInLoop_def sendInLoop_def sendFile_def)
qed (auto simp: TcpConn.send_def sendIov_def sendFile_def shutdown_def)

text \<open>A channel that is registered for reading keeps being so when its write interest changes.\<close>

definition reading :: "nat \<Rightarrow> poller \<Rightarrow> bool" where
  "reading k p \<longleftrightarrow> ch_index (store p k) = kAdded \<and> isReading (store p k)"

text \<open>Nothing but channel \<open>k\<close> changed in a poller, and it is still on the same descriptor.\<close>

definition only_channel :: "nat \<Rightarrow> poller \<Rightarrow> poller \<Rightarrow> bool" where
  "only_channel k p p' \<longleftrightarrow> (\<forall>d. d \<noteq> k \<longrightarrow> store p' d = store p d) \<and> ch_fd (store p' k) = ch_fd (store p k)"

lemma only_channel_refl [simp]: "only_channel k p p"
  by (simp add: only_channel_def)

lemma only_channel_trans: "only_channel k p q \<Longrightarrow> only_channel k q r \<Longrightarrow> only_channel k p r"
  by (simp add: only_channel_def)

lemma only_channel_request [simp]: "only_channel k p (request accept k e p)"
  by (simp add: only_channel_def request_store)

lemma read_write_disjoint: "(x OR kWriteEvent) AND kReadEvent = x AND kReadEvent" "(x AND NOT kWriteEvent) AND kReadEvent = x AND kReadEvent"
proof -
  have w: "kWriteEvent AND kReadEvent = 0" "NOT kWriteEvent AND kReadEvent = kReadEvent" by (simp_all add: event_masks epoll_bits)
  show "(x OR kWriteEvent) AND kReadEvent = x AND kReadEvent" by (simp add: word_ao_dist w)
  show "(x AND NOT kWriteEvent) AND kReadEvent = x AND kReadEvent" by (simp add: and.assoc w)
qed

lemma reading_none: "reading k p \<Longrightarrow> ch_events (store p k) \<noteq> kNoneEvent"
  by (auto simp: reading_def isReading_def kNoneEvent_def)

definition poller_ok :: "poller \<Rightarrow> bool" where
  "poller_ok p \<longleftrightarrow> poller_inv p \<and> \<not> exited p"

text \<open>The kernel accepts every legal call.\<close>

definition lawful :: "kernel \<Rightarrow> bool" where
  "lawful accept \<longleftrightarrow> (\<forall>log call. legal_call log call \<longrightarrow> accept log call)"

lemma poller_ok_request:
  assumes "lawful accept" and "poller_ok p" and "exclusive p k"
  shows "poller_ok (request accept k e p)"
proof -
  have "exited (request accept k e p) = exited p"
    by (rule request_exited) (use assms in \<open>auto simp: lawful_def poller_ok_def\<close>)
  then show ?thesis using assms by (simp add: poller_ok_def poller_inv_request)
qed

lemma poller_ok_remove: "poller_ok p \<Longrightarrow> exclusive p k \<Longrightarrow> poller_ok (removeChannel accept k p)"
  by (simp add: poller_ok_def poller_inv_remove removeChannel_exited)

lemma poller_ok_known: "poller_ok p \<Longrightarrow> known p k \<Longrightarrow> exclusive p k"
  by (simp add: poller_ok_def poller_invD(3))

lemma reading_request:
  assumes "reading k p" and "e AND kReadEvent = ch_events (store p k) AND kReadEvent"
  shows "reading k (request accept k e p)"
  using assms by (auto simp: reading_def request_store isReading_def kNoneEvent_def)

lemma conn_kept_reading:
  assumes "conn_kept accept c c'" and "lawful accept" and "poller_ok (lp c)" and "reading (chan c) (lp c)"
  shows "poller_ok (lp c')" and "reading (chan c) (lp c')" and "only_channel (chan c) (lp c) (lp c')"
proof -
  have "exclusive (lp c) (chan c)" using assms(3,4) by (auto intro: poller_ok_known simp: known_def reading_def)
  then have "poller_ok (lp c') \<and> reading (chan c) (lp c') \<and> only_channel (chan c) (lp c) (lp c')"
    using assms by (auto simp: conn_kept_def request_folds poller_ok_request reading_request read_write_disjoint)
  then show "poller_ok (lp c')" and "reading (chan c) (lp c')" and "only_channel (chan c) (lp c) (lp c')" by simp_all
qed

text \<open>The two outcomes of an event: the connection is still up, or it has been closed.\<close>

definition still_up :: "tcp_conn \<Rightarrow> tcp_conn \<Rightarrow> bool" where
  "still_up c c' \<longleftrightarrow> chan c' = chan c \<and> state_calls c' = state_calls c \<and> conn_state c' \<in> {kConnected, kDisconnecting} \<and>
     poller_ok (lp c') \<and> reading (chan c) (lp c') \<and> only_channel (chan c) (lp c) (lp c')"

definition gone_down :: "tcp_conn \<Rightarrow> tcp_conn \<Rightarrow> bool" where
  "gone_down c c' \<longleftrightarrow> chan c' = chan c \<and> state_calls c' = state_calls c @ [ConnectionCallback, CloseCallbackUser] \<and>
     conn_state c' = kDisconnected \<and> poller_ok (lp c') \<and> only_channel (chan c) (lp c) (lp c') \<and>
     ch_index (store (lp c') (chan c)) = kDeleted \<and> ch_events (store (lp c') (chan c)) = kNoneEvent"

lemma still_up_kept:
  assumes "still_up c c1" and "conn_kept accept c1 c2" and "lawful accept"
  shows "still_up c c2"
  using assms conn_kept_reading [of accept c1 c2]
  by (auto simp: still_up_def conn_kept_def [of accept c1 c2] intro: only_channel_trans)

lemma handleClose_down:
  assumes "still_up c c1" and "lawful accept"
  shows "gone_down c (handleClose accept c1)"
proof -
  have ch: "chan c1 = chan c" "ch_index (store (lp c1) (chan c)) = kAdded" "poller_ok (lp c1)"
    using assms(1) by (auto simp: still_up_def reading_def)
  then have "exclusive (lp c1) (chan c)" by (auto intro: poller_ok_known simp: known_def)
  then show ?thesis
    using assms ch only_channel_trans [of "chan c" "lp c" "lp c1" "request accept (chan c) kNoneEvent (lp c1)"]
    by (simp add: handleClose_def callUser_def Let_def gone_down_def request_folds request_store poller_ok_request still_up_def)
qed

lemma handleRead_up:
  assumes "still_up c c1" and "lawful accept"
  shows "still_up c (handleRead accept readv c1) \<or> gone_down c (handleRead accept readv c1)"
proof -
  obtain n b where rd: "readFd readv (inputBuffer c1) = (n, b)" by (meson surj_pair)
  have up: "still_up c (c1\<lparr>inputBuffer := b\<rparr>)" using assms(1) by (simp add: still_up_def)
  then have "still_up c (callUser MessageCallback (c1\<lparr>inputBuffer := b\<rparr>))" by (simp add: still_up_def callUser_def)
  then show ?thesis
    using up handleClose_down [OF up assms(2)] by (cases n) (auto simp: handleRead_def rd handleError_def Let_def)
qed

lemma callback_up:
  assumes "still_up c c1" and "lawful accept"
  shows "still_up c (conn_callback accept readv write sf disk cb c1) \<or> gone_down c (conn_callback accept readv write sf disk cb c1)"
    (is ?any)
    and "cb \<in> {ErrorCallback, WriteCallback} \<Longrightarrow> still_up c (conn_callback accept readv write sf disk cb c1)" (is "_ \<Longrightarrow> ?up")
proof -
  have w: "still_up c (handleWrite accept write sf disk c1)"
    by (rule still_up_kept [OF assms(1) conn_kept_handleWrite assms(2)])
  then show ?any
    using assms handleRead_up [OF assms] handleClose_down [OF assms] by (cases cb) (simp_all add: conn_callback_def handleError_def)
  show ?up if "cb \<in> {ErrorCallback, WriteCallback}"
    using w assms that by (auto simp: conn_callback_def handleError_def)
qed

lemma callback_down:
  assumes "gone_down c c1" and "cb \<in> {ErrorCallback, WriteCallback}"
  shows "conn_callback accept readv write sf disk cb c1 = c1"
proof -
  have "\<not> conn_writing c1" using assms(1) by (simp add: gone_down_def conn_writing_def isWriting_def kNoneEvent_def)
  then show ?thesis using assms(2) by (auto simp: conn_callback_def handleError_def handleWrite_def)
qed

lemma callbacks_down: "gone_down c c1 \<Longrightarrow> set cbs \<subseteq> {ErrorCallback, WriteCallback} \<Longrightarrow> fold (conn_callback accept readv write sf disk) cbs c1 = c1"
  by (induction cbs) (simp_all add: callback_down)

lemma callbacks_up:
  "still_up c c1 \<Longrightarrow> lawful accept \<Longrightarrow> set cbs \<subseteq> {ErrorCallback, WriteCallback} \<Longrightarrow>
   still_up c (fold (conn_callback accept readv write sf disk) cbs c1)"
proof (induction cbs arbitrary: c1)
  case (Cons cb cbs)
  have "still_up c (conn_callback accept readv write sf disk cb c1)" by (rule callback_up(2)) (use Cons.prems in auto)
  then show ?case using Cons by simp
qed simp

text \<open>At most one callback of an event can close the connection.\<close>

lemma one_closing_callback:
  assumes "hup_readable (ch_revents ch)"
  obtains cbs xs ys where "handleEvent True (\<lambda>_. True) ch = xs @ cbs @ ys" and "length cbs \<le> 1"
    and "set xs \<subseteq> {ErrorCallback, WriteCallback}" and "set ys \<subseteq> {ErrorCallback, WriteCallback}"
proof -
  let ?r = "ch_revents ch"
  have or: "?r AND (EPOLLIN OR EPOLLPRI) = (?r AND EPOLLIN) OR (?r AND EPOLLPRI)" by (rule bit.conj_disj_distrib)
  let ?e = "if ?r AND EPOLLERR \<noteq> 0 then [ErrorCallback] else []" and ?w = "if ?r AND EPOLLOUT \<noteq> 0 then [WriteCallback] else []"
  show thesis
  proof (cases "?r AND EPOLLHUP \<noteq> 0 \<and> ?r AND EPOLLIN = 0")
    case True
    then have "?r AND EPOLLPRI = 0" using assms by (auto simp: hup_readable_def)
    then have "handleEvent True (\<lambda>_. True) ch = [] @ [CloseCallback] @ ?e @ ?w"
      using True by (simp add: handleEvent_def handleEventWithGuard_def Let_def or)
    then show thesis by (rule that) auto
  next
    case False
    then have "handleEvent True (\<lambda>_. True) ch = ?e @ (if ?r AND (EPOLLIN OR EPOLLPRI) \<noteq> 0 then [ReadCallback] else []) @ ?w"
      by (auto simp: handleEvent_def handleEventWithGuard_def Let_def)
    then show thesis by (rule that) auto
  qed
qed

lemma callbacks_event:
  fixes readv "write" sf disk
  assumes "still_up c c1" and "lawful accept" and "hup_readable (ch_revents ch)"
  defines "c' \<equiv> fold (conn_callback accept readv write sf disk) (handleEvent True (\<lambda>_. True) ch) c1"
  shows "still_up c c' \<or> gone_down c c'"
proof -
  let ?f = "fold (conn_callback accept readv write sf disk)"
  obtain cbs xs ys where l: "handleEvent True (\<lambda>_. True) ch = xs @ cbs @ ys" "length cbs \<le> 1"
      "set xs \<subseteq> {ErrorCallback, WriteCallback}" "set ys \<subseteq> {ErrorCallback, WriteCallback}"
    using one_closing_callback [OF assms(3)] .
  have x: "still_up c (?f xs c1)" by (rule callbacks_up [OF assms(1,2) l(3)])
  have "still_up c (?f cbs (?f xs c1)) \<or> gone_down c (?f cbs (?f xs c1))"
    using x l(2) callback_up(1) [OF x assms(2)] by (cases cbs) auto
  then show ?thesis
    using callbacks_up [OF _ assms(2) l(4)] callbacks_down [OF _ l(4)] unfolding c'_def l(1) by auto
qed

lemma conn_handleEvent_outcome:
  assumes "conn_state c \<in> {kConnected, kDisconnecting}" and "poller_ok (lp c)" and "reading (chan c) (lp c)"
    and "lawful accept" and "hup_readable r"
  shows "still_up c (conn_handleEvent accept readv write sf disk r c) \<or> gone_down c (conn_handleEvent accept readv write sf disk r c)"
proof -
  let ?p = "snd (fillActiveChannels [(r, chan c)] (lp c))"
  have "poller_inv ?p"
    by (rule poller_inv_cong [of "lp c"]) (use assms(2) in \<open>simp_all add: poller_ok_def fillActiveChannels_views del: fillActiveChannels.simps\<close>)
  then have "still_up c (c\<lparr>lp := ?p\<rparr>)"
    using assms(1-3) by (simp add: still_up_def poller_ok_def reading_def isReading_def only_channel_def)
  moreover have "hup_readable (ch_revents (store ?p (chan c)))" using assms(5) by simp
  ultimately show ?thesis
    unfolding conn_handleEvent_def Let_def using callbacks_event [OF _ assms(4)] by simp
qed

end
