(* ===== verification/TcpServerLife.thy ===== *)
theory TcpServerLife
  imports TcpServerModel
begin

text \<open>
  The life of the connections of a server (\<^verbatim>\<open>TcpServerModel\<close>) over every interleaving of its loops: their names, their place in the table and in the
  queues of the loops, the callbacks they make, and their channels.
\<close>

section \<open>Names\<close>

lemma length_toIpPort: "length (toIpPort addr) \<le> 21"
proof -
  obtain a b c d port where addr: "addr = ((a, b, c, d), port)" by (metis prod.collapse)
  have byte: "length (to_string (unat x)) \<le> 3" for x :: u8
    using unsigned_less [of x, where ?'a = nat] by (intro length_to_string) simp_all
  have "length (to_string (unat port)) \<le> 5"
    using unsigned_less [of port, where ?'a = nat] by (intro length_to_string) simp_all
  then show ?thesis using byte [of a] byte [of b] byte [of c] byte [of d] by (simp add: toIpPort_def addr)
qed

lemma length_int_to_string: "\<bar>i\<bar> < 10 ^ n \<Longrightarrow> 0 < n \<Longrightarrow> length (int_to_string i) \<le> Suc n"
  using length_to_string [of "nat (- i)" n] length_to_string [of "nat i" n]
  by (auto simp: int_to_string_def nat_less_iff abs_if split: if_splits)

text \<open>The buffer is large enough for every name, so different connection numbers give different names.\<close>

lemma conn_name_inj:
  assumes "length ipPort \<le> 21" and "conn_name name ipPort i = conn_name name ipPort j"
  shows "i = j"
proof -
  have "length (int_to_string (sint w)) \<le> 11" for w :: u32
    using sint_ge [of w] sint_lt [of w] by (intro length_int_to_string [of _ 10, simplified]) (simp_all add: abs_if)
  then have "length (''-'' @ ipPort @ ''#'' @ int_to_string (sint w)) \<le> 63" for w :: u32
    using assms(1) add_mono [of "length ipPort" 21 "length (int_to_string (sint w))" 11] by simp
  then have "conn_name name ipPort w = name @ ''-'' @ ipPort @ ''#'' @ int_to_string (sint w)" for w
    unfolding conn_name_def using take_all by metis
  then have "sint i = sint j" using assms(2) by (intro int_to_string_inj) simp
  then show ?thesis by (simp add: signed_word_eqI)
qed

section \<open>The life of a connection\<close>

text \<open>
  Announced to its loop, up, closed with its removal on the way to the base loop, out of the table with its destruction on the way back, gone.
\<close>

datatype life = Announced | Up | Closing | Removed | Gone

definition life_conn :: "life \<Rightarrow> nat \<Rightarrow> poller \<Rightarrow> tcp_conn \<Rightarrow> bool" where
  "life_conn ph k p c \<longleftrightarrow> chan c = k \<and>
     (case ph of
        Announced \<Rightarrow> conn_state c = kConnecting \<and> functors c = [] \<and> state_calls c = [] \<and> ch_index (store p k) = kNew \<and> ch_events (store p k) = kNoneEvent
      | Up \<Rightarrow> conn_state c \<in> {kConnected, kDisconnecting} \<and> state_calls c = [ConnectionCallback] \<and> reading k p
      | _ \<Rightarrow> conn_state c = kDisconnected \<and> state_calls c = [ConnectionCallback, ConnectionCallback, CloseCallbackUser] \<and>
          ch_index (store p k) = (if ph = Gone then kNew else kDeleted) \<and> ch_events (store p k) = kNoneEvent)"

definition life_queues :: "life \<Rightarrow> nat \<Rightarrow> nat \<Rightarrow> tcp_server \<Rightarrow> bool" where
  "life_queues ph k l s \<longleftrightarrow>
     count_list (sv_queues s l) (Established k) = of_bool (ph = Announced) \<and>
     count_list (sv_queues s (sv_base s)) (RemoveInLoop k) = of_bool (ph = Closing) \<and>
     count_list (sv_queues s l) (Destroyed k) = of_bool (ph = Removed)"

definition lives :: "tcp_server \<Rightarrow> nat \<Rightarrow> life \<Rightarrow> bool" where
  "lives s k ph \<longleftrightarrow>
     (let sc = sv_conns s k; l = sc_loop sc in
      (sv_connections s (sc_name sc) = Some k \<longleftrightarrow> ph \<in> {Announced, Up, Closing}) \<and>
      life_queues ph k l s \<and> life_conn ph k (sv_pollers s l) (sc_tcp sc))"

text \<open>Functors are in the loop they are meant for.\<close>

definition home_ok :: "tcp_server \<Rightarrow> nat \<Rightarrow> srv_functor \<Rightarrow> bool" where
  "home_ok s l f \<longleftrightarrow>
     (case f of
        Listen \<Rightarrow> l = sv_base s
      | Established k \<Rightarrow> k \<in> {1..<sv_next s} \<and> l = sc_loop (sv_conns s k)
      | RemoveInLoop k \<Rightarrow> k \<in> {1..<sv_next s} \<and> l = sv_base s
      | Destroyed k \<Rightarrow> k \<in> {1..<sv_next s} \<and> l = sc_loop (sv_conns s k))"

definition fds_ok :: "tcp_server \<Rightarrow> bool" where
  "fds_ok s \<longleftrightarrow> (\<forall>k \<in> {1..<sv_next s}. referenced s k \<longrightarrow> sc_fd (sv_conns s k) \<noteq> sv_listenFd s \<and>
     (\<forall>j \<in> {1..<sv_next s}. referenced s j \<longrightarrow> j \<noteq> k \<longrightarrow> sc_fd (sv_conns s j) \<noteq> sc_fd (sv_conns s k)))"

definition pollers_ok :: "tcp_server \<Rightarrow> bool" where
  "pollers_ok s \<longleftrightarrow> (\<forall>l. poller_ok (sv_pollers s l)) \<and>
     (\<forall>l d. known (sv_pollers s l) d \<longrightarrow> d = 0 \<and> l = sv_base s \<or> d \<in> {1..<sv_next s} \<and> sc_loop (sv_conns s d) = l) \<and>
     ch_fd (store (sv_pollers s (sv_base s)) 0) = sv_listenFd s \<and>
     (\<forall>k \<in> {1..<sv_next s}. ch_fd (store (sv_pollers s (sc_loop (sv_conns s k))) k) = sc_fd (sv_conns s k))"

definition table_ok :: "tcp_server \<Rightarrow> bool" where
  "table_ok s \<longleftrightarrow> (\<forall>nm k. sv_connections s nm = Some k \<longrightarrow> k \<in> {1..<sv_next s} \<and> nm = sc_name (sv_conns s k))"

definition names_ok :: "tcp_server \<Rightarrow> bool" where
  "names_ok s \<longleftrightarrow> 1 \<le> sv_next s \<and> length (sv_ipPort s) \<le> 21 \<and> sv_nextConnId s = word_of_nat (sv_next s) \<and>
     (\<forall>k \<in> {1..<sv_next s}. sc_name (sv_conns s k) = conn_name (sv_name s) (sv_ipPort s) (word_of_nat k)) \<and>
     table_ok s"

definition srv_rest :: "tcp_server \<Rightarrow> bool" where
  "srv_rest s \<longleftrightarrow> pollers_ok s \<and> names_ok s \<and> fds_ok s \<and> (\<forall>l. \<forall>f \<in> set (sv_queues s l). home_ok s l f)"

definition srv_inv :: "tcp_server \<Rightarrow> bool" where
  "srv_inv s \<longleftrightarrow> srv_rest s \<and> (\<forall>k \<in> {1..<sv_next s}. \<exists>ph. lives s k ph)"

lemma srv_inv_rest: "srv_inv s \<Longrightarrow> srv_rest s"
  by (simp add: srv_inv_def)

lemma srv_inv_lives: "srv_inv s \<Longrightarrow> k \<in> {1..<sv_next s} \<Longrightarrow> \<exists>ph. lives s k ph"
  unfolding srv_inv_def by (elim conjE) (rule bspec)

lemma life_referenced: "lives s k ph \<Longrightarrow> referenced s k \<longleftrightarrow> ph \<noteq> Gone"
proof -
  assume a: "lives s k ph"
  have "Destroyed k \<in> set (sv_queues s (sc_loop (sv_conns s k))) \<longleftrightarrow> ph = Removed"
    using a count_list_0_iff [of "sv_queues s (sc_loop (sv_conns s k))" "Destroyed k"]
    by (auto simp: lives_def life_queues_def Let_def of_bool_def split: if_splits)
  then show ?thesis using a by (cases ph) (auto simp: lives_def referenced_def Let_def)
qed

lemma life_known: "lives s k ph \<Longrightarrow> known (sv_pollers s (sc_loop (sv_conns s k))) k \<Longrightarrow> ph \<in> {Up, Closing, Removed}"
  by (cases ph) (auto simp: lives_def life_conn_def known_def Let_def)

text \<open>A connection of the server and the acceptor own their descriptors.\<close>

lemma known_fd:
  assumes "srv_inv s" and "known (sv_pollers s l) d"
  shows "d = 0 \<and> l = sv_base s \<and> ch_fd (store (sv_pollers s l) d) = sv_listenFd s \<or>
    d \<in> {1..<sv_next s} \<and> referenced s d \<and> sc_loop (sv_conns s d) = l \<and> ch_fd (store (sv_pollers s l) d) = sc_fd (sv_conns s d)"
proof -
  have p: "pollers_ok s" using assms(1) by (simp add: srv_inv_def srv_rest_def)
  have "referenced s d" if d: "d \<in> {1..<sv_next s}" "sc_loop (sv_conns s d) = l"
  proof -
    obtain ph where ph: "lives s d ph" using srv_inv_lives [OF assms(1) d(1)] ..
    then show ?thesis using life_known [OF ph] assms(2) d(2) life_referenced [OF ph] by auto
  qed
  moreover have "d = 0 \<and> l = sv_base s \<or> d \<in> {1..<sv_next s} \<and> sc_loop (sv_conns s d) = l"
    using p assms(2) by (simp add: pollers_ok_def)
  ultimately show ?thesis using p by (elim disjE conjE) (auto simp: pollers_ok_def)
qed

section \<open>Frames\<close>

text \<open>A handler of connection \<open>k\<close> leaves the others alone.\<close>

lemma with_conn_fields [simp]:
  "sv_queues (with_conn k f s) = sv_queues s" "sv_connections (with_conn k f s) = sv_connections s" "sv_next (with_conn k f s) = sv_next s"
  "sv_base (with_conn k f s) = sv_base s" "sv_listenFd (with_conn k f s) = sv_listenFd s" "sv_name (with_conn k f s) = sv_name s"
  "sv_ipPort (with_conn k f s) = sv_ipPort s" "sv_nextConnId (with_conn k f s) = sv_nextConnId s"
  "sc_name (sv_conns (with_conn k f s) j) = sc_name (sv_conns s j)" "sc_loop (sv_conns (with_conn k f s) j) = sc_loop (sv_conns s j)"
  "sc_fd (sv_conns (with_conn k f s) j) = sc_fd (sv_conns s j)"
  by (simp_all add: with_conn_def Let_def sv_base_def)

abbreviation conn_of :: "tcp_server \<Rightarrow> nat \<Rightarrow> tcp_conn" where
  "conn_of s k \<equiv> (sc_tcp (sv_conns s k))\<lparr>lp := sv_pollers s (sc_loop (sv_conns s k))\<rparr>"

lemma with_conn_conn:
  "sc_tcp (sv_conns (with_conn k f s) j) = (if j = k then f (conn_of s k) else sc_tcp (sv_conns s j))"
  "sv_pollers (with_conn k f s) l = (if l = sc_loop (sv_conns s k) then lp (f (conn_of s k)) else sv_pollers s l)"
  by (simp_all add: with_conn_def Let_def)

lemma referenced_with_conn [simp]: "referenced (with_conn k f s) j = referenced s j"
  by (simp add: referenced_def)

lemma home_ok_with_conn [simp]: "home_ok (with_conn k f s) l g = home_ok s l g"
  by (cases g) (simp_all add: home_ok_def)

lemma srv_rest_with_conn:
  assumes "srv_rest s" and "k \<in> {1..<sv_next s}" and "poller_ok (lp (f (conn_of s k)))"
    and only: "only_channel k (sv_pollers s (sc_loop (sv_conns s k))) (lp (f (conn_of s k)))"
  shows "srv_rest (with_conn k f s)"
proof -
  have p: "pollers_ok s" using assms(1) by (simp add: srv_rest_def)
  have k: "k \<noteq> 0" using assms(2) by simp
  have st: "store (lp (f (conn_of s k))) d = store (sv_pollers s (sc_loop (sv_conns s k))) d" if "d \<noteq> k" for d
    using only that by (simp add: only_channel_def)
  have "known (sv_pollers (with_conn k f s) l) d \<longrightarrow> d = 0 \<and> l = sv_base s \<or> d \<in> {1..<sv_next s} \<and> sc_loop (sv_conns s d) = l" for l d
    using p assms(2) st by (cases "d = k") (auto simp: pollers_ok_def with_conn_conn known_def)
  moreover have "ch_fd (store (sv_pollers (with_conn k f s) l) d) = ch_fd (store (sv_pollers s l) d)" for l d
    using st only by (cases "d = k") (auto simp: with_conn_conn only_channel_def)
  moreover have "poller_ok (sv_pollers (with_conn k f s) l)" for l
    using p assms(3) by (simp add: with_conn_conn pollers_ok_def)
  ultimately have "pollers_ok (with_conn k f s)" using p by (simp add: pollers_ok_def)
  moreover have "names_ok (with_conn k f s) = names_ok s" "fds_ok (with_conn k f s) = fds_ok s" by (simp_all add: names_ok_def table_ok_def fds_ok_def)
  ultimately show ?thesis using assms(1) by (simp add: srv_rest_def)
qed

lemma life_conn_store: "store p k = store p' k \<Longrightarrow> life_conn ph k p c = life_conn ph k p' c"
  by (simp add: life_conn_def reading_def split: life.split)

lemma lives_with_conn_other:
  assumes "j \<noteq> k" and "only_channel k (sv_pollers s (sc_loop (sv_conns s k))) (lp (f (conn_of s k)))"
  shows "lives (with_conn k f s) j ph = lives s j ph"
proof -
  have "store (sv_pollers (with_conn k f s) l) j = store (sv_pollers s l) j" for l
    using assms by (simp add: with_conn_conn only_channel_def)
  from life_conn_store [OF this] show ?thesis
    using assms(1) by (simp add: lives_def Let_def life_queues_def with_conn_conn)
qed

lemma life_conn_lp [simp]: "life_conn ph k p (c\<lparr>lp := q\<rparr>) = life_conn ph k p c"
  by (simp add: life_conn_def split: life.split)

lemma lives_with_conn_same:
  assumes "life_conn ph k (lp (f (conn_of s k))) (f (conn_of s k))"
    and "sv_connections s (sc_name (sv_conns s k)) = Some k \<longleftrightarrow> ph \<in> {Announced, Up, Closing}"
    and "life_queues ph k (sc_loop (sv_conns s k)) s"
  shows "lives (with_conn k f s) k ph"
  using assms by (simp add: lives_def Let_def with_conn_conn life_queues_def)

text \<open>The queues: taking the first functor out and adding one at the end.\<close>

abbreviation popped :: "nat \<Rightarrow> srv_functor list \<Rightarrow> tcp_server \<Rightarrow> tcp_server" where
  "popped l fs s \<equiv> s\<lparr>sv_queues := (sv_queues s)(l := fs)\<rparr>"

definition about :: "nat \<Rightarrow> srv_functor set" where
  "about k = {Established k, RemoveInLoop k, Destroyed k}"

lemma sv_base_update [simp]:
  "sv_base (s\<lparr>sv_queues := q\<rparr>) = sv_base s" "sv_base (s\<lparr>sv_connections := m\<rparr>) = sv_base s" "sv_base (sv_queue l f s) = sv_base s"
  by (simp_all add: sv_base_def sv_queue_def)

lemma life_queues_popped:
  "sv_queues s l = f # fs \<Longrightarrow> f \<notin> about k \<Longrightarrow> life_queues ph k m (popped l fs s) = life_queues ph k m s"
  by (auto simp: life_queues_def about_def)

lemma life_queues_queue: "f \<notin> about k \<Longrightarrow> life_queues ph k m (sv_queue l f s) = life_queues ph k m s"
  by (auto simp: life_queues_def about_def sv_queue_def)

lemma lives_popped: "sv_queues s l = f # fs \<Longrightarrow> f \<notin> about k \<Longrightarrow> lives (popped l fs s) k ph = lives s k ph"
  using life_queues_popped [of s l f fs k ph] by (simp add: lives_def Let_def)

lemma lives_queue: "f \<notin> about k \<Longrightarrow> lives (sv_queue l f s) k ph = lives s k ph"
  using life_queues_queue [of f k ph] by (simp add: lives_def Let_def sv_queue_def)

lemma home_ok_queues [simp]: "home_ok (s\<lparr>sv_queues := q\<rparr>) l f = home_ok s l f"
  by (cases f) (simp_all add: home_ok_def)

lemma fds_ok_less:
  assumes "fds_ok s" and "\<And>k. referenced s' k \<Longrightarrow> referenced s k" and "sv_next s' = sv_next s"
    and "sv_conns s' = sv_conns s" and "sv_listenFd s' = sv_listenFd s"
  shows "fds_ok s'"
  using assms unfolding fds_ok_def by auto

lemma srv_rest_popped:
  assumes "srv_rest s" and "sv_queues s l = f # fs"
  shows "srv_rest (popped l fs s)"
proof -
  have "fds_ok (popped l fs s)"
    by (rule fds_ok_less [of s]) (use assms in \<open>auto simp: srv_rest_def referenced_def split: if_splits\<close>)
  moreover have "\<forall>m. \<forall>g \<in> set (sv_queues (popped l fs s) m). home_ok s m g"
    using assms by (auto simp: srv_rest_def)
  moreover have "names_ok (popped l fs s) = names_ok s" "pollers_ok (popped l fs s) = pollers_ok s"
    by (simp_all add: names_ok_def table_ok_def pollers_ok_def)
  ultimately show ?thesis using assms(1) by (simp add: srv_rest_def)
qed

lemma srv_rest_queue:
  assumes "srv_rest s" and "home_ok s l f" and "\<And>k. f \<noteq> Destroyed k"
  shows "srv_rest (sv_queue l f s)"
proof -
  have "fds_ok (sv_queue l f s)"
    by (rule fds_ok_less [of s]) (use assms in \<open>auto simp: srv_rest_def referenced_def sv_queue_def split: if_splits\<close>)
  moreover have "\<forall>m. \<forall>g \<in> set (sv_queues (sv_queue l f s) m). home_ok s m g"
    using assms by (auto simp: srv_rest_def sv_queue_def)
  moreover have "names_ok (sv_queue l f s) = names_ok s" "pollers_ok (sv_queue l f s) = pollers_ok s"
    by (simp_all add: names_ok_def table_ok_def pollers_ok_def sv_queue_def sv_base_def)
  ultimately show ?thesis using assms(1) by (simp add: srv_rest_def sv_queue_def)
qed

section \<open>Every step keeps the lives\<close>

definition others_live :: "nat \<Rightarrow> tcp_server \<Rightarrow> bool" where
  "others_live k s \<longleftrightarrow> (\<forall>j \<in> {1..<sv_next s}. j \<noteq> k \<longrightarrow> (\<exists>ph. lives s j ph))"

definition quiet :: "nat \<Rightarrow> tcp_server \<Rightarrow> bool" where
  "quiet k s \<longleftrightarrow> life_queues Up k (sc_loop (sv_conns s k)) s"

abbreviation tabled :: "nat \<Rightarrow> tcp_server \<Rightarrow> bool" where
  "tabled k s \<equiv> sv_connections s (sc_name (sv_conns s k)) = Some k"

lemma srv_invI: "srv_rest s \<Longrightarrow> others_live k s \<Longrightarrow> lives s k ph \<Longrightarrow> srv_inv s"
  unfolding srv_inv_def others_live_def by metis

lemma srv_inv_others: "srv_inv s \<Longrightarrow> others_live k s"
  by (simp add: srv_inv_def others_live_def)

lemma others_live_popped: "others_live k s \<Longrightarrow> sv_queues s l = f # fs \<Longrightarrow> f \<in> about k \<Longrightarrow> others_live k (popped l fs s)"
  by (auto simp: others_live_def lives_popped about_def)

lemma sv_next_queue [simp]: "sv_next (sv_queue l f s) = sv_next s"
  by (simp add: sv_queue_def)

lemma others_live_queue: "others_live k s \<Longrightarrow> f \<in> about k \<Longrightarrow> others_live k (sv_queue l f s)"
  by (auto simp: others_live_def lives_queue about_def)

lemma others_live_with_conn:
  "others_live k s \<Longrightarrow> only_channel k (sv_pollers s (sc_loop (sv_conns s k))) (lp (f (conn_of s k))) \<Longrightarrow> others_live k (with_conn k f s)"
  by (simp add: others_live_def lives_with_conn_other)

text \<open>The functor at the head of a queue tells the phase of its connection.\<close>

lemma popped_quiet:
  assumes "srv_inv s" and "sv_queues s l = f # fs" and "f \<in> about k"
  shows "k \<in> {1..<sv_next s}" and "others_live k (popped l fs s)" and "srv_rest (popped l fs s)" and "quiet k (popped l fs s)"
    and "\<exists>ph. lives s k ph \<and> f = (case ph of Announced \<Rightarrow> Established k | Closing \<Rightarrow> RemoveInLoop k | _ \<Rightarrow> Destroyed k) \<and> ph \<in> {Announced, Closing, Removed}"
proof -
  have h: "home_ok s l f" using assms(1,2) by (auto simp: srv_inv_def srv_rest_def)
  show k: "k \<in> {1..<sv_next s}" using h assms(3) by (auto simp: home_ok_def about_def)
  show "others_live k (popped l fs s)" by (rule others_live_popped [OF srv_inv_others [OF assms(1)] assms(2,3)])
  show "srv_rest (popped l fs s)" by (rule srv_rest_popped [OF srv_inv_rest [OF assms(1)] assms(2)])
  obtain ph where ph: "lives s k ph" using srv_inv_lives [OF assms(1) k] ..
  have q: "life_queues ph k (sc_loop (sv_conns s k)) s" using ph by (simp add: lives_def Let_def)
  have f: "f = (case ph of Announced \<Rightarrow> Established k | Closing \<Rightarrow> RemoveInLoop k | _ \<Rightarrow> Destroyed k) \<and> ph \<in> {Announced, Closing, Removed}"
    using q h assms(2,3) by (cases ph) (auto simp: life_queues_def home_ok_def about_def)
  with ph show "\<exists>ph. lives s k ph \<and> f = (case ph of Announced \<Rightarrow> Established k | Closing \<Rightarrow> RemoveInLoop k | _ \<Rightarrow> Destroyed k) \<and>
      ph \<in> {Announced, Closing, Removed}" by blast
  show "quiet k (popped l fs s)"
    using q h f assms(2) by (cases ph) (auto simp: quiet_def life_queues_def home_ok_def)
qed

text \<open>A connection is established: at once when it stays in the base loop, or from the queue.\<close>

lemma established_conn:
  assumes "life_conn Announced k p c" and "poller_ok p" and "exclusive p k" and "lawful accept"
  defines "c' \<equiv> connectEstablished accept (c\<lparr>lp := p\<rparr>)"
  shows "life_conn Up k (lp c') c'" and "poller_ok (lp c')" and "only_channel k p (lp c')"
proof -
  let ?p = "Channel_tie k p"
  have ch: "chan c = k" "state_calls c = []" "ch_index (store p k) = kNew" "ch_events (store p k) = kNoneEvent"
    using assms(1) by (simp_all add: life_conn_def)
  have lp: "lp c' = request accept k (kNoneEvent OR kReadEvent) ?p"
    using ch by (simp add: c'_def connectEstablished_def callUser_def Let_def request_folds Channel_tie_def)
  have "poller_ok ?p" using assms(2) by (simp add: poller_ok_def poller_inv_tie) (simp add: Channel_tie_def)
  moreover have "exclusive ?p k" using assms(3) by (auto simp: exclusive_def known_def Channel_tie_def)
  ultimately show "poller_ok (lp c')" using assms(4) by (simp add: lp poller_ok_request)
  show "only_channel k p (lp c')" by (simp add: lp only_channel_def request_store Channel_tie_def)
  have "reading k (lp c')" using ch by (simp add: lp reading_def request_store Channel_tie_def isReading_def event_masks epoll_bits)
  then show "life_conn Up k (lp c') c'"
    using ch by (simp add: life_conn_def c'_def connectEstablished_def callUser_def Let_def)
qed

lemma run_established:
  assumes "srv_rest s" and "others_live k s" and "quiet k s" and "tabled k s" and "k \<in> {1..<sv_next s}" and "lawful accept"
    and "life_conn Announced k (sv_pollers s (sc_loop (sv_conns s k))) (sc_tcp (sv_conns s k))"
    and "exclusive (sv_pollers s (sc_loop (sv_conns s k))) k"
  shows "srv_inv (with_conn k (connectEstablished accept) s)"
proof -
  have "poller_ok (sv_pollers s (sc_loop (sv_conns s k)))" using assms(1) by (simp add: srv_rest_def pollers_ok_def)
  note c = established_conn [OF assms(7) this assms(8,6)]
  show ?thesis
  proof (rule srv_invI)
    show "srv_rest (with_conn k (connectEstablished accept) s)" by (rule srv_rest_with_conn [where f = "connectEstablished accept", OF assms(1,5) c(2,3)])
    show "others_live k (with_conn k (connectEstablished accept) s)" by (rule others_live_with_conn [where f = "connectEstablished accept", OF assms(2) c(3)])
    show "lives (with_conn k (connectEstablished accept) s) k Up"
      by (rule lives_with_conn_same [where f = "connectEstablished accept", OF c(1)]) (use assms(3,4) in \<open>simp_all add: quiet_def\<close>)
  qed
qed

lemma announced_exclusive:
  assumes "srv_inv s" and "k \<in> {1..<sv_next s}" and "referenced s k"
  shows "exclusive (sv_pollers s (sc_loop (sv_conns s k))) k"
  unfolding exclusive_def
proof (intro allI impI notI)
  fix d
  let ?p = "sv_pollers s (sc_loop (sv_conns s k))"
  assume d: "d \<noteq> k" "ch_fd (store ?p d) = ch_fd (store ?p k)" "known ?p d"
  have r: "pollers_ok s" "fds_ok s" using assms(1) by (simp_all add: srv_inv_def srv_rest_def)
  have fd: "ch_fd (store ?p k) = sc_fd (sv_conns s k)" using r(1) assms(2) unfolding pollers_ok_def by blast
  have "sc_fd (sv_conns s k) \<noteq> sv_listenFd s \<and>
      (\<forall>j \<in> {1..<sv_next s}. referenced s j \<longrightarrow> j \<noteq> k \<longrightarrow> sc_fd (sv_conns s j) \<noteq> sc_fd (sv_conns s k))"
    using r(2) assms(2,3) unfolding fds_ok_def by blast
  then show False using known_fd [OF assms(1) d(3)] d(1,2) fd by auto
qed

text \<open>A closed connection leaves the table.\<close>

lemma conn_names_distinct:
  assumes "names_ok s" and "sv_next s \<le> 2 ^ 32" and "j \<in> {1..<sv_next s}" and "k \<in> {1..<sv_next s}" and "j \<noteq> k"
  shows "sc_name (sv_conns s j) \<noteq> sc_name (sv_conns s k)"
proof
  assume "sc_name (sv_conns s j) = sc_name (sv_conns s k)"
  then have "(word_of_nat j :: u32) = word_of_nat k"
    using assms(1,3,4) by (intro conn_name_inj [of "sv_ipPort s" "sv_name s"]) (auto simp: names_ok_def)
  then have "unat (word_of_nat j :: u32) = unat (word_of_nat k :: u32)" by simp
  then show False using assms(2-5) by (simp add: unat_of_nat)
qed

lemma run_remove:
  assumes "srv_rest s" and "others_live k s" and "quiet k s" and "tabled k s" and "k \<in> {1..<sv_next s}" and "sv_next s \<le> 2 ^ 32"
    and "life_conn Closing k (sv_pollers s (sc_loop (sv_conns s k))) (sc_tcp (sv_conns s k))"
  shows "srv_inv (removeConnectionInLoop k s)"
proof -
  let ?s = "removeConnectionInLoop k s" and ?l = "sc_loop (sv_conns s k)"
  have names: "names_ok s" using assms(1) by (simp add: srv_rest_def)
  have f: "sv_conns ?s = sv_conns s" "sv_next ?s = sv_next s" "sv_pollers ?s = sv_pollers s" "sv_base ?s = sv_base s"
    "sv_listenFd ?s = sv_listenFd s" "sv_connections ?s = (sv_connections s)(sc_name (sv_conns s k) := None)"
    "sv_queues ?s = (sv_queues s)(?l := sv_queues s ?l @ [Destroyed k])"
    by (simp_all add: removeConnectionInLoop_def sv_queue_def Let_def sv_base_def)
  have "table_ok s" using names by (simp add: names_ok_def)
  then have table: "table_ok ?s" by (simp add: table_ok_def f)
  have "names_ok ?s" using names table by (simp add: names_ok_def f) (simp add: removeConnectionInLoop_def sv_queue_def Let_def)
  moreover have "fds_ok ?s"
    by (rule fds_ok_less [of s]) (use assms(1,4) in \<open>auto simp: f referenced_def srv_rest_def split: if_splits\<close>)
  moreover have "pollers_ok ?s = pollers_ok s" by (simp add: pollers_ok_def f)
  moreover have "\<forall>l. \<forall>g \<in> set (sv_queues ?s l). home_ok ?s l g"
    using assms(1,5) by (auto simp: f srv_rest_def home_ok_def split: srv_functor.splits if_splits)
  ultimately have rest: "srv_rest ?s" using assms(1) by (simp add: srv_rest_def)
  have "lives ?s j ph = lives s j ph" if "j \<in> {1..<sv_next s}" "j \<noteq> k" for j ph
    using conn_names_distinct [OF names assms(6) that(1) assms(5) that(2)] that(2)
    by (simp add: lives_def Let_def f life_queues_def)
  then have "others_live k ?s" using assms(2) by (simp add: others_live_def f)
  moreover have "lives ?s k Removed"
    using assms(3,7) by (auto simp: lives_def Let_def f quiet_def life_queues_def life_conn_def)
  ultimately show ?thesis using srv_invI [OF rest] by blast
qed

text \<open>Its destruction takes the channel out of the poller.\<close>

lemma run_destroyed:
  assumes "srv_rest s" and "others_live k s" and "quiet k s" and "\<not> tabled k s" and "k \<in> {1..<sv_next s}"
    and "life_conn Removed k (sv_pollers s (sc_loop (sv_conns s k))) (sc_tcp (sv_conns s k))"
  shows "srv_inv (with_conn k (connectDestroyed accept) s)"
proof -
  let ?p = "sv_pollers s (sc_loop (sv_conns s k))" and ?f = "connectDestroyed accept"
  have c: "conn_state (sc_tcp (sv_conns s k)) = kDisconnected" "chan (sc_tcp (sv_conns s k)) = k" "known ?p k"
    using assms(6) by (simp_all add: life_conn_def known_def)
  have ok: "poller_ok ?p" using assms(1) by (simp add: srv_rest_def pollers_ok_def)
  have f: "?f (conn_of s k) = (conn_of s k)\<lparr>lp := removeChannel accept k ?p\<rparr>"
    using c by (simp add: connectDestroyed_def Channel_remove_def Let_def)
  have p: "poller_ok (lp (?f (conn_of s k)))" "only_channel k ?p (lp (?f (conn_of s k)))"
    using poller_ok_remove [OF ok poller_ok_known [OF ok c(3)]] by (simp_all add: f only_channel_def removeChannel_store)
  have "life_conn Gone k (lp (?f (conn_of s k))) (?f (conn_of s k))"
    using assms(6) by (simp add: f life_conn_def removeChannel_store)
  then have "lives (with_conn k ?f s) k Gone"
    by (rule lives_with_conn_same [where f = ?f]) (use assms(3,4) in \<open>simp_all add: quiet_def life_queues_def\<close>)
  then show ?thesis
    by (rule srv_invI [OF srv_rest_with_conn [where f = ?f, OF assms(1,5) p] others_live_with_conn [where f = ?f, OF assms(2) p(2)]])
qed

text \<open>The acceptor starts to listen.\<close>

lemma run_listen:
  assumes "srv_inv s" and "lawful accept"
  shows "srv_inv (Acceptor_listen accept s)"
proof -
  let ?s = "Acceptor_listen accept s" and ?p = "sv_pollers s (sv_base s)"
  let ?q = "request accept 0 (ch_events (store ?p 0) OR kReadEvent) ?p"
  have r: "pollers_ok s" "fds_ok s" "names_ok s" using assms(1) by (simp_all add: srv_inv_def srv_rest_def)
  have f: "sv_conns ?s = sv_conns s" "sv_next ?s = sv_next s" "sv_pollers ?s = (sv_pollers s)(sv_base s := ?q)" "sv_base ?s = sv_base s"
    "sv_listenFd ?s = sv_listenFd s" "sv_connections ?s = sv_connections s" "sv_queues ?s = sv_queues s"
    by (simp_all add: Acceptor_listen_def sv_base_def request_folds)
  have "exclusive ?p 0"
    unfolding exclusive_def
  proof (intro allI impI notI)
    fix d
    assume d: "d \<noteq> 0" "ch_fd (store ?p d) = ch_fd (store ?p 0)" "known ?p d"
    then have k: "d \<in> {1..<sv_next s}" "referenced s d" "sc_fd (sv_conns s d) = sv_listenFd s"
      using known_fd [OF assms(1) d(3)] r(1) by (auto simp: pollers_ok_def)
    then show False using r(2) unfolding fds_ok_def by blast
  qed
  then have ok: "poller_ok ?q" using r(1) assms(2) by (intro poller_ok_request) (simp_all add: pollers_ok_def)
  have st: "store (sv_pollers ?s l) d = store (sv_pollers s l) d" if "d \<noteq> 0" for l d using that by (simp add: f request_store)
  have fd: "ch_fd (store (sv_pollers ?s l) d) = ch_fd (store (sv_pollers s l) d)" for l d by (simp add: f request_store)
  have "known (sv_pollers ?s l) d \<longrightarrow> d = 0 \<and> l = sv_base s \<or> known (sv_pollers s l) d" for l d
    by (cases "d = 0") (auto simp: known_def f request_store split: if_splits)
  then have "known (sv_pollers ?s l) d \<longrightarrow> d = 0 \<and> l = sv_base s \<or> d \<in> {1..<sv_next s} \<and> sc_loop (sv_conns s d) = l" for l d
    using r(1) unfolding pollers_ok_def by blast
  moreover have "poller_ok (sv_pollers ?s l)" for l using r(1) ok by (simp add: f pollers_ok_def)
  ultimately have "pollers_ok ?s" using r(1) fd unfolding pollers_ok_def f(1,2,4,5) by simp
  moreover have "names_ok ?s = names_ok s" by (simp add: names_ok_def table_ok_def f) (simp add: Acceptor_listen_def)
  moreover have "fds_ok ?s = fds_ok s" by (simp add: fds_ok_def f referenced_def)
  moreover have "home_ok ?s l g = home_ok s l g" for l g by (cases g) (simp_all add: home_ok_def f)
  ultimately have "srv_rest ?s" using assms(1) by (simp add: srv_inv_def srv_rest_def f)
  moreover have "lives ?s j ph = lives s j ph" if "j \<in> {1..<sv_next s}" for j ph
    using life_conn_store [OF st [of j]] that by (simp add: lives_def Let_def life_queues_def f)
  ultimately show ?thesis using assms(1) by (simp add: srv_inv_def f)
qed

lemma run_functor_inv:
  assumes "srv_inv s" and "sv_queues s l = f # fs" and "lawful accept" and "sv_next s \<le> 2 ^ 32"
  shows "srv_inv (run_srv_functor accept f (popped l fs s))"
proof -
  let ?s = "popped l fs s"
  have main: "srv_inv (run_srv_functor accept f ?s)" if k: "f \<in> about k" for k
  proof -
    note q = popped_quiet [OF assms(1,2) k]
    obtain ph where ph: "lives s k ph" "f = (case ph of Announced \<Rightarrow> Established k | Closing \<Rightarrow> RemoveInLoop k | _ \<Rightarrow> Destroyed k)"
        "ph \<in> {Announced, Closing, Removed}" using q(5) by blast
    have kk: "k \<in> {1..<sv_next ?s}" "sv_next ?s \<le> 2 ^ 32" using q(1) assms(4) by simp_all
    have c: "life_conn ph k (sv_pollers ?s (sc_loop (sv_conns ?s k))) (sc_tcp (sv_conns ?s k))"
      and t: "tabled k ?s \<longleftrightarrow> ph \<in> {Announced, Up, Closing}"
      using ph(1) by (simp_all add: lives_def Let_def)
    have ex: "exclusive (sv_pollers ?s (sc_loop (sv_conns ?s k))) k" if "ph = Announced"
      using announced_exclusive [OF assms(1) q(1)] life_referenced [OF ph(1)] that by simp
    show ?thesis
      using ph(2,3) c t ex run_established [OF q(3,2,4) _ kk(1) assms(3)] run_remove [OF q(3,2,4) _ kk] run_destroyed [OF q(3,2,4) _ kk(1), of accept]
      by (cases ph) (simp_all add: run_srv_functor_def)
  qed
  have "srv_inv ?s" if "f = Listen"
  proof -
    have "lives ?s k ph = lives s k ph" for k ph using lives_popped [OF assms(2), of k ph] that by (simp add: about_def)
    then show ?thesis using srv_rest_popped [OF srv_inv_rest [OF assms(1)] assms(2)] assms(1) by (simp add: srv_inv_def)
  qed
  then have "srv_inv (run_srv_functor accept f ?s)" if "f = Listen" using that run_listen [OF _ assms(3)] by (simp add: run_srv_functor_def)
  then show ?thesis using main by (cases f) (auto simp: about_def)
qed

text \<open>Starting the server, and fields the invariant does not read.\<close>

lemma srv_inv_cong:
  assumes "sv_name s' = sv_name s" and "sv_ipPort s' = sv_ipPort s" and "sv_listenFd s' = sv_listenFd s" and "sv_nextConnId s' = sv_nextConnId s"
    and "sv_connections s' = sv_connections s" and "sv_conns s' = sv_conns s" and "sv_next s' = sv_next s" and "sv_queues s' = sv_queues s"
    and "sv_pollers s' = sv_pollers s" and "sv_base s' = sv_base s"
  shows "srv_inv s' = srv_inv s"
proof -
  have "lives s' k ph = lives s k ph" for k ph using assms by (simp add: lives_def life_queues_def Let_def)
  moreover have "home_ok s' l f = home_ok s l f" for l f using assms by (cases f) (simp_all add: home_ok_def)
  moreover have "pollers_ok s' = pollers_ok s" "names_ok s' = names_ok s" "fds_ok s' = fds_ok s"
    using assms by (simp_all add: pollers_ok_def names_ok_def table_ok_def fds_ok_def referenced_def)
  ultimately show ?thesis using assms by (simp add: srv_inv_def srv_rest_def)
qed

lemma srv_inv_queue_listen:
  assumes "srv_inv s"
  shows "srv_inv (sv_queue (sv_base s) Listen s)"
proof -
  have "srv_rest (sv_queue (sv_base s) Listen s)"
    by (rule srv_rest_queue [OF srv_inv_rest [OF assms]]) (simp_all add: home_ok_def)
  moreover have "lives (sv_queue (sv_base s) Listen s) k ph = lives s k ph" for k ph by (rule lives_queue) (simp add: about_def)
  ultimately show ?thesis using assms by (simp add: srv_inv_def)
qed

lemma start_inv:
  assumes "srv_inv s" and "lawful accept"
  shows "srv_inv (sv_start accept here newLoop s)"
proof -
  let ?t = "s\<lparr>sv_started := sv_started s + 1\<rparr>"
  have t: "srv_inv ?t" using assms(1) srv_inv_cong [of ?t s] by (simp add: sv_base_def)
  let ?u = "loop_pool_start newLoop ?t"
  have u: "srv_inv ?u" "sv_base ?u = sv_base ?t"
    using t srv_inv_cong [of ?u ?t] by (simp_all add: loop_pool_start_def sv_base_def Let_def)
  show ?thesis
    using t run_listen [OF u(1) assms(2)] srv_inv_queue_listen [OF u(1)]
    by (auto simp: sv_start_def sv_runInLoop_def run_srv_functor_def u(2) Let_def simp del: add_0)
qed

text \<open>A new connection.\<close>

definition created :: "int \<Rightarrow> bool \<Rightarrow> tcp_server \<Rightarrow> tcp_server" where
  "created fd wc s =
     (let (ioLoop, pool) = getNextLoop (sv_pool s); k = sv_next s; p = sv_pollers s ioLoop; p1 = p\<lparr>store := (store p)(k := Channel_new fd)\<rparr>;
          nm = conn_name (sv_name s) (sv_ipPort s) (sv_nextConnId s)
      in s\<lparr>sv_pool := pool, sv_nextConnId := sv_nextConnId s + 1, sv_next := k + 1, sv_pollers := (sv_pollers s)(ioLoop := p1),
           sv_conns := (sv_conns s)(k := \<lparr>sc_name = nm, sc_loop = ioLoop, sc_fd = fd, sc_tcp = TcpConnection_new k p1 wc False\<rparr>),
           sv_connections := (sv_connections s)(nm \<mapsto> k)\<rparr>)"

lemma newConnection_created:
  "newConnection accept fd wc s = sv_runInLoop accept (sv_base s) (fst (getNextLoop (sv_pool s))) (Established (sv_next s)) (created fd wc s)"
  by (simp add: newConnection_def created_def Let_def split_beta)

lemma created_fields:
  fixes s fd wc
  defines "l \<equiv> fst (getNextLoop (sv_pool s))" and "k \<equiv> sv_next s" and "s' \<equiv> created fd wc s"
  shows "sv_next s' = Suc k" and "sv_queues s' = sv_queues s" and "sv_listenFd s' = sv_listenFd s" and "sv_base s' = sv_base s"
    and "j \<noteq> k \<Longrightarrow> sv_conns s' j = sv_conns s j" and "sc_loop (sv_conns s' k) = l" and "sc_fd (sv_conns s' k) = fd"
    and "sc_name (sv_conns s' k) = conn_name (sv_name s) (sv_ipPort s) (sv_nextConnId s)" and "sv_name s' = sv_name s" and "sv_ipPort s' = sv_ipPort s"
    and "sv_connections s' = (sv_connections s)(sc_name (sv_conns s' k) \<mapsto> k)" and "sv_nextConnId s' = sv_nextConnId s + 1"
    and "sv_pollers s' = (sv_pollers s)(l := (sv_pollers s l)\<lparr>store := (store (sv_pollers s l))(k := Channel_new fd)\<rparr>)"
    and "sc_tcp (sv_conns s' k) = TcpConnection_new k (sv_pollers s' l) wc False"
  by (simp_all add: s'_def created_def l_def k_def Let_def split_beta sv_base_def getNextLoop_def)

lemma created_names:
  assumes "names_ok s"
  shows "names_ok (created fd wc s)"
proof -
  let ?s = "created fd wc s" and ?k = "sv_next s"
  note f = created_fields [where s = s and fd = fd and wc = wc]
  have "table_ok s" "1 \<le> ?k" using assms by (simp_all add: names_ok_def)
  then have t: "k \<in> {1..<Suc ?k} \<and> nm = sc_name (sv_conns ?s k)" if "sv_connections ?s nm = Some k" for nm k
  proof (cases "nm = sc_name (sv_conns ?s ?k)")
    case False
    then have "k \<in> {1..<?k}" "nm = sc_name (sv_conns s k)" using \<open>table_ok s\<close> that unfolding f(11) table_ok_def by simp_all
    then show ?thesis using f(5) [of k] by simp
  qed (use that in \<open>simp add: f(11)\<close>)
  then have "table_ok ?s" unfolding table_ok_def f(1) by blast
  moreover have "\<forall>k \<in> {1..<Suc ?k}. sc_name (sv_conns ?s k) = conn_name (sv_name s) (sv_ipPort s) (word_of_nat k)"
    using assms by (auto simp: names_ok_def less_Suc_eq f(5,8))
  ultimately show ?thesis using assms unfolding names_ok_def f(1,9,10,12) by simp
qed

lemma created_referenced:
  assumes "names_ok s" and "sv_next s < 2 ^ 32" and "j \<in> {1..<sv_next s}"
  shows "sc_name (sv_conns (created fd wc s) (sv_next s)) \<noteq> sc_name (sv_conns s j)"
    and "referenced (created fd wc s) j = referenced s j"
proof -
  note f = created_fields [where s = s and fd = fd and wc = wc]
  have j: "j \<noteq> sv_next s" "j \<in> {1..<sv_next (created fd wc s)}" "sv_next s \<in> {1..<sv_next (created fd wc s)}"
    using assms(1,3) unfolding f(1) names_ok_def by auto
  have "sc_name (sv_conns (created fd wc s) j) \<noteq> sc_name (sv_conns (created fd wc s) (sv_next s))"
    by (rule conn_names_distinct [OF created_names [OF assms(1)] _ j(2,3,1)]) (use assms(2) in \<open>simp only: f(1) Suc_leI\<close>)
  then show n: "sc_name (sv_conns (created fd wc s) (sv_next s)) \<noteq> sc_name (sv_conns s j)" using f(5) [OF j(1)] by simp
  then show "referenced (created fd wc s) j = referenced s j"
    unfolding referenced_def f(2,11) f(5) [OF j(1)] by simp
qed

lemma created_pollers:
  assumes "srv_inv s"
  shows "pollers_ok (created fd wc s)"
proof -
  let ?s = "created fd wc s" and ?k = "sv_next s" and ?l = "fst (getNextLoop (sv_pool s))"
  note f = created_fields [where s = s and fd = fd and wc = wc]
  have p: "pollers_ok s" and k: "1 \<le> ?k" using assms by (simp_all add: srv_inv_def srv_rest_def names_ok_def)
  have new: "\<not> known (sv_pollers s l) ?k" for l using p k unfolding pollers_ok_def by (metis atLeastLessThan_iff less_irrefl not_one_le_zero)
  have "poller_ok (sv_pollers ?s l)" for l
    using p new [of ?l] unfolding f(13) pollers_ok_def poller_ok_def by (simp add: poller_inv_alloc)
  moreover have "known (sv_pollers ?s l) d = known (sv_pollers s l) d" for l d
    using new [of ?l] unfolding f(13) by (auto simp: known_def Channel_new_def)
  moreover have "ch_fd (store (sv_pollers ?s l) d) = ch_fd (store (sv_pollers s l) d)" if "d \<noteq> ?k" for l d
    using that unfolding f(13) by simp
  moreover have "ch_fd (store (sv_pollers ?s ?l) ?k) = fd" unfolding f(13) by (simp add: Channel_new_def)
  moreover have "known (sv_pollers s l) d \<longrightarrow> d = 0 \<and> l = sv_base s \<or> d \<in> {1..<Suc ?k} \<and> sc_loop (sv_conns ?s d) = l" for l d
  proof (cases "d = ?k")
    case False
    then show ?thesis using p f(5) [OF False] unfolding pollers_ok_def by (metis atLeastLessThan_iff less_SucI)
  qed (use new in simp)
  moreover have "\<forall>j \<in> {1..<Suc ?k}. ch_fd (store (sv_pollers ?s (sc_loop (sv_conns ?s j))) j) = sc_fd (sv_conns ?s j)"
    using p calculation(3,4) by (auto simp: less_Suc_eq f(5,6,7) pollers_ok_def)
  ultimately show ?thesis using p k unfolding pollers_ok_def f(1,3,4) by simp
qed

lemma created_rest:
  assumes "srv_inv s" and "sv_next s < 2 ^ 32" and "\<not> open_fd s fd"
  shows "srv_rest (created fd wc s)"
proof -
  let ?s = "created fd wc s" and ?k = "sv_next s"
  note f = created_fields [where s = s and fd = fd and wc = wc]
  have n: "names_ok s" "fds_ok s" "\<forall>l. \<forall>g \<in> set (sv_queues s l). home_ok s l g" using assms(1) by (simp_all add: srv_inv_def srv_rest_def)
  note r = created_referenced(2) [OF n(1) assms(2)]
  have o: "fd \<noteq> sv_listenFd s" "\<And>j. j \<in> {1..<?k} \<Longrightarrow> referenced s j \<Longrightarrow> sc_fd (sv_conns s j) \<noteq> fd"
    using assms(3) by (auto simp: open_fd_def)
  have "fds_ok ?s"
    using n(2) o(1) o(2) [symmetric] o(2) r unfolding fds_ok_def f(1,3) by (auto simp: less_Suc_eq f(5,7))
  moreover have "home_ok ?s l g" if "home_ok s l g" for l g
    using that f(5) unfolding home_ok_def f(1,4) by (cases g) auto
  ultimately show ?thesis
    using created_pollers [OF assms(1)] created_names [OF n(1)] n(3) unfolding srv_rest_def f(2) by blast
qed

lemma created_lives:
  assumes "srv_inv s" and "sv_next s < 2 ^ 32"
  shows "others_live (sv_next s) (created fd wc s)" and "tabled (sv_next s) (created fd wc s)" and "quiet (sv_next s) (created fd wc s)"
    and "life_conn Announced (sv_next s) (sv_pollers (created fd wc s) (sc_loop (sv_conns (created fd wc s) (sv_next s))))
      (sc_tcp (sv_conns (created fd wc s) (sv_next s)))"
proof -
  let ?s = "created fd wc s" and ?k = "sv_next s"
  note f = created_fields [where s = s and fd = fd and wc = wc]
  have n: "names_ok s" and home: "\<forall>l. \<forall>g \<in> set (sv_queues s l). home_ok s l g" using assms(1) by (simp_all add: srv_inv_def srv_rest_def)
  have "lives ?s j ph = lives s j ph" if j: "j \<in> {1..<?k}" for j ph
  proof -
    have jk: "j \<noteq> ?k" using j by simp
    have "store (sv_pollers ?s l) j = store (sv_pollers s l) j" for l using jk unfolding f(13) by simp
    from life_conn_store [OF this] show ?thesis
      using created_referenced(1) [OF n assms(2) j] not_sym [OF created_referenced(1) [OF n assms(2) j]] f(5) [OF jk]
      unfolding lives_def life_queues_def f(2,4,11) Let_def by simp
  qed
  then have "\<exists>ph. lives ?s j ph" if "j \<in> {1..<?k}" for j using that srv_inv_lives [OF assms(1) that] by blast
  then show "others_live ?k ?s" unfolding others_live_def f(1) by (metis atLeastLessThan_iff less_SucE)
  show "tabled ?k ?s" unfolding f(11) by simp
  have "g \<notin> about ?k" if "g \<in> set (sv_queues s l)" for g l using home that by (fastforce simp: home_ok_def about_def)
  then have "count_list (sv_queues s l) g = 0" if "g \<in> about ?k" for g l using that by (auto simp: count_list_0_iff)
  then show "quiet ?k ?s" unfolding quiet_def life_queues_def f(2) by (simp add: about_def)
  show "life_conn Announced ?k (sv_pollers ?s (sc_loop (sv_conns ?s ?k))) (sc_tcp (sv_conns ?s ?k))"
    unfolding f(14) f(6) f(13) by (simp add: life_conn_def TcpConnection_new_def Channel_new_def kNoneEvent_def)
qed

lemma newConnection_inv:
  assumes "srv_inv s" and "sv_next s < 2 ^ 32" and "\<not> open_fd s fd" and "lawful accept"
  shows "srv_inv (newConnection accept fd wc s)"
proof -
  let ?s = "created fd wc s" and ?k = "sv_next s" and ?l = "fst (getNextLoop (sv_pool s))"
  note f = created_fields [where s = s and fd = fd and wc = wc]
  note rest = created_rest [OF assms(1-3), of wc] and l = created_lives [OF assms(1,2), of fd wc]
  have names: "1 \<le> ?k" using assms(1) by (simp add: srv_inv_def srv_rest_def names_ok_def)
  then have k: "?k \<in> {1..<sv_next ?s}" unfolding f(1) by simp
  have "exclusive (sv_pollers ?s (sc_loop (sv_conns ?s ?k))) ?k"
    unfolding exclusive_def
  proof (intro allI impI notI)
    fix d
    let ?p = "sv_pollers ?s (sc_loop (sv_conns ?s ?k))"
    assume d: "d \<noteq> ?k" "ch_fd (store ?p d) = ch_fd (store ?p ?k)" "known ?p d"
    have "store ?p d = store (sv_pollers s ?l) d" "ch_fd (store ?p ?k) = fd"
      using d(1) unfolding f(6,13) by (simp_all add: Channel_new_def)
    then show False
      using known_fd [OF assms(1), of ?l d] d(2,3) assms(3) unfolding open_fd_def known_def by auto
  qed
  then have run: "srv_inv (with_conn ?k (connectEstablished accept) ?s)"
    by (rule run_established [OF rest l(1,3,2) k assms(4) l(4)])
  have "srv_inv (sv_queue ?l (Established ?k) ?s)"
  proof (rule srv_invI)
    show "srv_rest (sv_queue ?l (Established ?k) ?s)"
      by (rule srv_rest_queue [OF rest]) (use k in \<open>simp_all add: home_ok_def f(6)\<close>)
    show "others_live ?k (sv_queue ?l (Established ?k) ?s)" by (rule others_live_queue [OF l(1)]) (simp add: about_def)
    show "lives (sv_queue ?l (Established ?k) ?s) ?k Announced"
      using l(2-4) by (auto simp: lives_def Let_def life_queues_def quiet_def sv_queue_def f(6) sv_base_def)
  qed
  then show ?thesis
    using run by (simp add: newConnection_created sv_runInLoop_def run_srv_functor_def)
qed

text \<open>Events and users of a connection.\<close>

lemma close_calls_state: "close_calls c = count_list (state_calls c) CloseCallbackUser"
proof -
  have "count_list us CloseCallbackUser = count_list (filter (\<lambda>u. u \<noteq> MessageCallback) us) CloseCallbackUser" for us
    by (induction us) auto
  then show ?thesis by (simp add: close_calls_def)
qed

lemma handler_up:
  assumes "srv_inv s" and "lives s k Up" and "k \<in> {1..<sv_next s}" and "still_up (conn_of s k) (f (conn_of s k))"
  shows "srv_inv (conn_handler accept k f s)"
proof -
  let ?c = "conn_of s k"
  have t: "tabled k s" "life_queues Up k (sc_loop (sv_conns s k)) s" and c: "life_conn Up k (sv_pollers s (sc_loop (sv_conns s k))) (sc_tcp (sv_conns s k))"
    using assms(2) by (simp_all add: lives_def Let_def)
  have ch: "chan ?c = k" "state_calls ?c = [ConnectionCallback]" using c by (simp_all add: life_conn_def)
  have up: "poller_ok (lp (f ?c))" "only_channel k (sv_pollers s (sc_loop (sv_conns s k))) (lp (f ?c))" "life_conn Up k (lp (f ?c)) (f ?c)"
    using assms(4) ch by (auto simp: still_up_def life_conn_def)
  have "srv_inv (with_conn k f s)"
  proof (rule srv_invI)
    show "srv_rest (with_conn k f s)" by (rule srv_rest_with_conn [where f = f, OF srv_inv_rest [OF assms(1)] assms(3) up(1,2)])
    show "others_live k (with_conn k f s)" by (rule others_live_with_conn [where f = f, OF srv_inv_others [OF assms(1)] up(2)])
    show "lives (with_conn k f s) k Up" by (rule lives_with_conn_same [where f = f, OF up(3)]) (use t in simp_all)
  qed
  moreover have "close_calls (f ?c) = close_calls (sc_tcp (sv_conns s k))"
    using assms(4) by (simp add: close_calls_state still_up_def)
  ultimately show ?thesis by (simp add: conn_handler_def Let_def with_conn_conn)
qed

lemma handler_down:
  assumes "srv_inv s" and "lives s k Up" and "k \<in> {1..<sv_next s}" and "gone_down (conn_of s k) (f (conn_of s k))" and "sv_next s \<le> 2 ^ 32"
  shows "srv_inv (conn_handler accept k f s)"
proof -
  let ?c = "conn_of s k" and ?s = "with_conn k f s" and ?l = "sc_loop (sv_conns s k)"
  have t: "tabled k ?s" "quiet k ?s" and c: "life_conn Up k (sv_pollers s ?l) (sc_tcp (sv_conns s k))"
    using assms(2) by (simp_all add: lives_def Let_def quiet_def life_queues_def)
  have ch: "chan ?c = k" "state_calls ?c = [ConnectionCallback]" using c by (simp_all add: life_conn_def)
  have dn: "poller_ok (lp (f ?c))" "only_channel k (sv_pollers s ?l) (lp (f ?c))" "life_conn Closing k (lp (f ?c)) (f ?c)"
    using assms(4) ch by (auto simp: gone_down_def life_conn_def)
  have rest: "srv_rest ?s" by (rule srv_rest_with_conn [where f = f, OF srv_inv_rest [OF assms(1)] assms(3) dn(1,2)])
  have oth: "others_live k ?s" by (rule others_live_with_conn [where f = f, OF srv_inv_others [OF assms(1)] dn(2)])
  have k: "k \<in> {1..<sv_next ?s}" "sv_next ?s \<le> 2 ^ 32" using assms(3,5) by simp_all
  have conn: "life_conn Closing k (sv_pollers ?s (sc_loop (sv_conns ?s k))) (sc_tcp (sv_conns ?s k))" using dn(3) by (simp add: with_conn_conn)
  have now: "srv_inv (removeConnectionInLoop k ?s)" by (rule run_remove [OF rest oth t(2,1) k conn])
  have "srv_inv (sv_queue (sv_base s) (RemoveInLoop k) ?s)"
  proof (rule srv_invI)
    show "srv_rest (sv_queue (sv_base s) (RemoveInLoop k) ?s)" by (rule srv_rest_queue [OF rest]) (use assms(3) in \<open>simp_all add: home_ok_def\<close>)
    show "others_live k (sv_queue (sv_base s) (RemoveInLoop k) ?s)" by (rule others_live_queue [OF oth]) (simp add: about_def)
    show "lives (sv_queue (sv_base s) (RemoveInLoop k) ?s) k Closing"
      using t conn by (auto simp: lives_def Let_def life_queues_def quiet_def sv_queue_def)
  qed
  moreover have "close_calls (f ?c) = Suc (close_calls (sc_tcp (sv_conns s k)))"
    using assms(4) by (simp add: close_calls_state gone_down_def)
  ultimately show ?thesis
    using now by (simp add: conn_handler_def Let_def with_conn_conn removeConnection_def sv_runInLoop_def run_srv_functor_def)
qed

lemma handler_idle:
  assumes "srv_inv s" and "lives s k ph" and "ph \<noteq> Up" and "k \<in> {1..<sv_next s}" and "conn_user_op accept f"
  shows "srv_inv (conn_handler accept k f s)"
proof -
  let ?c = "conn_of s k" and ?l = "sc_loop (sv_conns s k)"
  have l: "tabled k s \<longleftrightarrow> ph \<in> {Announced, Up, Closing}" "life_queues ph k ?l s" "life_conn ph k (sv_pollers s ?l) (sc_tcp (sv_conns s k))"
    using assms(2) by (simp_all add: lives_def Let_def)
  have idle: "conn_state ?c = kDisconnected \<or> conn_state ?c = kConnecting \<and> functors ?c = []"
    using l(3) assms(3) by (cases ph) (simp_all add: life_conn_def)
  note c = conn_user_op_idle [OF assms(5) idle]
  have ok: "poller_ok (sv_pollers s ?l)" using srv_inv_rest [OF assms(1)] by (simp add: srv_rest_def pollers_ok_def)
  have life: "life_conn ph k (lp (f ?c)) (f ?c)"
    using c l(3) assms(3) by (cases ph) (simp_all add: life_conn_def)
  have p: "poller_ok (lp (f ?c))" "only_channel k (sv_pollers s ?l) (lp (f ?c))" using c ok by simp_all
  have "srv_inv (with_conn k f s)"
  proof (rule srv_invI)
    show "srv_rest (with_conn k f s)" by (rule srv_rest_with_conn [where f = f, OF srv_inv_rest [OF assms(1)] assms(4) p])
    show "others_live k (with_conn k f s)" by (rule others_live_with_conn [where f = f, OF srv_inv_others [OF assms(1)] p(2)])
    show "lives (with_conn k f s) k ph" by (rule lives_with_conn_same [where f = f, OF life l(1,2)])
  qed
  moreover have "close_calls (f ?c) = close_calls (sc_tcp (sv_conns s k))" using c by (simp add: close_calls_def)
  ultimately show ?thesis by (simp add: conn_handler_def Let_def with_conn_conn)
qed

lemma user_inv:
  assumes "srv_inv s" and "k \<in> {1..<sv_next s}" and "conn_user_op accept f" and "lawful accept"
  shows "srv_inv (conn_handler accept k f s)"
proof -
  obtain ph where ph: "lives s k ph" using srv_inv_lives [OF assms(1,2)] ..
  show ?thesis
  proof (cases "ph = Up")
    case True
    let ?c = "conn_of s k"
    have "still_up ?c ?c"
      using ph True srv_inv_rest [OF assms(1)] by (auto simp: still_up_def lives_def Let_def life_conn_def srv_rest_def pollers_ok_def)
    then have "still_up ?c (f ?c)" by (rule still_up_kept [OF _ conn_user_op_kept [OF assms(3)] assms(4)])
    then show ?thesis by (rule handler_up [where f = f, OF assms(1) ph [unfolded True] assms(2)])
  qed (rule handler_idle [OF assms(1) ph _ assms(2,3)])
qed

text \<open>Only a connection that is up gets events.\<close>

lemma event_inv:
  assumes "srv_inv s" and "k \<in> {1..<sv_next s}" and "interest (ctl_log (sv_pollers s (sc_loop (sv_conns s k)))) (sc_fd (sv_conns s k)) = Some (ev, k)"
    and "hup_readable r" and "lawful accept" and "sv_next s \<le> 2 ^ 32"
  shows "srv_inv (conn_handler accept k (conn_handleEvent accept readv write sf disk r) s)"
proof -
  let ?p = "sv_pollers s (sc_loop (sv_conns s k))"
  obtain ph where ph: "lives s k ph" using srv_inv_lives [OF assms(1,2)] ..
  have ok: "poller_ok ?p" using srv_inv_rest [OF assms(1)] by (simp add: srv_rest_def pollers_ok_def)
  then have "ch_index (store ?p k) = kAdded"
    using assms(3) poller_invD(4) [of ?p "sc_fd (sv_conns s k)"] by (auto simp: poller_ok_def split: option.splits if_splits)
  then have up: "ph = Up" using ph by (cases ph) (simp_all add: lives_def Let_def life_conn_def)
  have c: "conn_state (conn_of s k) \<in> {kConnected, kDisconnecting}" "reading k ?p" "chan (conn_of s k) = k"
    using ph up by (auto simp: lives_def Let_def life_conn_def)
  have "still_up (conn_of s k) (conn_handleEvent accept readv write sf disk r (conn_of s k)) \<or>
      gone_down (conn_of s k) (conn_handleEvent accept readv write sf disk r (conn_of s k))"
    by (rule conn_handleEvent_outcome [OF c(1) _ _ assms(5,4)]) (use ok c in simp_all)
  then show ?thesis
    using handler_up [OF assms(1) ph [unfolded up] assms(2)] handler_down [OF assms(1) ph [unfolded up] assms(2) _ assms(6)] by blast
qed

lemma run_srv_functor_next: "sv_next (run_srv_functor accept f s) = sv_next s"
  by (cases f) (simp_all add: run_srv_functor_def Acceptor_listen_def removeConnectionInLoop_def Let_def)

lemma sv_runInLoop_next: "sv_next (sv_runInLoop accept here l f s) = sv_next s"
  by (simp add: sv_runInLoop_def run_srv_functor_next)

lemma conn_handler_next: "sv_next (conn_handler accept k f s) = sv_next s"
proof -
  have "sv_next ((removeConnection accept l k ^^ n) t) = sv_next t" for n t l
    by (induction n) (simp_all add: removeConnection_def sv_runInLoop_next)
  then show ?thesis by (simp add: conn_handler_def Let_def)
qed

lemma srv_step_next: "srv_step accept s s' \<Longrightarrow> sv_next s \<le> sv_next s'"
  by (induction rule: srv_step.induct)
    (simp_all add: run_srv_functor_next conn_handler_next sv_start_def sv_runInLoop_next loop_pool_start_def Let_def
      Acceptor_handleRead_def newConnection_created created_fields(1))

lemma srv_step_inv: "srv_step accept s s' \<Longrightarrow> srv_inv s \<Longrightarrow> lawful accept \<Longrightarrow> sv_next s' \<le> 2 ^ 32 \<Longrightarrow> srv_inv s'"
proof (induction rule: srv_step.induct)
  case (srv_accept s connfd wc)
  then show ?case
    using newConnection_inv [of s connfd accept wc]
    by (auto simp: Acceptor_handleRead_def newConnection_created sv_runInLoop_next created_fields(1) split: if_splits)
qed (auto simp: start_inv run_functor_inv event_inv user_inv run_srv_functor_next conn_handler_next)

lemma srv_inv_new: "srv_inv (setThreadNum n (TcpServer_new nameArg listenAddr listenFd base))"
proof -
  let ?s = "setThreadNum n (TcpServer_new nameArg listenAddr listenFd base)"
  have "poller_ok (EPollPoller_new (\<lambda>_. Channel_new listenFd))"
    by (simp add: poller_ok_def poller_inv_new Channel_new_def) (simp add: EPollPoller_new_def)
  then have "pollers_ok ?s"
    by (simp add: pollers_ok_def setThreadNum_def TcpServer_new_def sv_base_def EventLoopThreadPool_new_def known_def EPollPoller_new_def Channel_new_def)
  moreover have "names_ok ?s" "fds_ok ?s"
    using length_toIpPort by (simp_all add: names_ok_def table_ok_def fds_ok_def setThreadNum_def TcpServer_new_def)
  ultimately show ?thesis by (simp add: srv_inv_def srv_rest_def) (simp add: setThreadNum_def TcpServer_new_def)
qed

lemma srv_reach_inv: "srv_reach accept s \<Longrightarrow> lawful accept \<Longrightarrow> sv_next s \<le> 2 ^ 32 \<Longrightarrow> srv_inv s"
proof (induction rule: srv_reach.induct)
  case (srv_run_step s s')
  then show ?case using srv_step_inv srv_step_next le_trans by blast
qed (rule srv_inv_new)

section \<open>Draining the queues\<close>

text \<open>A loop runs the first \<open>n\<close> functors of its queue; those it queues meanwhile stay for the next turn.\<close>

fun run_queue :: "kernel \<Rightarrow> nat \<Rightarrow> nat \<Rightarrow> tcp_server \<Rightarrow> tcp_server" where
  "run_queue accept l 0 s = s"
| "run_queue accept l (Suc n) s =
     (case sv_queues s l of [] \<Rightarrow> s | f # fs \<Rightarrow> run_queue accept l n (run_srv_functor accept f (popped l fs s)))"

lemma run_srv_functor_queues:
  "\<exists>new. sv_queues (run_srv_functor accept f s) m = sv_queues s m @ new \<and> set new \<subseteq> {Destroyed j |j. f = RemoveInLoop j}"
  by (cases f) (auto simp: run_srv_functor_def Acceptor_listen_def removeConnectionInLoop_def sv_queue_def Let_def)

lemma run_queue_queues:
  "n \<le> length (sv_queues s l) \<Longrightarrow>
   \<exists>new. sv_queues (run_queue accept l n s) m = drop (if m = l then n else 0) (sv_queues s m) @ new \<and>
     set new \<subseteq> {Destroyed j |j. RemoveInLoop j \<in> set (sv_queues s l)}"
proof (induction n arbitrary: s)
  case (Suc n)
  then obtain f fs where q: "sv_queues s l = f # fs" by (cases "sv_queues s l") auto
  let ?t = "run_srv_functor accept f (popped l fs s)"
  obtain a where a: "sv_queues ?t l = fs @ a" "set a \<subseteq> {Destroyed j |j. f = RemoveInLoop j}"
    using run_srv_functor_queues [of accept f "popped l fs s" l] by auto
  obtain b where b: "sv_queues ?t m = sv_queues (popped l fs s) m @ b" "set b \<subseteq> {Destroyed j |j. f = RemoveInLoop j}"
    using run_srv_functor_queues [of accept f "popped l fs s" m] by auto
  have n: "n \<le> length fs" using Suc.prems q by simp
  then obtain c where c: "sv_queues (run_queue accept l n ?t) m = drop (if m = l then n else 0) (sv_queues ?t m) @ c"
      "set c \<subseteq> {Destroyed j |j. RemoveInLoop j \<in> set (sv_queues ?t l)}"
    using Suc.IH [of ?t] a(1) by auto
  have "set c \<subseteq> {Destroyed j |j. RemoveInLoop j \<in> set (sv_queues s l)}" using c(2) a q by auto
  moreover have "set b \<subseteq> {Destroyed j |j. RemoveInLoop j \<in> set (sv_queues s l)}" using b(2) q by auto
  moreover have "sv_queues (run_queue accept l (Suc n) s) m = drop (if m = l then Suc n else 0) (sv_queues s m) @ b @ c"
    using c(1) b(1) n by (simp add: q)
  ultimately show ?case by (intro exI [of _ "b @ c"]) auto
qed simp

lemma run_queue_reach: "srv_reach accept s \<Longrightarrow> srv_reach accept (run_queue accept l n s)"
proof (induction n arbitrary: s)
  case (Suc n)
  then show ?case by (cases "sv_queues s l") (auto intro: srv_run_step srv_run)
qed simp

lemma run_srv_functor_calls: "\<exists>us. calls (sc_tcp (sv_conns (run_srv_functor accept f s) k)) = calls (sc_tcp (sv_conns s k)) @ us"
  by (cases f)
    (auto simp: run_srv_functor_def Acceptor_listen_def removeConnectionInLoop_def sv_queue_def Let_def with_conn_conn
      connectEstablished_def connectDestroyed_def callUser_def)

lemma run_queue_calls: "\<exists>us. calls (sc_tcp (sv_conns (run_queue accept l n s) k)) = calls (sc_tcp (sv_conns s k)) @ us"
proof (induction n arbitrary: s)
  case (Suc n)
  show ?case
  proof (cases "sv_queues s l")
    case (Cons f fs)
    let ?t = "run_srv_functor accept f (popped l fs s)"
    obtain us where "calls (sc_tcp (sv_conns ?t k)) = calls (sc_tcp (sv_conns (popped l fs s) k)) @ us" using run_srv_functor_calls by blast
    moreover obtain vs where "calls (sc_tcp (sv_conns (run_queue accept l n ?t) k)) = calls (sc_tcp (sv_conns ?t k)) @ vs" using Suc.IH by blast
    ultimately show ?thesis by (simp add: Cons)
  qed simp
qed simp

lemma run_queue_next: "sv_next (run_queue accept l n s) = sv_next s"
proof (induction n arbitrary: s)
  case (Suc n)
  then show ?case by (cases "sv_queues s l") (simp_all add: run_srv_functor_next)
qed simp

lemma run_queue_conn:
  "sv_base (run_queue accept l n s) = sv_base s" "sc_loop (sv_conns (run_queue accept l n s) k) = sc_loop (sv_conns s k)"
proof -
  have r: "sv_base (run_srv_functor accept f t) = sv_base t \<and> sc_loop (sv_conns (run_srv_functor accept f t) k) = sc_loop (sv_conns t k)" for f t
    by (cases f) (simp_all add: run_srv_functor_def Acceptor_listen_def removeConnectionInLoop_def sv_queue_def Let_def sv_base_def with_conn_def)
  show "sv_base (run_queue accept l n s) = sv_base s"
  proof (induction n arbitrary: s)
    case (Suc n)
    then show ?case using r by (cases "sv_queues s l") simp_all
  qed simp
  show "sc_loop (sv_conns (run_queue accept l n s) k) = sc_loop (sv_conns s k)"
  proof (induction n arbitrary: s)
    case (Suc n)
    then show ?case using r by (cases "sv_queues s l") simp_all
  qed simp
qed

lemma remove_home: "srv_inv s \<Longrightarrow> RemoveInLoop k \<in> set (sv_queues s l) \<Longrightarrow> l = sv_base s"
  using bspec [of "set (sv_queues s l)" "home_ok s l" "RemoveInLoop k"] by (simp add: srv_inv_def srv_rest_def home_ok_def)

lemma life_closed: "lives s k ph \<Longrightarrow> CloseCallbackUser \<in> set (calls (sc_tcp (sv_conns s k))) \<Longrightarrow> ph \<in> {Closing, Removed, Gone}"
proof -
  assume a: "lives s k ph" "CloseCallbackUser \<in> set (calls (sc_tcp (sv_conns s k)))"
  then have "CloseCallbackUser \<in> set (state_calls (sc_tcp (sv_conns s k)))" by simp
  then show ?thesis using a(1) by (cases ph) (simp_all only: lives_def life_conn_def Let_def life.case, simp_all)
qed

lemma registered_iff_up:
  fixes s k
  assumes "srv_inv s" and "k \<in> {1..<sv_next s}"
  defines "p \<equiv> sv_pollers s (sc_loop (sv_conns s k))"
  shows "legal_log (ctl_log p) \<and> \<not> exited p \<and>
    ((\<exists>ev. interest (ctl_log p) (sc_fd (sv_conns s k)) = Some (ev, k) \<and> ev AND kReadEvent \<noteq> 0) \<longleftrightarrow>
     conn_state (sc_tcp (sv_conns s k)) \<in> {kConnected, kDisconnecting})"
proof -
  have "pollers_ok s" using assms(1) by (simp add: srv_inv_def srv_rest_def)
  then have ok: "poller_inv p" "\<not> exited p" and fd: "ch_fd (store p k) = sc_fd (sv_conns s k)"
    using assms(2) by (auto simp: pollers_ok_def poller_ok_def p_def)
  have "interest (ctl_log p) (sc_fd (sv_conns s k)) = Some (ev, k) \<longleftrightarrow> ch_index (store p k) = kAdded \<and> ch_events (store p k) = ev" for ev
    unfolding poller_invD(4) [OF ok(1)] using poller_invD(5) [OF ok(1), of "sc_fd (sv_conns s k)" k] fd by (auto simp: known_def split: option.splits)
  moreover obtain ph where "lives s k ph" using srv_inv_lives [OF assms(1,2)] ..
  ultimately show ?thesis
    using ok poller_invD(1) [OF ok(1)] by (cases ph) (auto simp: lives_def life_conn_def reading_def isReading_def Let_def p_def)
qed

section \<open>Properties\<close>

text \<open>
  (C25) The life of a connection.  However the base loop, the loops of the pool, the kernel and the users of connections interleave, with less than
  \<open>2\<^sup>32\<close> connections: a connection calls the connection callback once when it is up and once when it is down, and the close callback once after that; until then it
  is in the table, and its removal and destruction are on the way exactly once each; at the end no table, queue or poller knows it.
\<close>

theorem server_connection_lifecycle:
  assumes "srv_reach accept s" and "lawful accept" and "sv_next s \<le> 2 ^ 32" and "k \<in> {1..<sv_next s}"
  shows "let sc = sv_conns s k; us = state_calls (sc_tcp sc); q = sv_queues s (sc_loop sc); b = sv_queues s (sv_base s);
      inTable = (sv_connections s (sc_name sc) = Some k) in
    us = [] \<and> inTable \<and> count_list q (Established k) = 1 \<or>
    us = [ConnectionCallback] \<and> inTable \<and> conn_state (sc_tcp sc) \<in> {kConnected, kDisconnecting} \<or>
    us = [ConnectionCallback, ConnectionCallback, CloseCallbackUser] \<and> conn_state (sc_tcp sc) = kDisconnected \<and>
      (inTable \<and> count_list b (RemoveInLoop k) = 1 \<and> Destroyed k \<notin> set q \<or>
       \<not> inTable \<and> RemoveInLoop k \<notin> set b \<and> count_list q (Destroyed k) = 1 \<or>
       \<not> inTable \<and> RemoveInLoop k \<notin> set b \<and> Destroyed k \<notin> set q \<and> \<not> known (sv_pollers s (sc_loop sc)) k)"
proof -
  obtain ph where "lives s k ph" using srv_inv_lives [OF srv_reach_inv [OF assms(1-3)] assms(4)] ..
  then show ?thesis
    by (cases ph) (auto simp: lives_def life_conn_def life_queues_def known_def Let_def count_list_0_iff)
qed

text \<open>
  The loops of a server share descriptors safely: every loop issues only legal \<^verbatim>\<open>epoll_ctl\<close> calls and none takes the \<^verbatim>\<open>LOG_FATAL\<close> exit, and the descriptor of a
  connection is registered, with the connection's channel and for reading, exactly while the connection is up.
\<close>

theorem server_registers_live_connections:
  assumes "srv_reach accept s" and "lawful accept" and "sv_next s \<le> 2 ^ 32" and "k \<in> {1..<sv_next s}"
  shows "let p = sv_pollers s (sc_loop (sv_conns s k)) in
    legal_log (ctl_log p) \<and> \<not> exited p \<and>
    ((\<exists>ev. interest (ctl_log p) (sc_fd (sv_conns s k)) = Some (ev, k) \<and> ev AND kReadEvent \<noteq> 0) \<longleftrightarrow>
     conn_state (sc_tcp (sv_conns s k)) \<in> {kConnected, kDisconnecting})"
  using registered_iff_up [OF srv_reach_inv [OF assms(1-3)] assms(4)] by (simp add: Let_def)

text \<open>
  (C26) A closed connection is released: once its close callback was called, one turn of the base loop and then one turn of its own loop leave it out of the table, the
  queues and the poller.
\<close>

theorem closed_connection_released:
  assumes "srv_reach accept s" and "lawful accept" and "sv_next s \<le> 2 ^ 32" and "k \<in> {1..<sv_next s}"
    and "CloseCallbackUser \<in> set (calls (sc_tcp (sv_conns s k)))"
  shows "let l = sc_loop (sv_conns s k);
      s1 = run_queue accept (sv_base s) (length (sv_queues s (sv_base s))) s;
      s2 = run_queue accept l (length (sv_queues s1 l)) s1 in
    sv_connections s2 (sc_name (sv_conns s2 k)) \<noteq> Some k \<and> Destroyed k \<notin> set (sv_queues s2 l) \<and> \<not> known (sv_pollers s2 l) k"
proof -
  let ?l = "sc_loop (sv_conns s k)" and ?b = "sv_base s"
  let ?s1 = "run_queue accept ?b (length (sv_queues s ?b)) s"
  let ?s2 = "run_queue accept ?l (length (sv_queues ?s1 ?l)) ?s1"
  have r: "srv_reach accept ?s2" by (intro run_queue_reach assms(1))
  have n: "sv_next ?s2 = sv_next s" by (simp add: run_queue_next)
  obtain a where a: "sv_queues ?s1 ?b = a" "set a \<subseteq> {Destroyed j |j. True}"
    using run_queue_queues [of "length (sv_queues s ?b)" s ?b accept ?b] by auto
  have rem1: "RemoveInLoop k \<notin> set (sv_queues ?s1 ?b)" using a by auto
  have "srv_inv ?s1" using srv_reach_inv [OF run_queue_reach [OF assms(1)] assms(2)] assms(3) by (simp add: run_queue_next)
  from remove_home [OF this] have rem: "RemoveInLoop k \<notin> set (sv_queues ?s1 m)" for m using rem1 by (auto simp: run_queue_conn)
  have q2: "\<exists>new. sv_queues ?s2 m = (if m = ?l then [] else sv_queues ?s1 m) @ new \<and> set new \<subseteq> {Destroyed j |j. RemoveInLoop j \<in> set (sv_queues ?s1 ?l)}" for m
    using run_queue_queues [of "length (sv_queues ?s1 ?l)" ?s1 ?l accept m] by auto
  have rem2: "RemoveInLoop k \<notin> set (sv_queues ?s2 ?b)" using q2 [of ?b] rem by (auto split: if_splits)
  have des: "Destroyed k \<notin> set (sv_queues ?s2 ?l)" using q2 [of ?l] rem by auto
  obtain ph where ph: "lives ?s2 k ph" using srv_inv_lives [OF srv_reach_inv [OF r assms(2)]] n assms(3,4) by auto
  obtain us vs where "calls (sc_tcp (sv_conns ?s1 k)) = calls (sc_tcp (sv_conns s k)) @ us"
      "calls (sc_tcp (sv_conns ?s2 k)) = calls (sc_tcp (sv_conns ?s1 k)) @ vs" using run_queue_calls by meson
  then have "CloseCallbackUser \<in> set (calls (sc_tcp (sv_conns ?s2 k)))" using assms(5) by simp
  then have "ph \<in> {Closing, Removed, Gone}" using life_closed [OF ph] by simp
  then have "ph = Gone" using ph rem2 des by (auto simp: lives_def life_queues_def Let_def run_queue_conn count_list_0_iff)
  then show ?thesis using ph des by (simp add: lives_def life_conn_def known_def Let_def run_queue_conn)
qed

text \<open>A server without threads that accepts one connection, whose peer then closes it.\<close>

definition sample_server :: tcp_server where
  "sample_server = sv_start legal_call 0 id (setThreadNum 0 (TcpServer_new ''s'' ((127, 0, 0, 1), 80) 3 0))"

definition sample_accepted :: tcp_server where
  "sample_accepted = Acceptor_handleRead legal_call 7 False sample_server"

definition sample_closed :: tcp_server where
  "sample_closed = conn_handler legal_call 1
     (conn_handleEvent legal_call (\<lambda>_. Inr []) (\<lambda>_. Inr 0) (\<lambda>_ _ _. Inr 0) (\<lambda>_. []) EPOLLIN) sample_accepted"

lemma sample_server_fields:
  "listenning sample_server" "sv_next sample_server = 1" "sv_base sample_server = 0" "sv_listenFd sample_server = 3"
  "loops (sv_pool sample_server) = []" "baseLoop (sv_pool sample_server) = 0"
  by (simp_all add: sample_server_def sv_start_def setThreadNum_def TcpServer_new_def loop_pool_start_def sv_runInLoop_def run_srv_functor_def
      Acceptor_listen_def sv_base_def EventLoopThreadPool_new_def Let_def)

lemma sample_server_reach: "srv_reach legal_call sample_server"
  unfolding sample_server_def by (rule srv_run_step [OF srv_fresh srv_start])

lemma sample_accepted_reach: "srv_reach legal_call sample_accepted"
  unfolding sample_accepted_def
  by (rule srv_run_step [OF sample_server_reach srv_accept]) (simp_all add: sample_server_fields open_fd_def)

lemma lawful_legal: "lawful legal_call"
  by (simp add: lawful_def)

lemma sample_accepted_fields:
  "sv_next sample_accepted = 2" "sc_loop (sv_conns sample_accepted 1) = 0" "sc_fd (sv_conns sample_accepted 1) = 7"
  "conn_state (sc_tcp (sv_conns sample_accepted 1)) = kConnected" "calls (sc_tcp (sv_conns sample_accepted 1)) = [ConnectionCallback]"
  by (simp_all add: sample_accepted_def Acceptor_handleRead_def newConnection_def sample_server_fields getNextLoop_def sv_runInLoop_def
      run_srv_functor_def with_conn_def connectEstablished_def callUser_def TcpConnection_new_def Let_def)

lemma conn_handler_conn: "sc_tcp (sv_conns (conn_handler accept k f s) k) = f (conn_of s k)"
proof -
  have "sv_conns ((removeConnection accept l k ^^ n) t) k = sv_conns t k" for n t l
    by (induction n) (simp_all add: removeConnection_def sv_runInLoop_def run_srv_functor_def removeConnectionInLoop_def sv_queue_def Let_def)
  then show ?thesis by (simp add: conn_handler_def Let_def with_conn_conn)
qed

lemma sample_closed_reach: "srv_reach legal_call sample_closed"
proof -
  have "srv_inv sample_accepted" using srv_reach_inv [OF sample_accepted_reach lawful_legal] by (simp add: sample_accepted_fields)
  from registered_iff_up [OF this, of 1]
  obtain ev where ev: "interest (ctl_log (sv_pollers sample_accepted (sc_loop (sv_conns sample_accepted 1)))) (sc_fd (sv_conns sample_accepted 1)) = Some (ev, 1)"
    using sample_accepted_fields by auto
  show ?thesis
    unfolding sample_closed_def
    by (rule srv_run_step [OF sample_accepted_reach srv_event [OF _ ev]]) (simp_all add: sample_accepted_fields hup_readable_def epoll_bits)
qed

lemma sample_closed_fields:
  "sv_next sample_closed = 2" "CloseCallbackUser \<in> set (calls (sc_tcp (sv_conns sample_closed 1)))"
proof -
  show "sv_next sample_closed = 2" by (simp add: sample_closed_def conn_handler_next sample_accepted_fields)
  let ?c = "conn_of sample_accepted 1"
  have "CloseCallbackUser \<in> set (calls (conn_handleEvent legal_call (\<lambda>_. Inr []) (\<lambda>_. Inr 0) (\<lambda>_ _ _. Inr 0) (\<lambda>_. []) EPOLLIN ?c))"
    by (simp add: conn_handleEvent_def handleEvent_def handleEventWithGuard_def conn_callback_def handleRead_def handleClose_def readFd_def
        callUser_def Let_def epoll_bits)
  then show "CloseCallbackUser \<in> set (calls (sc_tcp (sv_conns sample_closed 1)))" by (simp add: sample_closed_def conn_handler_conn)
qed

theorem server_connection_lifecycle_witness:
  "let sc = sv_conns sample_accepted 1 in
   state_calls (sc_tcp sc) = [ConnectionCallback] \<and> sv_connections sample_accepted (sc_name sc) = Some 1"
  using server_connection_lifecycle [OF sample_accepted_reach lawful_legal, of 1] sample_accepted_fields by (simp add: Let_def)

theorem server_registers_live_connections_witness:
  "\<exists>ev. interest (ctl_log (sv_pollers sample_accepted 0)) 7 = Some (ev, 1) \<and> ev AND kReadEvent \<noteq> 0"
  using server_registers_live_connections [OF sample_accepted_reach lawful_legal, of 1] sample_accepted_fields by (simp add: Let_def)

theorem closed_connection_released_witness:
  "let l = sc_loop (sv_conns sample_closed 1);
      s1 = run_queue legal_call (sv_base sample_closed) (length (sv_queues sample_closed (sv_base sample_closed))) sample_closed;
      s2 = run_queue legal_call l (length (sv_queues s1 l)) s1 in
   CloseCallbackUser \<in> set (calls (sc_tcp (sv_conns sample_closed 1))) \<and>
   sv_connections s2 (sc_name (sv_conns s2 1)) \<noteq> Some 1 \<and> Destroyed 1 \<notin> set (sv_queues s2 l) \<and> \<not> known (sv_pollers s2 l) 1"
  using closed_connection_released [OF sample_closed_reach lawful_legal, of 1] sample_closed_fields by (simp add: Let_def)

end
