(* ===== verification/TcpClientModel.thy ===== *)
theory TcpClientModel
  imports ConnectorModel TcpServerModel
begin

text \<open>
  \<^verbatim>\<open>src/net/TcpClient.cc\<close>: a client that owns a connector (\<^verbatim>\<open>ConnectorModel\<close>) and the connection it established, and reconnects when it is told to.  A connection is named by
  the number of its socket; what the client asks of its connections is recorded in the order of the calls.
\<close>

section \<open>State and operations\<close>

datatype tc_event = TcEstablished nat | TcShutdown nat | TcOwnCloseCallback nat | TcDestroyed nat

record tcp_client =
  tc_name :: string
  tc_retry :: bool
  tc_connect :: bool
  tc_nextConnId :: int
  tc_connection :: "nat option"
  tc_connector :: connector
  tc_queue :: "nat list"
  tc_names :: "(nat \<times> string) list"
  tc_log :: "tc_event list"

definition TcpClient_new :: "string \<Rightarrow> tcp_client" where
  "TcpClient_new nameArg =
     \<lparr>tc_name = nameArg, tc_retry = False, tc_connect = True, tc_nextConnId = 1, tc_connection = None, tc_connector = Connector_new,
      tc_queue = [], tc_names = [], tc_log = []\<rparr>"

definition enableRetry :: "tcp_client \<Rightarrow> tcp_client" where
  "enableRetry c = c\<lparr>tc_retry := True\<rparr>"

definition TcpClient_connect :: "bool \<Rightarrow> nat \<Rightarrow> tcp_client \<Rightarrow> tcp_client" where
  "TcpClient_connect in_loop e c = c\<lparr>tc_connect := True, tc_connector := cn_start in_loop e (tc_connector c)\<rparr>"

definition TcpClient_disconnect :: "tcp_client \<Rightarrow> tcp_client" where
  "TcpClient_disconnect c =
     (let c1 = c\<lparr>tc_connect := False\<rparr>
      in case tc_connection c1 of None \<Rightarrow> c1 | Some k \<Rightarrow> c1\<lparr>tc_log := tc_log c1 @ [TcShutdown k]\<rparr>)"

definition TcpClient_stop :: "tcp_client \<Rightarrow> tcp_client" where
  "TcpClient_stop c = c\<lparr>tc_connect := False, tc_connector := cn_stop (tc_connector c)\<rparr>"

text \<open>\<^verbatim>\<open>snprintf\<close> keeps 31 characters of the suffix of the name.\<close>

definition TcpClient_newConnection :: "inet_address \<Rightarrow> nat \<Rightarrow> tcp_client \<Rightarrow> tcp_client" where
  "TcpClient_newConnection peer k c =
     (let connName = tc_name c @ take 31 ('':'' @ toIpPort peer @ ''#'' @ int_to_string (tc_nextConnId c))
      in c\<lparr>tc_nextConnId := tc_nextConnId c + 1, tc_names := tc_names c @ [(k, connName)], tc_connection := Some k,
           tc_log := tc_log c @ [TcEstablished k]\<rparr>)"

definition TcpClient_removeConnection :: "nat \<Rightarrow> nat \<Rightarrow> tcp_client \<Rightarrow> tcp_client" where
  "TcpClient_removeConnection e k c =
     (let c1 = c\<lparr>tc_connection := None, tc_queue := tc_queue c @ [k]\<rparr>
      in if tc_retry c1 \<and> tc_connect c1 then c1\<lparr>tc_connector := cn_restart e (tc_connector c1)\<rparr> else c1)"

text \<open>The destructor; \<open>unique\<close> says whether the client holds the last reference to its connection.\<close>

definition TcpClient_destroy :: "bool \<Rightarrow> tcp_client \<Rightarrow> tcp_client" where
  "TcpClient_destroy unique c =
     (case tc_connection c of
        Some k \<Rightarrow> c\<lparr>tc_log := tc_log c @ [TcOwnCloseCallback k] @ (if unique then [TcShutdown k] else [])\<rparr>
      | None \<Rightarrow> c\<lparr>tc_connector := cn_stop (tc_connector c)\<rparr>)"

text \<open>The connector hands an established socket to \<^verbatim>\<open>newConnection\<close>.\<close>

definition client_writable :: "int \<Rightarrow> inet_address \<Rightarrow> tcp_client \<Rightarrow> tcp_client option" where
  "client_writable optval peer c =
     (case cn_handleWrite optval (tc_connector c) of
        None \<Rightarrow> None
      | Some cn \<Rightarrow>
          (let c1 = c\<lparr>tc_connector := cn\<rparr>; new = drop (length (cn_handed (tc_connector c))) (cn_handed cn)
           in Some (fold (TcpClient_newConnection peer) new c1)))"

definition run_destroy :: "tcp_client \<Rightarrow> tcp_client" where
  "run_destroy c = (case tc_queue c of [] \<Rightarrow> c | k # ks \<Rightarrow> c\<lparr>tc_queue := ks, tc_log := tc_log c @ [TcDestroyed k]\<rparr>)"

section \<open>Runs\<close>

text \<open>
  What the loop does by itself, with the answers \<open>e\<close> of \<^verbatim>\<open>connect(2)\<close> among those in \<open>errs\<close>.  A timer and the end of a connection are events of a later turn of the
  loop than the one that queued the reset of the connector's channel.
\<close>

inductive client_step :: "(nat \<Rightarrow> bool) \<Rightarrow> tcp_client \<Rightarrow> tcp_client \<Rightarrow> bool" for errs where
  client_functor: "errs e \<Longrightarrow> cn_run_functor e (tc_connector c) = Some cn \<Longrightarrow> client_step errs c (c\<lparr>tc_connector := cn\<rparr>)"
| client_timer: "errs e \<Longrightarrow> cn_timers (tc_connector c) = d # ds \<Longrightarrow> ResetChannel \<notin> set (cn_pending (tc_connector c)) \<Longrightarrow>
    client_step errs c (c\<lparr>tc_connector := cn_startInLoop e ((tc_connector c)\<lparr>cn_timers := ds\<rparr>)\<rparr>)"
| client_write: "cn_channel (tc_connector c) = Some s \<Longrightarrow> s \<in> set (cn_epoll (tc_connector c)) \<Longrightarrow> client_writable v peer c = Some c' \<Longrightarrow> client_step errs c c'"
| client_error: "cn_channel (tc_connector c) = Some s \<Longrightarrow> s \<in> set (cn_epoll (tc_connector c)) \<Longrightarrow> cn_handleError (tc_connector c) = Some cn \<Longrightarrow>
    client_step errs c (c\<lparr>tc_connector := cn\<rparr>)"
| client_closed: "errs e \<Longrightarrow> tc_connection c = Some k \<Longrightarrow> ResetChannel \<notin> set (cn_pending (tc_connector c)) \<Longrightarrow>
    client_step errs c (TcpClient_removeConnection e k c)"
| client_destroys: "client_step errs c (run_destroy c)"

text \<open>A user who may stop the client and disconnect at any time, and connects it when it is idle.\<close>

inductive client_reach :: "tcp_client \<Rightarrow> bool" where
  client_fresh: "client_reach (TcpClient_new nameArg)"
| client_run: "client_reach c \<Longrightarrow> client_step (\<lambda>_. True) c c' \<Longrightarrow> client_reach c'"
| client_retry: "client_reach c \<Longrightarrow> client_reach (enableRetry c)"
| client_connect: "client_reach c \<Longrightarrow> tc_connection c = None \<Longrightarrow> cn_idle (tc_connector c) \<Longrightarrow> client_reach (TcpClient_connect in_loop e c)"
| client_disconnect: "client_reach c \<Longrightarrow> client_reach (TcpClient_disconnect c)"
| client_stop: "client_reach c \<Longrightarrow> client_reach (TcpClient_stop c)"

text \<open>A client with retries that is connected once and left alone; \<^verbatim>\<open>connect(2)\<close> never answers with an error the connector gives up on.\<close>

definition hopeful :: "nat \<Rightarrow> bool" where
  "hopeful e \<longleftrightarrow> in_progress e \<or> retriable e"

inductive client_alone :: "tcp_client \<Rightarrow> bool" where
  alone_connect: "hopeful e \<Longrightarrow> client_alone (TcpClient_connect in_loop e (enableRetry (TcpClient_new nameArg)))"
| alone_step: "client_alone c \<Longrightarrow> client_step hopeful c c' \<Longrightarrow> client_alone c'"

section \<open>What the connector does for its client\<close>

definition cn_settled :: "connector \<Rightarrow> bool" where
  "cn_settled cn \<longleftrightarrow> cn_state cn = CnConnected \<and> attempts cn = 0"

lemma cn_startInLoop_handed: "cn_handed (cn_startInLoop e cn) = cn_handed cn"
  by (simp add: cn_startInLoop_def cn_connect_def cn_ops)

lemma cn_run_functor_handed: "cn_run_functor e cn = Some cn' \<Longrightarrow> cn_handed cn' = cn_handed cn"
  by (cases "cn_pending cn"; cases "hd (cn_pending cn)")
    (auto simp: cn_run_functor_def cn_startInLoop_handed cn_stopInLoop_def cn_ops split: if_splits option.splits)

lemma cn_handleError_handed: "cn_handleError cn = Some cn' \<Longrightarrow> cn_handed cn' = cn_handed cn"
  by (auto simp: cn_handleError_def cn_ops split: if_splits option.splits)

lemma cn_handleWrite_handed:
  assumes "cn_inv cn" and "cn_handleWrite v cn = Some cn'"
  shows "cn_handed cn' = cn_handed cn \<or> (\<exists>s. cn_handed cn' = cn_handed cn @ [s] \<and> cn_settled cn' \<and> cn_state cn = CnConnecting)"
proof (cases "cn_state cn = CnConnecting")
  case True
  then obtain s where s: "cn_channel cn = Some s" using assms(2) by (auto simp: cn_handleWrite_def split: option.splits)
  have "StartInLoop \<notin> set (cn_pending cn)" "cn_timers cn = []" using connecting_socket [OF assms(1) True] by metis+
  then show ?thesis
    using assms(2) True s
    by (auto simp: cn_handleWrite_def cn_ops cn_settled_def attempts_def count_list_0_iff split: if_splits)
next
  case False
  then show ?thesis using assms(2) by (simp add: cn_handleWrite_def)
qed

lemma settled_functor: "cn_settled cn \<Longrightarrow> cn_run_functor e cn = Some cn' \<Longrightarrow> cn_settled cn'"
  by (cases "cn_pending cn"; cases "hd (cn_pending cn)")
    (auto simp: cn_run_functor_def cn_stopInLoop_def resetChannel_def cn_settled_def attempts_def split: if_splits)

lemma settled_stop: "cn_settled cn \<Longrightarrow> cn_settled (cn_stop cn)"
  by (simp add: cn_settled_def attempts_def cn_stop_def)

section \<open>Connections of a client\<close>

definition log_established :: "tc_event list \<Rightarrow> nat list" where
  "log_established es = concat (map (\<lambda>e. case e of TcEstablished k \<Rightarrow> [k] | _ \<Rightarrow> []) es)"

definition log_destroyed :: "tc_event list \<Rightarrow> nat list" where
  "log_destroyed es = concat (map (\<lambda>e. case e of TcDestroyed k \<Rightarrow> [k] | _ \<Rightarrow> []) es)"

lemma log_simps [simp]:
  "log_established [] = []" "log_destroyed [] = []"
  "log_established (es @ es') = log_established es @ log_established es'" "log_destroyed (es @ es') = log_destroyed es @ log_destroyed es'"
  "log_established [TcEstablished k] = [k]" "log_established [TcShutdown k] = []" "log_established [TcDestroyed k] = []"
  "log_destroyed [TcEstablished k] = []" "log_destroyed [TcShutdown k] = []" "log_destroyed [TcDestroyed k] = [k]"
  by (simp_all add: log_established_def log_destroyed_def)

abbreviation current :: "tcp_client \<Rightarrow> nat list" where
  "current c \<equiv> (case tc_connection c of None \<Rightarrow> [] | Some k \<Rightarrow> [k])"

definition client_inv :: "tcp_client \<Rightarrow> bool" where
  "client_inv c \<longleftrightarrow> cn_reach (tc_connector c) \<and> (tc_connection c \<noteq> None \<longrightarrow> cn_settled (tc_connector c)) \<and>
     log_established (tc_log c) = cn_handed (tc_connector c) \<and>
     log_destroyed (tc_log c) @ tc_queue c @ current c = cn_handed (tc_connector c)"

lemma client_step_inv: "client_step errs c c' \<Longrightarrow> client_inv c \<Longrightarrow> client_inv c'"
proof (induction rule: client_step.induct)
  case (client_functor e c cn)
  have "cn_reach cn" using client_functor by (auto simp: client_inv_def intro: cn_run cn_functor)
  then show ?case
    using client_functor settled_functor [of "tc_connector c" e cn] by (simp add: client_inv_def cn_run_functor_handed)
next
  case (client_timer e c d ds)
  have "cn_reach (cn_startInLoop e ((tc_connector c)\<lparr>cn_timers := ds\<rparr>))"
    using client_timer by (auto simp: client_inv_def intro: cn_run cn_timer)
  moreover have "tc_connection c = None" using client_timer by (auto simp: client_inv_def cn_settled_def attempts_def)
  ultimately show ?case using client_timer by (simp add: client_inv_def cn_startInLoop_handed)
next
  case (client_write c s v peer c')
  obtain cn where cn: "cn_handleWrite v (tc_connector c) = Some cn" using client_write(3) by (auto simp: client_writable_def split: option.splits)
  have r: "cn_reach cn" using client_write(1,2,4) cn by (auto simp: client_inv_def intro: cn_run cn_write)
  have i: "cn_inv (tc_connector c)" using client_write(4) by (simp add: client_inv_def cn_reach_inv)
  show ?case
  proof (cases "cn_state (tc_connector c) = CnConnecting")
    case True
    then have none: "tc_connection c = None" using client_write(4) by (auto simp: client_inv_def cn_settled_def)
    from cn_handleWrite_handed [OF i cn] show ?thesis
      using client_write(3,4) cn none r by (auto simp: client_inv_def client_writable_def TcpClient_newConnection_def Let_def)
  next
    case False
    then have "cn = tc_connector c" using cn by (simp add: cn_handleWrite_def)
    then show ?thesis using client_write(3,4) cn by (simp add: client_writable_def)
  qed
next
  case (client_error c s cn)
  have "cn_reach cn" using client_error by (auto simp: client_inv_def intro: cn_run cn_error)
  moreover have "cn_settled (tc_connector c) \<longrightarrow> cn = tc_connector c" using client_error(3) by (auto simp: cn_settled_def cn_handleError_def)
  ultimately show ?case using client_error by (auto simp: client_inv_def cn_handleError_handed)
next
  case (client_closed e c k)
  have "cn_reach (tc_connector c)" "cn_idle (tc_connector c)" using client_closed by (auto simp: client_inv_def cn_settled_def cn_idle_def)
  then have "cn_reach (cn_restart e (tc_connector c))" by (rule cn_again)
  then show ?case
    using client_closed by (auto simp: client_inv_def TcpClient_removeConnection_def cn_restart_def cn_startInLoop_handed Let_def)
next
  case (client_destroys c)
  then show ?case by (auto simp: client_inv_def run_destroy_def split: list.splits)
qed

lemma client_reach_inv: "client_reach c \<Longrightarrow> client_inv c"
proof (induction rule: client_reach.induct)
  case (client_fresh nameArg)
  show ?case by (simp add: client_inv_def TcpClient_new_def cn_fresh) (simp add: Connector_new_def)
next
  case (client_connect c in_loop e)
  then have "cn_reach (cn_start in_loop e (tc_connector c))" by (auto simp: client_inv_def intro: cn_begin)
  then show ?case using client_connect by (simp add: client_inv_def TcpClient_connect_def cn_start_def cn_startInLoop_handed Let_def)
next
  case (client_disconnect c)
  then show ?case by (auto simp: client_inv_def TcpClient_disconnect_def Let_def split: option.splits)
next
  case (client_stop c)
  then have "cn_reach (cn_stop (tc_connector c))" by (auto simp: client_inv_def intro: cn_run cn_user_stop)
  then show ?case using client_stop settled_stop by (auto simp: client_inv_def TcpClient_stop_def cn_stop_def cn_settled_def attempts_def)
next
  case (client_retry c)
  then show ?case by (simp add: client_inv_def enableRetry_def)
qed (rule client_step_inv)

section \<open>A client that is left alone\<close>

definition eager :: "connector \<Rightarrow> bool" where
  "eager cn \<longleftrightarrow> want_connect cn \<and> StopInLoop \<notin> set (cn_pending cn)"

lemma startInLoop_hopeful:
  assumes "eager cn" and "attempts cn = 0" and "hopeful e"
  shows "eager (cn_startInLoop e cn) \<and> attempts (cn_startInLoop e cn) = 1"
  using assms
  by (auto simp: eager_def hopeful_def attempts_def cn_startInLoop_def cn_connect_def cn_ops)

lemma retry_eager:
  assumes "eager cn" and "cn_inv cn" and "cn_state cn = CnConnecting"
  shows "eager (cn_retry s (removeAndResetChannel s cn)) \<and> attempts (cn_retry s (removeAndResetChannel s cn)) = 1"
proof -
  have "StartInLoop \<notin> set (cn_pending cn)" "cn_timers cn = []" using connecting_socket [OF assms(2,3)] by metis+
  then show ?thesis using assms(1) by (simp add: eager_def attempts_def cn_ops count_list_0_iff)
qed

definition alone_inv :: "tcp_client \<Rightarrow> bool" where
  "alone_inv c \<longleftrightarrow> tc_retry c \<and> tc_connect c \<and> eager (tc_connector c) \<and> (tc_connection c \<noteq> None \<or> attempts (tc_connector c) = 1)"

lemma functor_eager:
  assumes "eager cn" and "cn_run_functor e cn = Some cn'" and "hopeful e" and "attempts cn \<le> 1"
  shows "eager cn'" and "attempts cn = 1 \<Longrightarrow> attempts cn' = 1"
proof -
  have "eager cn' \<and> (attempts cn = 1 \<longrightarrow> attempts cn' = 1)"
  proof (cases "cn_pending cn")
    case Nil
    then show ?thesis using assms by (simp add: cn_run_functor_def)
  next
    case (Cons f fs)
    let ?cn = "cn\<lparr>cn_pending := fs\<rparr>"
    show ?thesis
    proof (cases f)
      case StartInLoop
      have "eager ?cn" "attempts ?cn = 0" using assms(1,4) Cons StartInLoop by (simp_all add: eager_def attempts_def)
      then show ?thesis using startInLoop_hopeful [OF _ _ assms(3)] assms(2) Cons StartInLoop by (auto simp: cn_run_functor_def)
    next
      case StopInLoop
      then show ?thesis using assms(1) Cons by (simp add: eager_def)
    next
      case ResetChannel
      then show ?thesis using assms(1,2) Cons by (auto simp: cn_run_functor_def resetChannel_def eager_def attempts_def)
    qed
  qed
  then show "eager cn'" and "attempts cn = 1 \<Longrightarrow> attempts cn' = 1" by simp_all
qed

lemma alone_step_inv: "client_step hopeful c c' \<Longrightarrow> client_inv c \<Longrightarrow> alone_inv c \<Longrightarrow> alone_inv c'"
proof (induction rule: client_step.induct)
  case (client_functor e c cn)
  have "attempts (tc_connector c) \<le> 1" using client_functor(3) cn_reach_inv by (auto simp: client_inv_def cn_inv_def)
  from functor_eager [OF _ client_functor(2,1) this] show ?case using client_functor(4) by (auto simp: alone_inv_def)
next
  case (client_timer e c d ds)
  let ?cn = "(tc_connector c)\<lparr>cn_timers := ds\<rparr>"
  have "attempts (tc_connector c) \<le> 1" using client_timer(4) cn_reach_inv by (auto simp: client_inv_def cn_inv_def)
  then have "attempts ?cn = 0" "eager ?cn" using client_timer(2,5) by (auto simp: attempts_def alone_inv_def eager_def)
  then show ?case using startInLoop_hopeful [OF _ _ client_timer(1)] client_timer(5) by (simp add: alone_inv_def)
next
  case (client_write c s v peer c')
  obtain cn where cn: "cn_handleWrite v (tc_connector c) = Some cn" using client_write(3) by (auto simp: client_writable_def split: option.splits)
  have i: "cn_inv (tc_connector c)" using client_write(4) by (simp add: client_inv_def cn_reach_inv)
  show ?case
  proof (cases "cn_state (tc_connector c) = CnConnecting")
    case True
    have e: "eager (tc_connector c)" using client_write(5) by (simp add: alone_inv_def)
    show ?thesis
    proof (cases "v = 0")
      case v: True
      then show ?thesis
        using cn True client_write(1,3,5) e
        by (auto simp: cn_handleWrite_def client_writable_def TcpClient_newConnection_def alone_inv_def eager_def cn_ops split: if_splits)
    next
      case False
      then have r: "cn = cn_retry s (removeAndResetChannel s (tc_connector c))"
        using cn True client_write(1) by (auto simp: cn_handleWrite_def Let_def)
      have "cn_handed cn = cn_handed (tc_connector c)" by (simp add: r cn_ops)
      then have "c' = c\<lparr>tc_connector := cn\<rparr>" using cn client_write(3) by (simp add: client_writable_def)
      then show ?thesis using retry_eager [OF e i True, of s] client_write(5) by (simp add: alone_inv_def r)
    qed
  next
    case False
    then have "cn = tc_connector c" using cn by (simp add: cn_handleWrite_def)
    then show ?thesis using client_write(3,5) cn by (simp add: client_writable_def)
  qed
next
  case (client_error c s cn)
  have i: "cn_inv (tc_connector c)" "eager (tc_connector c)" using client_error(4,5) by (simp_all add: client_inv_def cn_reach_inv alone_inv_def)
  show ?case
    using client_error(1,3,5) retry_eager [OF i(2,1), of s]
    by (cases "cn_state (tc_connector c) = CnConnecting") (auto simp: cn_handleError_def alone_inv_def)
next
  case (client_closed e c k)
  let ?cn = "(tc_connector c)\<lparr>cn_state := CnDisconnected, retryDelayMs := kInitRetryDelayMs, want_connect := True\<rparr>"
  have "attempts ?cn = 0" "eager ?cn" using client_closed(2,4,5) by (auto simp: client_inv_def cn_settled_def attempts_def alone_inv_def eager_def)
  then show ?case
    using startInLoop_hopeful [OF _ _ client_closed(1)] client_closed(5)
    by (simp add: alone_inv_def TcpClient_removeConnection_def cn_restart_def Let_def)
next
  case (client_destroys c)
  then show ?case by (auto simp: alone_inv_def run_destroy_def split: list.splits)
qed

lemma client_step_mono: "client_step errs c c' \<Longrightarrow> client_step (\<lambda>_. True) c c'"
  by (induction rule: client_step.induct) (auto intro: client_step.intros)

lemma client_alone_reach: "client_alone c \<Longrightarrow> client_reach c"
proof (induction rule: client_alone.induct)
  case (alone_connect e in_loop nameArg)
  show ?case
    by (intro client_connect client_retry client_fresh)
      (simp_all add: enableRetry_def TcpClient_new_def Connector_new_def cn_idle_def attempts_def)
next
  case (alone_step c c')
  then show ?case using client_run client_step_mono by blast
qed

lemma client_alone_inv: "client_alone c \<Longrightarrow> alone_inv c"
proof (induction rule: client_alone.induct)
  case (alone_connect e in_loop nameArg)
  have "eager (Connector_new\<lparr>want_connect := True\<rparr>)" "attempts (Connector_new\<lparr>want_connect := True\<rparr>) = 0"
    by (simp_all add: eager_def attempts_def Connector_new_def)
  from startInLoop_hopeful [OF this alone_connect] show ?case
    by (auto simp: alone_inv_def TcpClient_connect_def enableRetry_def TcpClient_new_def cn_start_def eager_def attempts_def Connector_new_def Let_def)
next
  case (alone_step c c')
  then show ?case using alone_step_inv client_reach_inv client_alone_reach by blast
qed

section \<open>Properties\<close>

text \<open>
  One connection at a time.  Under every interleaving with \<^verbatim>\<open>stop\<close>, \<^verbatim>\<open>disconnect\<close> and reconnection, a client that is connected only when idle establishes exactly the sockets its
  connector hands over, in that order and once each, and destroys them in the same order once each; what is established and not yet on its way to destruction is the
  current connection, and while there is one the connector makes no other attempt.
\<close>

theorem client_connections_in_order:
  assumes "client_reach c"
  shows "log_established (tc_log c) = cn_handed (tc_connector c) \<and> distinct (cn_handed (tc_connector c)) \<and>
    log_destroyed (tc_log c) @ tc_queue c @ (case tc_connection c of None \<Rightarrow> [] | Some k \<Rightarrow> [k]) = cn_handed (tc_connector c) \<and>
    (tc_connection c \<noteq> None \<longrightarrow> attempts (tc_connector c) = 0)"
proof -
  have inv: "client_inv c" by (rule client_reach_inv [OF assms])
  then have "cn_inv (tc_connector c)" by (simp add: client_inv_def cn_reach_inv)
  then have "distinct (cn_handed (tc_connector c))" by (simp add: cn_inv_def cn_socks_def)
  then show ?thesis using inv by (simp add: client_inv_def cn_settled_def)
qed

definition sample_client :: tcp_client where
  "sample_client = TcpClient_connect True 115 (enableRetry (TcpClient_new ''c''))"

lemma sample_client_alone: "client_alone sample_client"
  unfolding sample_client_def by (rule alone_connect) (simp add: hopeful_def in_progress_def)

lemma sample_client_connector:
  "tc_connector sample_client = \<lparr>want_connect = True, cn_state = CnConnecting, cn_channel = Some 0, retryDelayMs = 500, cn_pending = [],
     cn_timers = [], cn_epoll = [0], next_sock = 1, cn_closed = [], cn_handed = []\<rparr>"
  by (simp add: sample_client_def TcpClient_connect_def enableRetry_def TcpClient_new_def cn_start_def cn_startInLoop_def cn_connect_def
      in_progress_def cn_ops Connector_new_def kInitRetryDelayMs_def)

lemma sample_client_connected: "\<exists>c. client_reach c \<and> tc_connection c = Some 0 \<and> cn_handed (tc_connector c) = [0]"
proof -
  obtain c where c: "client_writable 0 ((127, 0, 0, 1), 80) sample_client = Some c" "tc_connection c = Some 0" "cn_handed (tc_connector c) = [0]"
    by (simp add: client_writable_def sample_client_connector cn_handleWrite_def cn_ops TcpClient_newConnection_def)
  have "client_step (\<lambda>_. True) sample_client c" by (rule client_write [OF _ _ c(1)]) (simp_all add: sample_client_connector)
  then have "client_reach c" by (rule client_run [OF client_alone_reach [OF sample_client_alone]])
  then show ?thesis using c by blast
qed

theorem client_connections_in_order_witness:
  "\<exists>c :: tcp_client. tc_connection c = Some 0 \<and> log_established (tc_log c) = [0] \<and> log_destroyed (tc_log c) @ tc_queue c = [] \<and> attempts (tc_connector c) = 0"
proof -
  obtain c where c: "client_reach c" "tc_connection c = Some 0" "cn_handed (tc_connector c) = [0]" using sample_client_connected by blast
  show ?thesis by (rule exI [of _ c]) (use client_connections_in_order [OF c(1)] c(2,3) in \<open>auto simp: append_eq_Cons_conv\<close>)
qed



text \<open>
  A stop that is still queued kills the connection attempt that follows it: \<^verbatim>\<open>stop\<close> and then \<^verbatim>\<open>connect\<close> in the loop thread, from a client in any state
  of rest, end with the new socket closed and no attempt under way, although both the client and the connector want to be connected.
\<close>

theorem stop_connect_gives_up:
  assumes "in_progress e" and "cn_pending (tc_connector c) = []" and "cn_idle (tc_connector c)"
  shows "\<exists>cn. cn_run_functor e' (tc_connector (TcpClient_connect True e (TcpClient_stop c))) = Some cn \<and>
    want_connect cn \<and> tc_connect (TcpClient_connect True e (TcpClient_stop c)) \<and> cn_state cn = CnDisconnected \<and> attempts cn = 0 \<and>
    cn_closed cn = cn_closed (tc_connector c) @ [next_sock (tc_connector c)]"
  using assms
  by (simp add: cn_run_functor_def TcpClient_connect_def TcpClient_stop_def cn_start_def cn_stop_def cn_startInLoop_def cn_connect_def cn_stopInLoop_def
      cn_ops cn_idle_def attempts_def)

theorem stop_connect_gives_up_witness:
  "\<exists>cn. cn_run_functor 0 (tc_connector (TcpClient_connect True 115 (TcpClient_stop (TcpClient_new ''c'')))) = Some cn \<and>
    want_connect cn \<and> cn_state cn = CnDisconnected \<and> attempts cn = 0 \<and> cn_closed cn = [0]"
proof -
  have "in_progress 115" "cn_pending (tc_connector (TcpClient_new ''c'')) = []" "cn_idle (tc_connector (TcpClient_new ''c''))"
    "cn_closed (tc_connector (TcpClient_new ''c'')) = []" "next_sock (tc_connector (TcpClient_new ''c'')) = 0"
    by (simp_all add: in_progress_def TcpClient_new_def Connector_new_def cn_idle_def attempts_def)
  then show ?thesis using stop_connect_gives_up [of 115 "TcpClient_new ''c''" 0] by auto
qed

end
