(* ===== verification/MultipartModel.thy ===== *)
theory MultipartModel
  imports CppString
begin

text \<open>
  \<^verbatim>\<open>src/http/MultipartParser.h\<close>: the parser of \<^verbatim>\<open>multipart/form-data\<close> bodies.  The loop over the parts is a partial function, so that its termination is a theorem; a
  body printed from parts is read back as these parts.
\<close>

section \<open>The parser\<close>

record multipart_part =
  mp_name :: string
  mp_filename :: string
  mp_contentType :: string
  mp_data :: string

definition isFile :: "multipart_part \<Rightarrow> bool" where
  "isFile p \<longleftrightarrow> mp_filename p \<noteq> []"

abbreviation empty_part :: multipart_part where
  "empty_part \<equiv> \<lparr>mp_name = [], mp_filename = [], mp_contentType = [], mp_data = []\<rparr>"

abbreviation DQ :: char where
  "DQ \<equiv> CHR 0x22"

definition extractHeaderParam :: "string \<Rightarrow> string \<Rightarrow> string" where
  "extractHeaderParam line param =
     (let key = param @ ''='' @ [DQ] in
      case index_sub key line of
        None \<Rightarrow> []
      | Some p \<Rightarrow>
          (let pos = p + length key in
           case find_char DQ line pos of None \<Rightarrow> [] | Some e \<Rightarrow> substr line pos (e - pos)))"

text \<open>One header line; leading blanks of a content type are dropped, and one of blanks only is ignored.\<close>

definition part_header :: "string \<Rightarrow> multipart_part \<Rightarrow> multipart_part" where
  "part_header line part =
     (if contains ''Content-Disposition:'' line
      then part\<lparr>mp_name := extractHeaderParam line ''name'', mp_filename := extractHeaderParam line ''filename''\<rparr>
      else if contains ''Content-Type:'' line
      then case index_of (CHR '':'') line of
             None \<Rightarrow> part
           | Some colonPos \<Rightarrow>
               (let value = dropWhile (\<lambda>c. c = SP) (substr_from line (colonPos + 1))
                in if value \<noteq> [] then part\<lparr>mp_contentType := value\<rparr> else part)
      else part)"

definition parsePart :: "string \<Rightarrow> multipart_part" where
  "parsePart partContent =
     (case index_sub [CR, LF, CR, LF] partContent of
        None \<Rightarrow> empty_part
      | Some headerEnd \<Rightarrow>
          (let headers = substr partContent 0 headerEnd;
               data0 = substr_from partContent (headerEnd + 4);
               data = (if length data0 \<ge> 2 \<and> substr_from data0 (length data0 - 2) = CRLF then substr data0 0 (length data0 - 2) else data0)
           in lines_loop part_header headers 0 (empty_part\<lparr>mp_data := data\<rparr>)))"

partial_function (option) multipart_loop :: "string \<Rightarrow> string \<Rightarrow> nat \<Rightarrow> multipart_part list \<Rightarrow> multipart_part list option" where
  "multipart_loop body delimiter pos parts =
     (if pos < length body
      then case find_str delimiter body pos of
             None \<Rightarrow> Some parts
           | Some nextDelim \<Rightarrow>
               (let part = parsePart (substr body pos (nextDelim - pos));
                    parts1 = (if mp_name part \<noteq> [] then parts @ [part] else parts);
                    pos1 = nextDelim + length delimiter in
                if pos1 + 2 \<le> length body \<and> substr body pos1 2 = ''--'' then Some parts1
                else multipart_loop body delimiter (if pos1 + 2 \<le> length body \<and> substr body pos1 2 = CRLF then pos1 + 2 else pos1) parts1)
      else Some parts)"

definition multipart_parse :: "string \<Rightarrow> string \<Rightarrow> multipart_part list option" where
  "multipart_parse body boundary =
     (if body = [] \<or> boundary = [] then Some []
      else
        (let delimiter = ''--'' @ boundary in
         case index_sub delimiter body of
           None \<Rightarrow> Some []
         | Some p \<Rightarrow>
             (case find_str CRLF body p of
                None \<Rightarrow> Some []
              | Some q \<Rightarrow> multipart_loop body delimiter (q + 2) [])))"

definition extractBoundary :: "string \<Rightarrow> string" where
  "extractBoundary contentType =
     (let key = ''boundary='' in
      case index_sub key contentType of
        None \<Rightarrow> []
      | Some p \<Rightarrow>
          (let pos = p + length key in
           if pos < length contentType \<and> contentType ! pos = DQ
           then case find_char DQ contentType (pos + 1) of
                  None \<Rightarrow> substr_from contentType (pos + 1)
                | Some e \<Rightarrow> substr contentType (pos + 1) (e - (pos + 1))
           else takeWhile (\<lambda>c. c \<noteq> SP \<and> c \<noteq> CHR '';'' \<and> c \<noteq> CR \<and> c \<noteq> LF) (substr_from contentType pos)))"

section \<open>Termination\<close>

lemma multipart_loop_returns:
  assumes "delimiter \<noteq> []"
  shows "\<exists>new. multipart_loop body delimiter pos parts = Some (parts @ new) \<and> length new * length delimiter \<le> length body - pos"
proof (induction "length body - pos" arbitrary: pos parts rule: less_induct)
  case less
  show ?case
  proof (cases "pos < length body")
    case True
    show ?thesis
    proof (cases "find_str delimiter body pos")
      case (Some d)
      define part where "part = parsePart (substr body pos (d - pos))"
      define add where "add = (if mp_name part \<noteq> [] then [part] else [])"
      define pos1 where "pos1 = d + length delimiter"
      define pos2 where "pos2 = (if pos1 + 2 \<le> length body \<and> substr body pos1 2 = CRLF then pos1 + 2 else pos1)"
      have d: "pos \<le> d" "pos1 \<le> length body" using find_str_bound [OF Some] by (simp_all add: pos1_def)
      have p2: "pos1 \<le> pos2" by (simp add: pos2_def)
      have a: "length add \<le> 1" by (simp add: add_def)
      have step: "multipart_loop body delimiter pos parts =
          (if pos1 + 2 \<le> length body \<and> substr body pos1 2 = ''--'' then Some (parts @ add) else multipart_loop body delimiter pos2 (parts @ add))"
        using True Some by (subst multipart_loop.simps) (auto simp: part_def add_def pos1_def pos2_def Let_def)
      have len: "length add * length delimiter \<le> pos1 - pos" using a d(1) by (cases add) (simp_all add: pos1_def)
      have "length body - pos2 < length body - pos" using True assms d p2 by (cases delimiter) (auto simp: pos1_def)
      from less [OF this, of "parts @ add"] obtain new where new: "multipart_loop body delimiter pos2 (parts @ add) = Some ((parts @ add) @ new)"
          "length new * length delimiter \<le> length body - pos2" by blast
      have "length (add @ new) * length delimiter \<le> length body - pos" using len new(2) d p2 by (simp add: distrib_right pos1_def)
      moreover have "length add * length delimiter \<le> length body - pos" using len d by (simp add: pos1_def)
      ultimately show ?thesis
        using new(1) by (cases "pos1 + 2 \<le> length body \<and> substr body pos1 2 = ''--''") (auto simp: step)
    qed (use True in \<open>subst multipart_loop.simps, simp\<close>)
  qed (subst multipart_loop.simps, simp)
qed

section \<open>Printing\<close>

text \<open>A part and a body as a browser sends them.\<close>

definition disposition_line :: "multipart_part \<Rightarrow> string" where
  "disposition_line p = ''Content-Disposition: form-data; name='' @ [DQ] @ mp_name p @ [DQ] @
     (if isFile p then ''; filename='' @ [DQ] @ mp_filename p @ [DQ] else [])"

definition part_lines :: "multipart_part \<Rightarrow> string list" where
  "part_lines p = disposition_line p # (if mp_contentType p = [] then [] else [''Content-Type: '' @ mp_contentType p])"

definition print_part :: "multipart_part \<Rightarrow> string" where
  "print_part p = join_lines (part_lines p) @ [CR, LF, CR, LF] @ mp_data p @ CRLF"

fun print_rest :: "string \<Rightarrow> multipart_part list \<Rightarrow> string" where
  "print_rest delimiter [] = ''--'' @ CRLF"
| "print_rest delimiter (p # ps) = CRLF @ print_part p @ delimiter @ print_rest delimiter ps"

definition print_multipart :: "string \<Rightarrow> multipart_part list \<Rightarrow> string" where
  "print_multipart boundary ps = (let delimiter = ''--'' @ boundary in delimiter @ print_rest delimiter ps)"

text \<open>What a name, a file name and a content type may contain, and that the delimiter does not occur in a part.\<close>

definition part_ok :: "string \<Rightarrow> multipart_part \<Rightarrow> bool" where
  "part_ok boundary p \<longleftrightarrow> mp_name p \<noteq> [] \<and> DQ \<notin> set (mp_name p) \<and> CR \<notin> set (mp_name p) \<and> CHR ''='' \<notin> set (mp_name p) \<and>
     DQ \<notin> set (mp_filename p) \<and> CR \<notin> set (mp_filename p) \<and>
     CR \<notin> set (mp_contentType p) \<and> CHR '':'' \<notin> set (mp_contentType p) \<and> (mp_contentType p \<noteq> [] \<longrightarrow> hd (mp_contentType p) \<noteq> SP) \<and>
     \<not> contains (''--'' @ boundary) (print_part p)"

definition boundary_ok :: "string \<Rightarrow> bool" where
  "boundary_ok b \<longleftrightarrow> b \<noteq> [] \<and> set b \<inter> {CR, LF, SP, CHR '';'', DQ} = {}"

section \<open>Reading back\<close>

text \<open>A parameter of a header line is found behind a prefix that does not contain its key.\<close>

lemma extractHeaderParam_found:
  assumes "index_sub (param @ ''='' @ [DQ]) line = Some i" and "drop (i + length param + 2) line = v @ DQ # r" and "DQ \<notin> set v"
  shows "extractHeaderParam line param = v"
proof -
  let ?pos = "i + length param + 2"
  have "?pos \<le> length line" using index_sub_bound [OF assms(1)] by simp
  then have "find_char DQ line ?pos = Some (?pos + length v)" using assms(2,3) by (simp add: find_char_def)
  then show ?thesis using assms by (simp add: extractHeaderParam_def Let_def substr_def add.assoc)
qed

lemma index_sub_name:
  "index_sub (''name='' @ [DQ]) (''Content-Disposition: form-data; name='' @ [DQ] @ r) = Some 32"
  by simp

lemma not_across:
  assumes "e \<notin> set v" and "x \<notin> set a" and "x \<noteq> e"
  shows "\<not> starts_with (a @ e # q) (v @ x # r)"
proof
  assume "starts_with (a @ e # q) (v @ x # r)"
  then obtain t where "v @ (x # r) = a @ (e # q @ t)" by (auto simp: starts_with_iff_append)
  then show False using assms by (auto simp: append_eq_append_conv2 Cons_eq_append_conv append_eq_Cons_conv)
qed

lemma index_sub_across:
  assumes "x \<notin> set a" and "x \<noteq> e"
  shows "e \<notin> set v \<Longrightarrow> index_sub (a @ e # q) (v @ x # r) = map_option ((+) (Suc (length v))) (index_sub (a @ e # q) r)"
proof (induction v)
  case Nil
  have "\<not> starts_with (a @ e # q) (x # r)" using not_across [OF _ assms, of "[]"] by simp
  then show ?case by simp
next
  case (Cons y v)
  have "\<not> starts_with (a @ e # q) (y # v @ x # r)" using not_across [OF Cons.prems assms] by simp
  then show ?case using Cons by (simp add: option.map_comp o_def)
qed

text \<open>A delimiter that does not occur in a text ended by a line feed is found behind it.\<close>

lemma index_sub_terminated:
  assumes "p \<noteq> []" and "x \<notin> set p"
  shows "index_sub p (a @ [x]) = None \<Longrightarrow> index_sub p (a @ [x] @ p @ r) = Some (Suc (length a))"
proof (induction a)
  case Nil
  have "\<not> starts_with p (x # p @ r)" using assms by (cases p) auto
  then show ?case by simp
next
  case (Cons y a)
  have "\<not> starts_with p ((y # a @ [x]) @ p @ r)"
  proof
    assume "starts_with p ((y # a @ [x]) @ p @ r)"
    then obtain t where "(y # a @ [x]) @ (p @ r) = p @ t" unfolding starts_with_iff_append by blast
    then obtain us where "y # a @ [x] = p @ us \<or> (y # a @ [x]) @ us = p" unfolding append_eq_append_conv2 by blast
    then show False
    proof
      assume "y # a @ [x] = p @ us"
      then have "starts_with p (y # a @ [x])" by (simp add: starts_with_iff_append)
      then show False using Cons.prems by simp
    next
      assume "(y # a @ [x]) @ us = p"
      then show False using assms(2) by auto
    qed
  qed
  moreover have "index_sub p (a @ [x]) = None" using Cons.prems by (auto split: if_splits)
  ultimately show ?case using Cons.IH by simp
qed

section \<open>One part\<close>

lemma disposition_params:
  assumes "part_ok b p"
  shows "extractHeaderParam (disposition_line p) ''name'' = mp_name p" and "extractHeaderParam (disposition_line p) ''filename'' = mp_filename p"
proof -
  let ?pre = "''Content-Disposition: form-data; name=''" and ?f = "if isFile p then ''; filename='' @ [DQ] @ mp_filename p @ [DQ] else []"
  have l: "disposition_line p = ?pre @ [DQ] @ mp_name p @ [DQ] @ ?f" by (simp add: disposition_line_def)
  have ok: "DQ \<notin> set (mp_name p)" "CHR ''='' \<notin> set (mp_name p)" "DQ \<notin> set (mp_filename p)" using assms by (simp_all add: part_ok_def)
  show "extractHeaderParam (disposition_line p) ''name'' = mp_name p"
    by (rule extractHeaderParam_found [where i = 32 and r = ?f]) (use ok(1) in \<open>simp_all add: disposition_line_def\<close>)
  have key: "index_sub (''filename'' @ CHR ''='' # [DQ]) (mp_name p @ DQ # ?f) =
      map_option ((+) (Suc (length (mp_name p)))) (index_sub (''filename'' @ CHR ''='' # [DQ]) ?f)"
    by (rule index_sub_across) (use ok(2) in auto)
  have pre: "index_sub (''filename'' @ CHR ''='' # [DQ]) (?pre @ [DQ] @ z) = map_option ((+) 38) (index_sub (''filename'' @ CHR ''='' # [DQ]) z)" for z
    by (cases "index_sub (''filename'' @ CHR ''='' # [DQ]) z") simp_all
  show "extractHeaderParam (disposition_line p) ''filename'' = mp_filename p"
  proof (cases "isFile p")
    case True
    let ?i = "38 + (Suc (length (mp_name p)) + 2)"
    have "index_sub (''filename'' @ ''='' @ [DQ]) (disposition_line p) = Some ?i"
      unfolding l using pre [of "mp_name p @ DQ # ?f"] key True by simp
    moreover have "drop (?i + length ''filename'' + 2) (disposition_line p) = mp_filename p @ DQ # []"
    proof -
      let ?a = "?pre @ [DQ] @ mp_name p @ [DQ] @ ''; filename='' @ [DQ]"
      have "disposition_line p = ?a @ mp_filename p @ [DQ]" "length ?a = ?i + length ''filename'' + 2"
        using True by (simp_all add: disposition_line_def)
      then show ?thesis by (metis append_eq_conv_conj)
    qed
    ultimately show ?thesis using ok(3) by (rule extractHeaderParam_found)
  next
    case False
    then have "index_sub (''filename'' @ ''='' @ [DQ]) (disposition_line p) = None"
      unfolding l using pre [of "mp_name p @ DQ # ?f"] key by simp
    then show ?thesis using False by (simp add: extractHeaderParam_def isFile_def)
  qed
qed

lemma index_sub_missing: "c \<in> set p \<Longrightarrow> c \<notin> set s \<Longrightarrow> index_sub p s = None"
proof (induction s)
  case (Cons x s)
  have "\<not> starts_with p (x # s)"
  proof
    assume "starts_with p (x # s)"
    then obtain t where "x # s = p @ t" unfolding starts_with_iff_append ..
    then have "set p \<subseteq> set (x # s)" by (metis Un_upper1 set_append)
    then show False using Cons.prems by blast
  qed
  then show ?case using Cons by simp
qed auto

lemma part_lines_ok: "part_ok b p \<Longrightarrow> list_all line_ok (part_lines p)"
  by (auto simp: part_lines_def part_ok_def line_ok_def disposition_line_def)

lemma part_headers:
  assumes "part_ok b p"
  shows "fold part_header (part_lines p) (empty_part\<lparr>mp_data := d\<rparr>) = p\<lparr>mp_data := d\<rparr>"
proof -
  have "contains ''Content-Disposition:'' (disposition_line p)" by (simp add: contains_def disposition_line_def)
  then have disp: "part_header (disposition_line p) (empty_part\<lparr>mp_data := d\<rparr>) =
      \<lparr>mp_name = mp_name p, mp_filename = mp_filename p, mp_contentType = [], mp_data = d\<rparr>"
    using disposition_params [OF assms] by (simp add: part_header_def)
  define l where "l = ''Content-Type: '' @ mp_contentType p"
  have ct: "CHR '':'' \<notin> set (mp_contentType p)" "mp_contentType p \<noteq> [] \<longrightarrow> hd (mp_contentType p) \<noteq> SP" using assms by (simp_all add: part_ok_def)
  have "index_sub ''Content-Disposition:'' (mp_contentType p) = None" by (rule index_sub_missing [OF _ ct(1)]) simp
  then have "\<not> contains ''Content-Disposition:'' l" "contains ''Content-Type:'' l" by (simp_all add: contains_def l_def)
  moreover have "index_of (CHR '':'') l = Some 12" by (simp add: l_def)
  moreover have "dropWhile (\<lambda>c. c = SP) (substr_from l (12 + 1)) = mp_contentType p" if "mp_contentType p \<noteq> []"
    using that ct(2) by (cases "mp_contentType p") (simp_all add: substr_from_def l_def)
  ultimately have "part_header l q = q\<lparr>mp_contentType := mp_contentType p\<rparr>" if "mp_contentType p \<noteq> []" for q
    using that unfolding part_header_def Let_def by (simp only: if_False if_True option.case) simp
  then show ?thesis using disp by (cases p) (simp add: part_lines_def l_def)
qed

lemma parsePart_print:
  assumes "part_ok b p"
  shows "parsePart (print_part p) = p"
proof -
  let ?h = "join_lines (part_lines p)"
  have ls: "part_lines p \<noteq> []" "list_all line_ok (part_lines p)" using part_lines_ok [OF assms] by (simp_all add: part_lines_def)
  have i: "index_sub [CR, LF, CR, LF] (print_part p) = Some (length ?h)"
    unfolding print_part_def using blank_line_found [OF ls, of "mp_data p @ CRLF"] by simp
  have d: "substr_from (print_part p) (length ?h + 4) = mp_data p @ CRLF" by (simp add: substr_from_def print_part_def)
  have h: "substr (print_part p) 0 (length ?h) = ?h" by (simp add: substr_def print_part_def)
  have "parsePart (print_part p) = lines_loop part_header ?h 0 (empty_part\<lparr>mp_data := mp_data p\<rparr>)"
    unfolding parsePart_def i option.case Let_def h d by (simp add: substr_from_def substr_def)
  also have "\<dots> = p" unfolding lines_loop_join [OF ls(2)] part_headers [OF assms] by simp
  finally show ?thesis .
qed

section \<open>The whole body\<close>

lemma print_part_ends: "\<exists>a. print_part p = a @ [LF]"
  by (simp add: print_part_def)

lemma delimiter_found:
  assumes "part_ok b p" and "boundary_ok b"
  shows "index_sub (''--'' @ b) (print_part p @ (''--'' @ b) @ r) = Some (length (print_part p))"
proof -
  obtain a where a: "print_part p = a @ [LF]" using print_part_ends by blast
  have "index_sub (''--'' @ b) (a @ [LF]) = None" using assms(1) by (simp add: part_ok_def contains_def a)
  moreover have "LF \<notin> set (''--'' @ b)" using assms(2) by (auto simp: boundary_ok_def)
  ultimately show ?thesis using index_sub_terminated [of "''--'' @ b" LF a r] by (simp add: a)
qed

lemma multipart_loop_print:
  assumes "boundary_ok b"
  shows "list_all (part_ok b) (p # ps) \<Longrightarrow>
    multipart_loop (pre @ print_part p @ (''--'' @ b) @ print_rest (''--'' @ b) ps) (''--'' @ b) (length pre) acc = Some (acc @ p # ps)"
proof (induction ps arbitrary: pre p acc)
  case Nil
  let ?d = "''--'' @ b" and ?r = "print_rest (''--'' @ b) []"
  have ok: "part_ok b p" using Nil by simp
  then have name: "mp_name p \<noteq> []" by (simp add: part_ok_def)
  let ?body = "pre @ print_part p @ ?d @ ?r"
  have f: "find_str ?d ?body (length pre) = Some (length pre + length (print_part p))"
    using delimiter_found [OF ok assms, of ?r] by (simp add: find_str_def)
  have "substr ?body (length pre) (length (print_part p)) = print_part p" by (simp add: substr_def)
  then show ?case
    using parsePart_print [OF ok] name
    by (subst multipart_loop.simps) (simp only: f, simp add: substr_def Let_def)
next
  case (Cons q ps)
  let ?d = "''--'' @ b" and ?r = "print_rest (''--'' @ b) (q # ps)"
  have ok: "part_ok b p" using Cons.prems by simp
  then have name: "mp_name p \<noteq> []" by (simp add: part_ok_def)
  let ?body = "pre @ print_part p @ ?d @ ?r" and ?pre = "pre @ print_part p @ ?d @ CRLF"
  have f: "find_str ?d ?body (length pre) = Some (length pre + length (print_part p))"
    using delimiter_found [OF ok assms, of ?r] by (simp add: find_str_def)
  have sub: "substr ?body (length pre) (length (print_part p)) = print_part p" by (simp add: substr_def)
  have "multipart_loop ?body ?d (length pre) acc = multipart_loop ?body ?d (length ?pre) (acc @ [p])"
    using sub parsePart_print [OF ok] name
    by (subst multipart_loop.simps) (simp only: f, simp add: substr_def Let_def add.assoc)
  also have "?body = ?pre @ print_part q @ ?d @ print_rest ?d ps" by simp
  also have "multipart_loop \<dots> ?d (length ?pre) (acc @ [p]) = Some ((acc @ [p]) @ q # ps)"
    by (rule Cons.IH) (use Cons.prems in simp)
  finally show ?case by simp
qed

lemma multipart_parse_print:
  assumes "boundary_ok b" and "list_all (part_ok b) ps"
  shows "multipart_parse (print_multipart b ps) b = Some ps"
proof -
  let ?d = "''--'' @ b" and ?body = "print_multipart b ps"
  have b: "b \<noteq> []" "CR \<notin> set ?d" using assms(1) by (auto simp: boundary_ok_def)
  have body: "?body = ?d @ print_rest ?d ps" by (simp add: print_multipart_def Let_def)
  have d: "index_sub ?d ?body = Some 0" unfolding body by (rule index_sub_starts) (rule starts_with_append)
  show ?thesis
  proof (cases ps)
    case Nil
    have "find_str CRLF ?body 0 = Some (length ?d + 2)" using b(2) by (simp add: print_multipart_def Let_def Nil)
    moreover have "multipart_loop ?body ?d (length ?d + 2 + 2) [] = Some []" by (subst multipart_loop.simps) (simp add: print_multipart_def Let_def Nil)
    ultimately show ?thesis using d b by (simp add: multipart_parse_def print_multipart_def Let_def Nil)
  next
    case (Cons p qs)
    have f: "find_str CRLF ?body 0 = Some (length ?d)" using b(2) by (simp add: print_multipart_def Let_def Cons)
    have "multipart_loop ((?d @ CRLF) @ print_part p @ ?d @ print_rest ?d qs) ?d (length (?d @ CRLF)) [] = Some ([] @ p # qs)"
      by (rule multipart_loop_print [OF assms(1)]) (use assms(2) Cons in simp)
    then have "multipart_loop ?body ?d (length ?d + 2) [] = Some ps" by (simp add: print_multipart_def Let_def Cons)
    moreover have "?body \<noteq> []" by (simp add: print_multipart_def Let_def)
    ultimately show ?thesis using b(1) unfolding multipart_parse_def Let_def d option.case f by simp
  qed
qed

lemma extractBoundary_plain:
  assumes "boundary_ok b"
  shows "extractBoundary (''multipart/form-data; boundary='' @ b) = b"
proof -
  obtain x xs where "b = x # xs" using assms by (cases b) (auto simp: boundary_ok_def)
  then have ok: "b \<noteq> []" "hd b \<noteq> DQ" "\<forall>c \<in> set b. c \<noteq> SP \<and> c \<noteq> CHR '';'' \<and> c \<noteq> CR \<and> c \<noteq> LF"
    using assms by (auto simp: boundary_ok_def)
  let ?t = "''multipart/form-data; boundary='' @ b"
  have i: "index_sub ''boundary='' ?t = Some 21" by simp
  have "?t ! 30 = hd b" using ok(1) by (cases b) (simp_all add: eval_nat_numeral)
  moreover have "drop 30 ?t = b" by simp
  ultimately show ?thesis
    using ok unfolding extractBoundary_def Let_def i option.case by (simp add: substr_from_def takeWhile_eq_all_conv)
qed

section \<open>Properties\<close>

text \<open>
  (C28) The parser of multipart bodies always returns: its loop ends on every body and boundary, however malformed, after at most one part per delimiter of the body.
\<close>

theorem multipart_parse_returns:
  "\<exists>parts. multipart_parse body boundary = Some parts \<and> length parts * (length boundary + 2) \<le> length body"
proof -
  have "\<exists>new. multipart_loop body (''--'' @ boundary) pos [] = Some new \<and> length new * (length boundary + 2) \<le> length body" for pos
    using multipart_loop_returns [of "''--'' @ boundary" body pos "[]"] by fastforce
  then show ?thesis by (simp add: multipart_parse_def Let_def split: option.split)
qed

text \<open>
  (C29) Forms survive the trip: a body printed from parts whose names and contents respect the boundary is parsed into exactly these parts, in order, with names, file
  names, content types and binary data unchanged, given the boundary extracted from the content type.
\<close>

theorem multipart_roundtrip:
  assumes "boundary_ok b" and "list_all (part_ok b) ps"
  shows "multipart_parse (print_multipart b ps) (extractBoundary (''multipart/form-data; boundary='' @ b)) = Some ps"
  using multipart_parse_print [OF assms] extractBoundary_plain [OF assms(1)] by simp

definition sample_parts :: "multipart_part list" where
  "sample_parts = [\<lparr>mp_name = ''user'', mp_filename = [], mp_contentType = [], mp_data = ''bob''\<rparr>,
     \<lparr>mp_name = ''pic'', mp_filename = ''a.png'', mp_contentType = ''image/png'', mp_data = [CR, LF, CHR ''-'', CHR ''-'']\<rparr>]"

theorem multipart_roundtrip_witness:
  "multipart_parse (print_multipart ''xyz'' sample_parts) (extractBoundary (''multipart/form-data; boundary='' @ ''xyz'')) = Some sample_parts"
proof (rule multipart_roundtrip)
  show "boundary_ok ''xyz''" by (simp add: boundary_ok_def)
  show "list_all (part_ok ''xyz'') sample_parts"
    by (simp add: sample_parts_def part_ok_def print_part_def part_lines_def disposition_line_def isFile_def contains_def)
qed

text \<open>
  A file name that is sent before the name is taken for the name: the search for \<^verbatim>\<open>name="\<close> also matches the end of \<^verbatim>\<open>filename="\<close>.
\<close>

theorem filename_taken_for_name:
  assumes "DQ \<notin> set f"
  shows "extractHeaderParam (''Content-Disposition: form-data; filename='' @ [DQ] @ f @ [DQ] @ ''; name='' @ [DQ] @ n @ [DQ]) ''name'' = f"
  by (rule extractHeaderParam_found [where i = 36 and r = "''; name='' @ [DQ] @ n @ [DQ]"]) (use assms in simp_all)

theorem filename_taken_for_name_witness:
  "extractHeaderParam (''Content-Disposition: form-data; filename='' @ [DQ] @ ''a.txt'' @ [DQ] @ ''; name='' @ [DQ] @ ''doc'' @ [DQ]) ''name'' = ''a.txt''"
  by (rule filename_taken_for_name) simp

end
