(* ===== verification/ConfigModel.thy ===== *)
theory ConfigModel
  imports CppString
begin

text \<open>
  \<^verbatim>\<open>src/config/Config.h\<close>: the configuration file reader and the table of values.  The text of a file is an argument, \<open>None\<close> when it cannot be opened; \<^verbatim>\<open>std::stod\<close> is
  not modelled.
\<close>

section \<open>Values\<close>

text \<open>\<^verbatim>\<open>std::getline\<close> until the end of the stream; the text behind the last delimiter is an item unless it is empty.\<close>

function getlines :: "char \<Rightarrow> string \<Rightarrow> string list" where
  "getlines d s =
     (if s = [] then []
      else case index_of d s of
             None \<Rightarrow> [s]
           | Some i \<Rightarrow> take i s # getlines d (drop (i + 1) s))"
  by pat_completeness auto
termination by (relation "measure (\<lambda>(d, s). length s)") auto

declare getlines.simps [simp del]

text \<open>\<^verbatim>\<open>std::stoi\<close> and \<^verbatim>\<open>std::stoll\<close>: \<open>None\<close> for both exceptions, \<open>w\<close> the width of the result.\<close>

definition sto_signed :: "nat \<Rightarrow> string \<Rightarrow> int option" where
  "sto_signed w s =
     (let (neg, t) = strip_sign (dropWhile is_space s); ds = takeWhile is_digit t; v = (if neg then - int (digits_value ds) else int (digits_value ds))
      in if ds = [] \<or> v < - (2 ^ (w - 1)) \<or> v \<ge> 2 ^ (w - 1) then None else Some v)"

definition asInt :: "string \<Rightarrow> int option" where
  "asInt v = sto_signed 32 v"

definition asInt64 :: "string \<Rightarrow> int option" where
  "asInt64 v = sto_signed 64 v"

definition asBool :: "string \<Rightarrow> bool" where
  "asBool v \<longleftrightarrow> v = ''true'' \<or> v = ''1''"

definition asList :: "char \<Rightarrow> string \<Rightarrow> string list" where
  "asList delim v = getlines delim v"

section \<open>The table\<close>

record config =
  cfg_filename :: string
  cfg_values :: "string \<rightharpoonup> string"

definition Config_new :: config where
  "Config_new = \<lparr>cfg_filename = [], cfg_values = Map.empty\<rparr>"

definition is_blank :: "char \<Rightarrow> bool" where
  "is_blank c \<longleftrightarrow> c = SP \<or> c = CHR 0x09"

definition trim :: "string \<Rightarrow> string" where
  "trim line = rev (dropWhile is_blank (rev (dropWhile is_blank line)))"

text \<open>One line of the file, with the current section and the values so far.\<close>

definition config_line :: "string \<Rightarrow> string \<times> (string \<rightharpoonup> string) \<Rightarrow> string \<times> (string \<rightharpoonup> string)" where
  "config_line line0 st =
     (let (sect, values) = st; line = trim line0 in
      if line = [] \<or> hd line = CHR ''#'' then (sect, values)
      else if hd line = CHR ''['' \<and> last line = CHR '']'' then (substr line 1 (length line - 2) @ ''.'', values)
      else case index_of (CHR ''='') line of
             None \<Rightarrow> (sect, values)
           | Some eq \<Rightarrow>
               (let key = substr line 0 eq; value = substr_from line (eq + 1);
                    value1 = (if length value \<ge> 2 \<and> hd value = CHR 0x22 \<and> last value = CHR 0x22 then substr value 1 (length value - 2) else value)
                in (sect, values(sect @ key \<mapsto> value1))))"

definition load :: "string option \<Rightarrow> string \<Rightarrow> config \<Rightarrow> bool \<times> config" where
  "load content filename c =
     (case content of
        None \<Rightarrow> (False, c)
      | Some s \<Rightarrow> (True, c\<lparr>cfg_values := snd (fold config_line (getlines LF s) ([], cfg_values c)), cfg_filename := filename\<rparr>))"

definition reload :: "(string \<Rightarrow> string option) \<Rightarrow> config \<Rightarrow> bool \<times> config" where
  "reload disk c = (if cfg_filename c = [] then (False, c) else load (disk (cfg_filename c)) (cfg_filename c) c)"

definition Config_get :: "string \<Rightarrow> string \<Rightarrow> config \<Rightarrow> string" where
  "Config_get key defaultValue c = (case cfg_values c key of Some v \<Rightarrow> v | None \<Rightarrow> defaultValue)"

definition Config_set :: "string \<Rightarrow> string \<Rightarrow> config \<Rightarrow> config" where
  "Config_set key value c = c\<lparr>cfg_values := (cfg_values c)(key \<mapsto> value)\<rparr>"

definition Config_has :: "string \<Rightarrow> config \<Rightarrow> bool" where
  "Config_has key c \<longleftrightarrow> cfg_values c key \<noteq> None"

section \<open>Reading back a printed file\<close>

definition entry_line :: "string \<times> string \<Rightarrow> string" where
  "entry_line kv = fst kv @ ''='' @ [CHR 0x22] @ snd kv @ [CHR 0x22]"

definition section_lines :: "string \<times> (string \<times> string) list \<Rightarrow> string list" where
  "section_lines s = (''['' @ fst s @ '']'') # map entry_line (snd s)"

definition print_config :: "(string \<times> (string \<times> string) list) list \<Rightarrow> string" where
  "print_config ss = concat (map (\<lambda>l. l @ [LF]) (concat (map section_lines ss)))"

definition entry_ok :: "string \<times> string \<Rightarrow> bool" where
  "entry_ok kv \<longleftrightarrow> LF \<notin> set (fst kv) \<and> CHR ''='' \<notin> set (fst kv) \<and> LF \<notin> set (snd kv) \<and>
     (case fst kv of [] \<Rightarrow> True | c # _ \<Rightarrow> \<not> is_blank c \<and> c \<noteq> CHR ''#'')"

definition section_ok :: "string \<times> (string \<times> string) list \<Rightarrow> bool" where
  "section_ok s \<longleftrightarrow> LF \<notin> set (fst s) \<and> list_all entry_ok (snd s)"

definition section_entries :: "string \<times> (string \<times> string) list \<Rightarrow> (string \<times> string) list" where
  "section_entries s = map (\<lambda>(k, v). (fst s @ ''.'' @ k, v)) (snd s)"

lemma getlines_print: "list_all (\<lambda>l. LF \<notin> set l) ls \<Longrightarrow> getlines LF (concat (map (\<lambda>l. l @ [LF]) ls)) = ls"
proof (induction ls)
  case Nil
  then show ?case by (simp add: getlines.simps)
next
  case (Cons l ls)
  then have "index_of LF (l @ LF # concat (map (\<lambda>l. l @ [LF]) ls)) = Some (length l)" by simp
  then show ?case using Cons by (subst getlines.simps) simp
qed

lemma trim_id: "l \<noteq> [] \<Longrightarrow> \<not> is_blank (hd l) \<Longrightarrow> \<not> is_blank (last l) \<Longrightarrow> trim l = l"
proof -
  assume a: "l \<noteq> []" "\<not> is_blank (hd l)" "\<not> is_blank (last l)"
  have "dropWhile is_blank l = l" using a by (cases l) simp_all
  moreover have "dropWhile is_blank (rev l) = rev l" using a by (cases l rule: rev_cases) simp_all
  ultimately show ?thesis by (simp add: trim_def)
qed

lemma not_blank [simp]: "\<not> is_blank (CHR ''['')" "\<not> is_blank (CHR '']'')" "\<not> is_blank (CHR 0x22)" "\<not> is_blank (CHR ''='')"
  by (simp_all add: is_blank_def)

lemma config_line_section: "config_line (''['' @ n @ '']'') (sect, m) = (n @ ''.'', m)"
proof -
  have "trim (''['' @ n @ '']'') = ''['' @ n @ '']''" by (rule trim_id) simp_all
  then show ?thesis by (simp add: config_line_def substr_def)
qed

lemma config_line_entry:
  assumes "entry_ok kv"
  shows "config_line (entry_line kv) (sect, m) = (sect, m(sect @ fst kv \<mapsto> snd kv))"
proof -
  have hd: "\<not> is_blank (hd (entry_line kv))" "hd (entry_line kv) \<noteq> CHR ''#''"
    using assms by (cases "fst kv"; simp add: entry_ok_def entry_line_def)+
  have last: "last (entry_line kv) = CHR 0x22" "entry_line kv \<noteq> []" by (simp_all add: entry_line_def)
  then have t: "trim (entry_line kv) = entry_line kv" using hd by (intro trim_id) simp_all
  have "index_of (CHR ''='') (entry_line kv) = Some (length (fst kv))" using assms by (simp add: entry_ok_def entry_line_def)
  moreover have "substr (entry_line kv) 0 (length (fst kv)) = fst kv"
    "substr_from (entry_line kv) (length (fst kv) + 1) = [CHR 0x22] @ snd kv @ [CHR 0x22]"
    by (simp_all add: entry_line_def substr_def substr_from_def)
  moreover have "substr ([CHR 0x22] @ snd kv @ [CHR 0x22]) 1 (length ([CHR 0x22] @ snd kv @ [CHR 0x22]) - 2) = snd kv" by (simp add: substr_def)
  ultimately show ?thesis unfolding config_line_def Let_def t using hd last by simp
qed

lemma config_section:
  assumes "section_ok s"
  shows "fold config_line (section_lines s) (sect, m) = (fst s @ ''.'', fold (\<lambda>(k, v) m. m(k \<mapsto> v)) (section_entries s) m)"
proof -
  have "fold config_line (map entry_line kvs) (p, m) = (p, fold (\<lambda>(k, v) m. m(k \<mapsto> v)) (map (\<lambda>(k, v). (p @ k, v)) kvs) m)"
    if "list_all entry_ok kvs" for kvs p m
    using that by (induction kvs arbitrary: m) (simp_all add: config_line_entry split_beta)
  then show ?thesis using assms config_line_section [of "fst s" sect m] by (simp add: section_lines_def section_ok_def section_entries_def)
qed

lemma config_sections:
  "list_all section_ok ss \<Longrightarrow>
   snd (fold config_line (concat (map section_lines ss)) (sect, m)) = fold (\<lambda>(k, v) m. m(k \<mapsto> v)) (concat (map section_entries ss)) m"
  by (induction ss arbitrary: sect m) (simp_all add: config_section)

lemma section_lines_clean: "section_ok s \<Longrightarrow> list_all (\<lambda>l. LF \<notin> set l) (section_lines s)"
  by (auto simp: section_ok_def section_lines_def entry_ok_def entry_line_def list_all_iff)

section \<open>Properties\<close>

text \<open>
  (C30) A printed configuration is loaded back: from sections with quoted values, every value, with blanks and any other character but a line feed, is stored under its section and key, later
  entries replace earlier ones, and values under other keys, from earlier loads or \<^verbatim>\<open>set\<close>, stay.
\<close>

theorem config_load_print:
  assumes "list_all section_ok ss"
  shows "load (Some (print_config ss)) filename c =
    (True, c\<lparr>cfg_values := fold (\<lambda>(k, v) m. m(k \<mapsto> v)) (concat (map section_entries ss)) (cfg_values c), cfg_filename := filename\<rparr>)"
proof -
  have "list_all (\<lambda>l. LF \<notin> set l) (concat (map section_lines ss))"
    using assms section_lines_clean by (auto simp: list_all_iff)
  then show ?thesis using config_sections [OF assms] by (simp add: load_def print_config_def getlines_print)
qed

theorem config_load_print_witness:
  "cfg_values (snd (load (Some (print_config [(''db'', [(''host'', ''my host''), (''port'', ''1'')])])) ''f'' Config_new)) ''db.host'' = Some ''my host''"
proof -
  have "list_all section_ok [(''db'', [(''host'', ''my host''), (''port'', ''1'')])]" by (simp add: section_ok_def entry_ok_def is_blank_def)
  from config_load_print [OF this, of "''f''" Config_new] show ?thesis by (simp add: section_entries_def)
qed

text \<open>In the form of the comment in the source, with blanks around the sign, the blanks belong to the key and the value.\<close>

lemma config_blank_key:
  "cfg_values (snd (load (Some ''port = 80'') ''f'' Config_new)) = [''port '' \<mapsto> '' 80'']"
  by (simp add: load_def getlines.simps config_line_def trim_def is_blank_def substr_def substr_from_def Config_new_def)

text \<open>Lists survive joining with their delimiter, unless the last item is empty.\<close>

lemma asList_join:
  "list_all (\<lambda>x. d \<notin> set x) (xs @ [x]) \<Longrightarrow> x \<noteq> [] \<Longrightarrow> asList d (concat (map (\<lambda>y. y @ [d]) xs) @ x) = xs @ [x]"
proof (induction xs)
  case Nil
  then show ?case by (simp add: asList_def getlines.simps)
next
  case (Cons y ys)
  have "asList d (y @ d # concat (map (\<lambda>y. y @ [d]) ys) @ x) = y # asList d (concat (map (\<lambda>y. y @ [d]) ys) @ x)"
    unfolding asList_def using Cons.prems by (subst getlines.simps) simp
  then show ?case using Cons by simp
qed

end
