(* ===== verification/CatalogModel.thy ===== *)
theory CatalogModel
  imports CppString "HOL-Library.List_Lexorder" "HOL-Library.Char_ord"
begin

text \<open>
  \<^verbatim>\<open>src/registry/ServiceMeta.h\<close>, \<^verbatim>\<open>ServiceCatalog.h\<close> and \<^verbatim>\<open>HealthChecker.h\<close>: the index of service instances.  The \<^verbatim>\<open>std::map\<close> of the catalog is a list sorted by
  the string its keys are compared by; every operation holds the mutex, so operations are atomic, and the clock reading of an operation is an argument.  Instances are
  values: each is in the catalog once, and the pointers that \<^verbatim>\<open>discover\<close> hands out are not followed.
\<close>

section \<open>Services and instances\<close>

record service_key =
  sk_namespace :: string
  sk_service :: string
  sk_version :: string

definition sk_key :: "service_key \<Rightarrow> string" where
  "sk_key k = sk_namespace k @ '':'' @ sk_service k @ '':'' @ sk_version k"

definition sk_less :: "service_key \<Rightarrow> service_key \<Rightarrow> bool" where
  "sk_less a b \<longleftrightarrow> sk_key a < sk_key b"

record instance_meta =
  im_id :: string
  im_host :: string
  im_port :: int
  im_weight :: int
  im_lastHeartbeatMs :: int
  im_ttlSeconds :: int
  im_status :: string
  im_metadata :: "(string \<times> string) list"

definition InstanceMeta_new :: "int \<Rightarrow> string \<Rightarrow> string \<Rightarrow> int \<Rightarrow> instance_meta" where
  "InstanceMeta_new now i h p =
     \<lparr>im_id = i, im_host = h, im_port = p, im_weight = 1, im_lastHeartbeatMs = now, im_ttlSeconds = 30, im_status = ''UP'', im_metadata = []\<rparr>"

definition im_address :: "instance_meta \<Rightarrow> string" where
  "im_address m = im_host m @ '':'' @ int_to_string (im_port m)"

definition im_heartbeat :: "int \<Rightarrow> instance_meta \<Rightarrow> instance_meta" where
  "im_heartbeat now m = m\<lparr>im_lastHeartbeatMs := now, im_status := ''UP''\<rparr>"

text \<open>\<^verbatim>\<open>ttlSeconds * 1000\<close> is an \<^verbatim>\<open>int\<close> of 32 bits, and wraps on the machines the library runs on.\<close>

definition ttl_ms :: "instance_meta \<Rightarrow> int" where
  "ttl_ms m = sint (word_of_int (im_ttlSeconds m * 1000) :: u32)"

definition isExpired :: "int \<Rightarrow> instance_meta \<Rightarrow> bool" where
  "isExpired now m \<longleftrightarrow> now - im_lastHeartbeatMs m > ttl_ms m"

definition remainingTtlMs :: "int \<Rightarrow> instance_meta \<Rightarrow> int" where
  "remainingTtlMs now m = max 0 (ttl_ms m - (now - im_lastHeartbeatMs m))"

section \<open>The catalog\<close>

type_synonym catalog = "(string \<times> service_key \<times> instance_meta list) list"

text \<open>\<^verbatim>\<open>catalog_[key] = instances\<close>: an entry keeps the key object it was created with.\<close>

fun cat_put :: "service_key \<Rightarrow> instance_meta list \<Rightarrow> catalog \<Rightarrow> catalog" where
  "cat_put key ms [] = [(sk_key key, key, ms)]"
| "cat_put key ms ((ks, sk, ns) # c) =
     (if sk_key key = ks then (ks, sk, ms) # c
      else if sk_key key < ks then (sk_key key, key, ms) # (ks, sk, ns) # c
      else (ks, sk, ns) # cat_put key ms c)"

definition cat_erase :: "service_key \<Rightarrow> catalog \<Rightarrow> catalog" where
  "cat_erase key c = filter (\<lambda>(ks, _). ks \<noteq> sk_key key) c"

definition cat_find :: "service_key \<Rightarrow> catalog \<Rightarrow> instance_meta list option" where
  "cat_find key c = map_option snd (map_of c (sk_key key))"

text \<open>The loop of \<^verbatim>\<open>registerInstance\<close>: replace the instance with the same id, or add one.\<close>

fun put_instance :: "int \<Rightarrow> instance_meta \<Rightarrow> instance_meta list \<Rightarrow> instance_meta list" where
  "put_instance now m [] = [m]"
| "put_instance now m (x # xs) = (if im_id x = im_id m then im_heartbeat now m # xs else x # put_instance now m xs)"

definition registerInstance :: "int \<Rightarrow> service_key \<Rightarrow> instance_meta \<Rightarrow> catalog \<Rightarrow> bool \<times> catalog" where
  "registerInstance now key m c =
     (True, cat_put key (put_instance now m (case cat_find key c of Some ms \<Rightarrow> ms | None \<Rightarrow> [])) c)"

fun drop_instance :: "string \<Rightarrow> instance_meta list \<Rightarrow> instance_meta list option" where
  "drop_instance i [] = None"
| "drop_instance i (x # xs) = (if im_id x = i then Some xs else map_option ((#) x) (drop_instance i xs))"

definition deregisterInstance :: "service_key \<Rightarrow> string \<Rightarrow> catalog \<Rightarrow> bool \<times> catalog" where
  "deregisterInstance key i c =
     (case cat_find key c of
        None \<Rightarrow> (False, c)
      | Some ms \<Rightarrow>
          (case drop_instance i ms of
             None \<Rightarrow> (False, c)
           | Some ms' \<Rightarrow> (True, if ms' = [] then cat_erase key c else cat_put key ms' c)))"

fun beat_instance :: "int \<Rightarrow> string \<Rightarrow> instance_meta list \<Rightarrow> instance_meta list option" where
  "beat_instance now i [] = None"
| "beat_instance now i (x # xs) = (if im_id x = i then Some (im_heartbeat now x # xs) else map_option ((#) x) (beat_instance now i xs))"

definition cat_heartbeat :: "int \<Rightarrow> service_key \<Rightarrow> string \<Rightarrow> catalog \<Rightarrow> bool \<times> catalog" where
  "cat_heartbeat now key i c =
     (case cat_find key c of
        None \<Rightarrow> (False, c)
      | Some ms \<Rightarrow> (case beat_instance now i ms of None \<Rightarrow> (False, c) | Some ms' \<Rightarrow> (True, cat_put key ms' c)))"

definition usable :: "int \<Rightarrow> instance_meta \<Rightarrow> bool" where
  "usable now m \<longleftrightarrow> im_status m = ''UP'' \<and> \<not> isExpired now m"

definition discover :: "int \<Rightarrow> service_key \<Rightarrow> catalog \<Rightarrow> instance_meta list" where
  "discover now key c = (case cat_find key c of Some ms \<Rightarrow> filter (usable now) ms | None \<Rightarrow> [])"

definition discoverByNamespace :: "string \<Rightarrow> catalog \<Rightarrow> service_key list" where
  "discoverByNamespace ns c = filter (\<lambda>k. sk_namespace k = ns) (map (\<lambda>(_, k, _). k) c)"

definition getAllServices :: "catalog \<Rightarrow> (service_key \<times> instance_meta list) list" where
  "getAllServices c = map snd c"

definition cleanExpiredInstances :: "int \<Rightarrow> catalog \<Rightarrow> nat \<times> catalog" where
  "cleanExpiredInstances now c =
     (sum_list (map (\<lambda>(_, _, ms). length (filter (isExpired now) ms)) c),
      filter (\<lambda>(_, _, ms). ms \<noteq> []) (map (\<lambda>(ks, k, ms). (ks, k, filter (\<lambda>m. \<not> isExpired now m) ms)) c))"

definition mark_down :: "int \<Rightarrow> instance_meta \<Rightarrow> instance_meta" where
  "mark_down now m = (if im_status m = ''UP'' \<and> isExpired now m then m\<lparr>im_status := ''DOWN''\<rparr> else m)"

definition markExpiredInstancesDown :: "int \<Rightarrow> catalog \<Rightarrow> nat \<times> catalog" where
  "markExpiredInstancesDown now c =
     (sum_list (map (\<lambda>(_, _, ms). length (filter (\<lambda>m. im_status m = ''UP'' \<and> isExpired now m) ms)) c),
      map (\<lambda>(ks, k, ms). (ks, k, map (mark_down now) ms)) c)"

record catalog_stats =
  totalServices :: nat
  totalInstances :: nat
  healthyInstances :: nat
  expiredInstances :: nat

definition getStats :: "int \<Rightarrow> catalog \<Rightarrow> catalog_stats" where
  "getStats now c =
     \<lparr>totalServices = length c, totalInstances = sum_list (map (\<lambda>(_, _, ms). length ms) c),
      healthyInstances = sum_list (map (\<lambda>(_, _, ms). length (filter (usable now) ms)) c),
      expiredInstances = sum_list (map (\<lambda>(_, _, ms). length (filter (\<lambda>m. \<not> usable now m) ms)) c)\<rparr>"

definition cat_clear :: "catalog \<Rightarrow> catalog" where
  "cat_clear c = []"

section \<open>Health checks\<close>

text \<open>The result, the catalog, and what the expiry callback is told when it is set and something was marked.\<close>

definition checkOnce :: "int \<Rightarrow> bool \<Rightarrow> catalog \<Rightarrow> nat \<times> catalog \<times> string list option" where
  "checkOnce now callbackSet c =
     (let (marked, c') = markExpiredInstancesDown now c
      in (marked, c',
          if marked > 0 \<and> callbackSet
          then Some (concat (map (\<lambda>(_, ms). map im_id (filter (\<lambda>m. im_status m = ''DOWN'') ms)) (getAllServices c')))
          else None))"

definition cleanExpired :: "int \<Rightarrow> catalog \<Rightarrow> nat \<times> catalog" where
  "cleanExpired now c = cleanExpiredInstances now c"

section \<open>The table of instances\<close>

text \<open>The abstract view: an instance for a service and an id.\<close>

type_synonym instance_table = "string \<times> string \<rightharpoonup> instance_meta"

definition cat_table :: "catalog \<Rightarrow> instance_table" where
  "cat_table c = (\<lambda>(ks, i). case map_of c ks of None \<Rightarrow> None | Some (_, ms) \<Rightarrow> find (\<lambda>m. im_id m = i) ms)"

definition cat_inv :: "catalog \<Rightarrow> bool" where
  "cat_inv c \<longleftrightarrow> sorted_wrt (<) (map fst c) \<and> (\<forall>(ks, k, ms) \<in> set c. sk_key k = ks \<and> ms \<noteq> [] \<and> distinct (map im_id ms))"

datatype cat_op = OpRegister int service_key instance_meta | OpDeregister service_key string | OpHeartbeat int service_key string
  | OpClean int | OpCheck int | OpClear

definition cat_exec :: "cat_op \<Rightarrow> catalog \<Rightarrow> catalog" where
  "cat_exec oper c =
     (case oper of
        OpRegister now k m \<Rightarrow> snd (registerInstance now k m c)
      | OpDeregister k i \<Rightarrow> snd (deregisterInstance k i c)
      | OpHeartbeat now k i \<Rightarrow> snd (cat_heartbeat now k i c)
      | OpClean now \<Rightarrow> snd (cleanExpired now c)
      | OpCheck now \<Rightarrow> fst (snd (checkOnce now True c))
      | OpClear \<Rightarrow> cat_clear c)"

definition table_exec :: "cat_op \<Rightarrow> instance_table \<Rightarrow> instance_table" where
  "table_exec oper t =
     (case oper of
        OpRegister now k m \<Rightarrow> t((sk_key k, im_id m) \<mapsto> (if t (sk_key k, im_id m) = None then m else im_heartbeat now m))
      | OpDeregister k i \<Rightarrow> t((sk_key k, i) := None)
      | OpHeartbeat now k i \<Rightarrow> t((sk_key k, i) := map_option (im_heartbeat now) (t (sk_key k, i)))
      | OpClean now \<Rightarrow> (\<lambda>x. case t x of Some m \<Rightarrow> if isExpired now m then None else Some m | None \<Rightarrow> None)
      | OpCheck now \<Rightarrow> (\<lambda>x. map_option (mark_down now) (t x))
      | OpClear \<Rightarrow> Map.empty)"

section \<open>The sorted list is a map\<close>

lemma sorted_keys_distinct: "sorted_wrt (<) (map fst c) \<Longrightarrow> distinct (map fst (c :: catalog))"
  by (simp add: strict_sorted_iff)

lemma map_of_below:
  assumes "sorted_wrt (<) (map fst ((ks, e) # c))" and "k < ks"
  shows "map_of ((ks, e) # (c :: catalog)) k = None"
proof -
  have "k \<notin> fst ` set c" using assms by (force simp: image_iff)
  then have "map_of c k = None" by (simp add: map_of_eq_None_iff)
  then show ?thesis using assms(2) by auto
qed

lemma map_of_cat_put:
  "sorted_wrt (<) (map fst c) \<Longrightarrow>
   map_of (cat_put key ms c) = (map_of c)(sk_key key \<mapsto> (case map_of c (sk_key key) of Some e \<Rightarrow> fst e | None \<Rightarrow> key, ms))"
proof (induction c)
  case (Cons a c)
  obtain ks sk ns where a: "a = (ks, sk, ns)" by (cases a)
  consider "sk_key key = ks" | "sk_key key < ks" | "sk_key key \<noteq> ks" "\<not> sk_key key < ks" by blast
  then show ?case
  proof cases
    case 2
    then have "map_of (a # c) (sk_key key) = None" using map_of_below [of ks "(sk, ns)" c "sk_key key"] Cons.prems by (simp add: a)
    moreover have "sk_key key \<noteq> ks" using 2 by auto
    ultimately show ?thesis using 2 by (auto simp: a fun_eq_iff)
  qed (use Cons in \<open>auto simp: a fun_eq_iff\<close>)
qed simp

lemma fst_set_cat_put: "fst ` set (cat_put key ms c) = insert (sk_key key) (fst ` set c)"
  by (induction key ms c rule: cat_put.induct) (simp_all add: insert_commute)

lemma sorted_cat_put: "sorted_wrt (<) (map fst c) \<Longrightarrow> sorted_wrt (<) (map fst (cat_put key ms c))"
proof (induction c)
  case (Cons a c)
  obtain ks sk ns where a: "a = (ks, sk, ns)" by (cases a)
  have s: "\<forall>x \<in> fst ` set c. ks < x" "sorted_wrt (<) (map fst c)" using Cons.prems by (auto simp: a)
  consider "sk_key key = ks" | "sk_key key < ks" | "sk_key key \<noteq> ks" "ks < sk_key key" by fastforce
  then show ?case
  proof cases
    case 3
    then have "\<forall>x \<in> fst ` set (cat_put key ms c). ks < x" using s(1) by (simp add: fst_set_cat_put)
    then show ?thesis using 3 Cons.IH s(2) by (auto simp: a)
  qed (use s in \<open>auto simp: a intro: less_trans\<close>)
qed simp

lemma set_cat_put: "e \<in> set (cat_put key ms c) \<Longrightarrow> e \<in> set c \<or> e = (sk_key key, key, ms) \<or> (\<exists>sk ns. (sk_key key, sk, ns) \<in> set c \<and> e = (sk_key key, sk, ms))"
  by (induction key ms c rule: cat_put.induct) (simp, simp split: if_splits, blast+)

lemma cat_inv_put: "cat_inv c \<Longrightarrow> ms \<noteq> [] \<Longrightarrow> distinct (map im_id ms) \<Longrightarrow> cat_inv (cat_put key ms c)"
  by (auto simp: cat_inv_def sorted_cat_put dest!: set_cat_put)

lemma map_of_erase: "map_of (cat_erase key c) = (map_of c)(sk_key key := None)"
  by (induction c) (auto simp: cat_erase_def fun_eq_iff)

lemma cat_inv_filter: "cat_inv c \<Longrightarrow> cat_inv (filter P c)"
proof -
  have "sorted_wrt (<) (map fst c) \<Longrightarrow> sorted_wrt (<) (map fst (filter P c))" by (induction c) auto
  then show "cat_inv c \<Longrightarrow> cat_inv (filter P c)" by (auto simp: cat_inv_def)
qed

lemma cat_find_inv: "cat_inv c \<Longrightarrow> cat_find key c = Some ms \<Longrightarrow> ms \<noteq> [] \<and> distinct (map im_id ms)"
  by (fastforce simp: cat_inv_def cat_find_def dest: map_of_SomeD)

lemma cat_table_find: "cat_table c (sk_key key, i) = (case cat_find key c of None \<Rightarrow> None | Some ms \<Rightarrow> find (\<lambda>m. im_id m = i) ms)"
  by (auto simp: cat_table_def cat_find_def split: option.splits)

lemma cat_table_put:
  assumes "cat_inv c"
  shows "cat_table (cat_put key ms c) (ks, i) = (if ks = sk_key key then find (\<lambda>m. im_id m = i) ms else cat_table c (ks, i))"
  using assms by (simp add: cat_table_def map_of_cat_put cat_inv_def)

lemma cat_table_erase: "cat_table (cat_erase key c) (ks, i) = (if ks = sk_key key then None else cat_table c (ks, i))"
  by (simp add: cat_table_def map_of_erase)

section \<open>One service\<close>

lemma find_put_instance:
  "find (\<lambda>x. im_id x = i) (put_instance now m xs) =
     (if i = im_id m then Some (if find (\<lambda>x. im_id x = i) xs = None then m else im_heartbeat now m) else find (\<lambda>x. im_id x = i) xs)"
  by (induction xs) (auto simp: im_heartbeat_def)

lemma ids_put_instance: "set (map im_id (put_instance now m xs)) = insert (im_id m) (im_id ` set xs)"
  by (induction xs) (auto simp: im_heartbeat_def)

lemma distinct_put_instance: "distinct (map im_id xs) \<Longrightarrow> distinct (map im_id (put_instance now m xs))"
proof (induction xs)
  case (Cons x xs)
  then show ?case using ids_put_instance [of now m xs] by (auto simp: im_heartbeat_def)
qed simp

lemma put_instance_nonempty: "put_instance now m xs \<noteq> []"
  by (cases xs) auto

lemma find_id_None: "find (\<lambda>x. im_id x = i) xs = None \<longleftrightarrow> i \<notin> im_id ` set xs"
  by (auto simp: find_None_iff)

lemma find_drop_instance:
  "distinct (map im_id xs) \<Longrightarrow> drop_instance i xs = Some ys \<Longrightarrow>
   find (\<lambda>x. im_id x = j) ys = (if j = i then None else find (\<lambda>x. im_id x = j) xs)"
  by (induction xs arbitrary: ys) (auto simp: find_id_None split: if_splits)

lemma drop_instance_None: "drop_instance i xs = None \<longleftrightarrow> find (\<lambda>x. im_id x = i) xs = None"
  by (induction xs) auto

lemma drop_instance_ids: "drop_instance i xs = Some ys \<Longrightarrow> distinct (map im_id xs) \<Longrightarrow> distinct (map im_id ys) \<and> set ys \<subseteq> set xs"
  by (induction xs arbitrary: ys) (auto split: if_splits, blast)

lemma beat_instance_None: "beat_instance now i xs = None \<longleftrightarrow> find (\<lambda>x. im_id x = i) xs = None"
  by (induction xs) auto

lemma beat_instance_ids: "beat_instance now i xs = Some ys \<Longrightarrow> map im_id ys = map im_id xs"
  by (induction xs arbitrary: ys) (auto simp: im_heartbeat_def split: if_splits)

lemma find_beat_instance:
  "beat_instance now i xs = Some ys \<Longrightarrow>
   find (\<lambda>x. im_id x = j) ys = (if j = i then map_option (im_heartbeat now) (find (\<lambda>x. im_id x = j) xs) else find (\<lambda>x. im_id x = j) xs)"
  by (induction xs arbitrary: ys) (auto simp: im_heartbeat_def split: if_splits)

lemma find_filter_ids:
  "distinct (map im_id xs) \<Longrightarrow>
   find (\<lambda>x. im_id x = i) (filter P xs) = (case find (\<lambda>x. im_id x = i) xs of Some m \<Rightarrow> if P m then Some m else None | None \<Rightarrow> None)"
  by (induction xs) (auto simp: find_id_None [THEN iffD2])

lemma find_map_ids: "(\<And>x. im_id (f x) = im_id x) \<Longrightarrow> find (\<lambda>x. im_id x = i) (map f xs) = map_option f (find (\<lambda>x. im_id x = i) xs)"
  by (induction xs) auto

section \<open>Each operation on the table\<close>

lemma register_table:
  assumes "cat_inv c"
  shows "cat_table (cat_exec (OpRegister now key m) c) = table_exec (OpRegister now key m) (cat_table c) \<and> cat_inv (cat_exec (OpRegister now key m) c)"
proof -
  define ms where "ms = (case cat_find key c of Some ms \<Rightarrow> ms | None \<Rightarrow> [])"
  have d: "distinct (map im_id ms)" using cat_find_inv [OF assms, of key] by (simp add: ms_def split: option.splits)
  have f: "cat_table c (sk_key key, i) = find (\<lambda>x. im_id x = i) ms" for i by (simp add: cat_table_find ms_def split: option.splits)
  have e: "cat_exec (OpRegister now key m) c = cat_put key (put_instance now m ms) c" by (simp add: cat_exec_def registerInstance_def ms_def)
  have "cat_table (cat_exec (OpRegister now key m) c) (ks, i) = table_exec (OpRegister now key m) (cat_table c) (ks, i)" for ks i
    by (simp add: e cat_table_put [OF assms] find_put_instance table_exec_def f)
  then show ?thesis using cat_inv_put [OF assms put_instance_nonempty distinct_put_instance [OF d]] by (auto simp: e)
qed

lemma deregister_table:
  assumes "cat_inv c"
  shows "cat_table (cat_exec (OpDeregister key i) c) = table_exec (OpDeregister key i) (cat_table c) \<and> cat_inv (cat_exec (OpDeregister key i) c)"
proof (cases "cat_table c (sk_key key, i)")
  case None
  then have "cat_exec (OpDeregister key i) c = c"
    by (auto simp: cat_exec_def deregisterInstance_def cat_table_find split: option.splits dest!: drop_instance_None [THEN iffD2])
  then show ?thesis using None assms by (auto simp: table_exec_def fun_eq_iff)
next
  case (Some m)
  then obtain ms where ms: "cat_find key c = Some ms" "find (\<lambda>x. im_id x = i) ms = Some m" by (auto simp: cat_table_find split: option.splits)
  then obtain ys where ys: "drop_instance i ms = Some ys" using drop_instance_None [of i ms] by (cases "drop_instance i ms") auto
  have d: "distinct (map im_id ms)" using cat_find_inv [OF assms ms(1)] by simp
  define c' where "c' = cat_exec (OpDeregister key i) c"
  have e: "c' = (if ys = [] then cat_erase key c else cat_put key ys c)" by (simp add: c'_def cat_exec_def deregisterInstance_def ms ys)
  have f: "find (\<lambda>x. im_id x = j) ys = (if j = i then None else cat_table c (sk_key key, j))" for j
    using find_drop_instance [OF d ys] by (simp add: cat_table_find ms)
  have t: "cat_table c' (ks, j) = (if ks = sk_key key then find (\<lambda>x. im_id x = j) ys else cat_table c (ks, j))" for ks j
    by (simp add: e cat_table_put [OF assms] cat_table_erase)
  have "cat_inv c'" using cat_inv_filter [OF assms] cat_inv_put [OF assms] drop_instance_ids [OF ys d] by (auto simp: e cat_erase_def)
  moreover have "cat_table c' = table_exec (OpDeregister key i) (cat_table c)" by (auto simp: fun_eq_iff t f table_exec_def)
  ultimately show ?thesis by (simp add: c'_def)
qed

lemma heartbeat_table:
  assumes "cat_inv c"
  shows "cat_table (cat_exec (OpHeartbeat now key i) c) = table_exec (OpHeartbeat now key i) (cat_table c) \<and> cat_inv (cat_exec (OpHeartbeat now key i) c)"
proof (cases "cat_table c (sk_key key, i)")
  case None
  then have "cat_exec (OpHeartbeat now key i) c = c"
    by (auto simp: cat_exec_def cat_heartbeat_def cat_table_find split: option.splits dest!: beat_instance_None [of now, THEN iffD2])
  then show ?thesis using None assms by (auto simp: table_exec_def fun_eq_iff)
next
  case (Some m)
  then obtain ms where ms: "cat_find key c = Some ms" "find (\<lambda>x. im_id x = i) ms = Some m" by (auto simp: cat_table_find split: option.splits)
  then obtain ys where ys: "beat_instance now i ms = Some ys" using beat_instance_None [of now i ms] by (cases "beat_instance now i ms") auto
  have n: "ys \<noteq> []" "distinct (map im_id ys)" using cat_find_inv [OF assms ms(1)] beat_instance_ids [OF ys] by auto
  have e: "cat_exec (OpHeartbeat now key i) c = cat_put key ys c" by (simp add: cat_exec_def cat_heartbeat_def ms ys)
  have "cat_table (cat_put key ys c) (ks, j) = table_exec (OpHeartbeat now key i) (cat_table c) (ks, j)" for ks j
    by (simp add: cat_table_put [OF assms] find_beat_instance [OF ys] table_exec_def cat_table_find ms)
  then show ?thesis using cat_inv_put [OF assms n] by (auto simp: e)
qed


lemma map_of_map_entry: "map_of (map (\<lambda>(ks, k, ms). (ks, k, f ms)) c) ks = map_option (\<lambda>(k, ms). (k, f ms)) (map_of c ks)"
  by (induction c) auto

lemma map_of_drop_empty:
  "distinct (map fst c) \<Longrightarrow>
   map_of (filter (\<lambda>(_, _, ms). ms \<noteq> []) c) ks = (case map_of c ks of Some (k, ms) \<Rightarrow> if ms = [] then None else Some (k, ms) | None \<Rightarrow> None)"
  by (induction c) (auto simp: map_of_eq_None_iff [THEN iffD2])

lemma clean_table:
  assumes "cat_inv c"
  shows "cat_table (cat_exec (OpClean now) c) = table_exec (OpClean now) (cat_table c) \<and> cat_inv (cat_exec (OpClean now) c)"
proof -
  define kept where "kept = (\<lambda>ms. filter (\<lambda>m. \<not> isExpired now m) ms)"
  define c1 where "c1 = map (\<lambda>(ks, k, ms). (ks, k, kept ms)) c"
  have k: "map fst c1 = map fst c" by (auto simp: c1_def)
  have s: "sorted_wrt (<) (map fst c1)" using assms by (simp add: k cat_inv_def)
  have e: "cat_exec (OpClean now) c = filter (\<lambda>(_, _, ms). ms \<noteq> []) c1"
    by (simp add: cat_exec_def cleanExpired_def cleanExpiredInstances_def c1_def kept_def)
  have d: "distinct (map im_id ms)" if "map_of c ks = Some (k, ms)" for ks k ms
    using assms map_of_SomeD [OF that] by (auto simp: cat_inv_def)
  have "cat_table (filter (\<lambda>(_, _, ms). ms \<noteq> []) c1) (ks, i) = table_exec (OpClean now) (cat_table c) (ks, i)" for ks i
  proof (cases "map_of c ks")
    case (Some x)
    obtain k ms where x: "x = (k, ms)" by (cases x)
    have m: "map_of c1 ks = Some (k, kept ms)" by (simp add: c1_def map_of_map_entry Some x)
    have "cat_table (filter (\<lambda>(_, _, ms). ms \<noteq> []) c1) (ks, i) = find (\<lambda>m. im_id m = i) (kept ms)"
      by (simp add: cat_table_def map_of_drop_empty [OF sorted_keys_distinct [OF s]] m)
    also have "\<dots> = table_exec (OpClean now) (cat_table c) (ks, i)"
      using find_filter_ids [OF d [of ks k ms]] Some by (auto simp: x kept_def table_exec_def cat_table_def split: option.splits)
    finally show ?thesis .
  next
    case None
    then have "map_of c1 ks = None" by (simp add: c1_def map_of_map_entry)
    then show ?thesis by (simp add: cat_table_def map_of_drop_empty [OF sorted_keys_distinct [OF s]] None table_exec_def)
  qed
  moreover have "cat_inv (filter (\<lambda>(_, _, ms). ms \<noteq> []) c1)"
  proof -
    have "sorted_wrt (<) (map fst (filter P c1))" for P using s by (induction c1) auto
    moreover have "distinct (map im_id (kept ms))" if "distinct (map im_id ms)" for ms using that by (simp add: kept_def distinct_map_filter)
    ultimately show ?thesis using assms by (fastforce simp: cat_inv_def c1_def)
  qed
  ultimately show ?thesis by (auto simp: e)
qed

lemma id_mark_down [simp]: "im_id (mark_down now m) = im_id m"
  by (simp add: mark_down_def)

lemma check_table:
  assumes "cat_inv c"
  shows "cat_table (cat_exec (OpCheck now) c) = table_exec (OpCheck now) (cat_table c) \<and> cat_inv (cat_exec (OpCheck now) c)"
proof -
  define c1 where "c1 = map (\<lambda>(ks, k, ms). (ks, k, map (mark_down now) ms)) c"
  have e: "cat_exec (OpCheck now) c = c1" by (simp add: cat_exec_def checkOnce_def markExpiredInstancesDown_def c1_def)
  have "map fst c1 = map fst c" by (auto simp: c1_def)
  moreover have "sk_key k = ks \<and> ms \<noteq> [] \<and> distinct (map im_id ms)" if e: "(ks, k, ms) \<in> set c1" for ks k ms
  proof -
    obtain ns where n: "(ks, k, ns) \<in> set c" "ms = map (mark_down now) ns" using e by (auto simp: c1_def)
    have "map im_id ms = map im_id ns" by (simp add: n(2))
    moreover have "sk_key k = ks \<and> ns \<noteq> [] \<and> distinct (map im_id ns)" using assms n(1) by (auto simp: cat_inv_def)
    ultimately show ?thesis using n(2) by (simp add: comp_def)
  qed
  ultimately have "cat_inv c1" using assms by (auto simp: cat_inv_def)
  moreover have "cat_table c1 (ks, i) = table_exec (OpCheck now) (cat_table c) (ks, i)" for ks i
    by (auto simp: cat_table_def c1_def map_of_map_entry table_exec_def find_map_ids split: option.splits)
  ultimately show ?thesis by (auto simp: e)
qed

lemma exec_table: "cat_inv c \<Longrightarrow> cat_table (cat_exec oper c) = table_exec oper (cat_table c) \<and> cat_inv (cat_exec oper c)"
proof (cases oper)
  case OpClear
  then show ?thesis by (auto simp: cat_exec_def cat_clear_def table_exec_def cat_table_def cat_inv_def fun_eq_iff)
qed (simp_all only: register_table deregister_table heartbeat_table clean_table check_table simp_thms)

lemma fold_exec_table: "cat_inv c \<Longrightarrow> cat_table (fold cat_exec opers c) = fold table_exec opers (cat_table c) \<and> cat_inv (fold cat_exec opers c)"
  by (induction opers arbitrary: c) (simp_all add: exec_table)

lemma find_id_Some: "distinct (map im_id xs) \<Longrightarrow> m \<in> set xs \<longleftrightarrow> find (\<lambda>x. im_id x = im_id m) xs = Some m"
proof (induction xs)
  case (Cons x xs)
  then show ?case by (cases "im_id x = im_id m") (auto simp: rev_image_eqI)
qed simp

lemma discover_table:
  assumes "cat_inv c"
  shows "set (discover now key c) = {m. cat_table c (sk_key key, im_id m) = Some m \<and> usable now m} \<and> distinct (map im_id (discover now key c))"
proof (cases "cat_find key c")
  case (Some ms)
  then have d: "distinct (map im_id ms)" using cat_find_inv [OF assms] by simp
  show ?thesis using Some find_id_Some [OF d] d by (auto simp: discover_def cat_table_find distinct_map_filter)
qed (simp add: discover_def cat_table_find)

section \<open>The catalog refines the table\<close>

text \<open>
  (C31) The catalog is a table from a service and an instance id to an instance, for every sequence of registrations, deregistrations, heartbeats, health checks, clean-ups
  and clears: the sorted map with its vectors, replacements in place and removal of empty services holds what the table holds, \<^verbatim>\<open>discover\<close> returns exactly
  the instances of the service that are UP and whose lifetime has not run out, each once, and no service without an instance is listed.
\<close>

theorem catalog_refines_table:
  "let c = fold cat_exec opers []; t = fold table_exec opers Map.empty in
     cat_table c = t \<and>
     set (discover now key c) = {m. t (sk_key key, im_id m) = Some m \<and> usable now m} \<and> distinct (map im_id (discover now key c)) \<and>
     sorted_wrt sk_less (map fst (getAllServices c)) \<and> [] \<notin> snd ` set (getAllServices c)"
proof -
  define c where "c = fold cat_exec opers []"
  define t where "t = fold table_exec opers Map.empty"
  have i: "cat_inv []" and e: "cat_table [] = Map.empty" by (auto simp: cat_inv_def cat_table_def)
  have c: "cat_table c = t" "cat_inv c" using fold_exec_table [OF i, of opers] by (simp_all add: c_def t_def e)
  have "map fst c = map sk_key (map fst (getAllServices c))" using c(2) by (auto simp: cat_inv_def getAllServices_def)
  then have "sorted_wrt (<) (map sk_key (map fst (getAllServices c)))" using c(2) by (simp only: cat_inv_def)
  then have "sorted_wrt sk_less (map fst (getAllServices c))" unfolding sorted_wrt_map sk_less_def .
  moreover have "[] \<notin> snd ` set (getAllServices c)" using c(2) by (auto simp: cat_inv_def getAllServices_def)
  ultimately show ?thesis using discover_table [OF c(2), of now key] c by (simp add: Let_def c_def t_def)
qed

section \<open>Heartbeats\<close>

lemma ttl_30: "sint (30000 :: u32) = 30000"
  by code_simp

definition op_spares :: "int \<Rightarrow> string \<times> string \<Rightarrow> cat_op \<Rightarrow> bool" where
  "op_spares deadline x oper =
     (case oper of
        OpRegister _ k m \<Rightarrow> (sk_key k, im_id m) \<noteq> x
      | OpDeregister k i \<Rightarrow> (sk_key k, i) \<noteq> x
      | OpHeartbeat _ k i \<Rightarrow> (sk_key k, i) \<noteq> x
      | OpClean now \<Rightarrow> now \<le> deadline
      | OpCheck now \<Rightarrow> now \<le> deadline
      | OpClear \<Rightarrow> False)"

lemma spared_entry:
  assumes "t x = Some m" and "op_spares (im_lastHeartbeatMs m + ttl_ms m) x oper"
  shows "table_exec oper t x = Some m"
  using assms by (cases oper) (auto simp: op_spares_def table_exec_def mark_down_def isExpired_def)

lemma spared_entries:
  "t x = Some m \<Longrightarrow> list_all (op_spares (im_lastHeartbeatMs m + ttl_ms m) x) opers \<Longrightarrow> fold table_exec opers t x = Some m"
  by (induction opers arbitrary: t) (simp_all add: spared_entry)

text \<open>
  A heartbeat keeps an instance in service for its whole lifetime: after a heartbeat of a registered instance, whatever happens to other instances and however
  often the checker and the cleaner run, a discovery within \<^verbatim>\<open>ttlSeconds\<close> of it still returns the instance, with the time of that heartbeat and the status UP.
\<close>

theorem heartbeat_keeps_instance:
  fixes before after :: "cat_op list"
  assumes "cat_table (fold cat_exec before []) (sk_key key, i) = Some m"
    and "list_all (op_spares (t + ttl_ms m) (sk_key key, i)) after" and "now \<le> t + ttl_ms m"
  shows "im_heartbeat t m \<in> set (discover now key (fold cat_exec (before @ [OpHeartbeat t key i] @ after) []))"
proof -
  define c where "c = fold cat_exec before []"
  have i: "cat_inv c" using fold_exec_table [of "[]" before] by (simp add: c_def cat_inv_def)
  have im: "im_id m = i" using assms(1) by (auto simp: cat_table_find find_Some_iff split: option.splits)
  have h: "cat_table (cat_exec (OpHeartbeat t key i) c) (sk_key key, i) = Some (im_heartbeat t m)"
    using exec_table [OF i, of "OpHeartbeat t key i"] assms(1) by (simp add: table_exec_def c_def)
  have "cat_inv (cat_exec (OpHeartbeat t key i) c)" using exec_table [OF i] by blast
  from fold_exec_table [OF this, of after]
  have f: "cat_table (fold cat_exec after (cat_exec (OpHeartbeat t key i) c)) (sk_key key, i) = Some (im_heartbeat t m)"
    "cat_inv (fold cat_exec after (cat_exec (OpHeartbeat t key i) c))"
    using spared_entries [of "cat_table (cat_exec (OpHeartbeat t key i) c)", OF h] assms(2) by (simp_all add: im_heartbeat_def ttl_ms_def)
  have "usable now (im_heartbeat t m)" using assms(3) by (simp add: usable_def isExpired_def im_heartbeat_def ttl_ms_def)
  then show ?thesis using discover_table [OF f(2), of now key] f(1) im by (simp add: c_def im_heartbeat_def)
qed


definition ex_service :: service_key where
  "ex_service = \<lparr>sk_namespace = ''p'', sk_service = ''s'', sk_version = ''v''\<rparr>"

theorem heartbeat_keeps_instance_witness:
  "im_heartbeat 20000 (InstanceMeta_new 0 ''a'' ''h'' 80)
     \<in> set (discover 45000 ex_service
             (fold cat_exec ([OpRegister 0 ex_service (InstanceMeta_new 0 ''a'' ''h'' 80)] @ [OpHeartbeat 20000 ex_service ''a''] @ [OpCheck 40000, OpClean 41000]) []))"
proof (rule heartbeat_keeps_instance)
  show "cat_table (fold cat_exec [OpRegister 0 ex_service (InstanceMeta_new 0 ''a'' ''h'' 80)] []) (sk_key ex_service, ''a'') = Some (InstanceMeta_new 0 ''a'' ''h'' 80)"
    by (simp add: cat_exec_def registerInstance_def cat_find_def cat_table_def InstanceMeta_new_def)
qed (simp_all add: op_spares_def ttl_ms_def InstanceMeta_new_def ttl_30)

section \<open>Lifetimes and names\<close>

text \<open>The statistics split the instances into usable ones and others.\<close>

lemma getStats_sum: "healthyInstances (getStats now c) + expiredInstances (getStats now c) = totalInstances (getStats now c)"
proof -
  have "length (filter (usable now) ms) + length (filter (\<lambda>m. \<not> usable now m) ms) = length ms" for ms
    by (rule sum_length_filter_compl)
  then show ?thesis by (induction c) (auto simp: getStats_def add_ac)
qed

text \<open>The remaining lifetime is positive only for an instance that has not expired.\<close>

lemma remaining_positive: "0 < remainingTtlMs now m \<Longrightarrow> \<not> isExpired now m"
  by (auto simp: remainingTtlMs_def isExpired_def)

text \<open>A lifetime of 2147484 seconds or a little more becomes a negative number of milliseconds: the instance has expired when it is registered.\<close>

lemma long_ttl_expires_at_once:
  assumes "im_ttlSeconds m = 2147484" and "im_lastHeartbeatMs m \<le> now"
  shows "isExpired now m"
proof -
  have "ttl_ms m < 0" unfolding ttl_ms_def assms(1) by code_simp
  then show ?thesis using assms(2) by (simp add: isExpired_def)
qed

text \<open>
  Services are told apart by the string \<^verbatim>\<open>namespace:serviceName:version\<close> only, and the parts may contain colons: different services can share one entry, and a
  discovery of either then returns the instances of the other.
\<close>

lemma colliding_services:
  defines "a \<equiv> \<lparr>sk_namespace = ''p:q'', sk_service = ''s'', sk_version = ''v''\<rparr>" and "b \<equiv> \<lparr>sk_namespace = ''p'', sk_service = ''q:s'', sk_version = ''v''\<rparr>"
  shows "a \<noteq> b \<and> discover now a c = discover now b c"
  by (simp add: a_def b_def discover_def cat_find_def sk_key_def)

end
