(* ===== verification/JsonLib.thy ===== *)
theory JsonLib
  imports CppString
begin

text \<open>
  What the registry and the RPC classes use of the JSON library (\<^verbatim>\<open>nlohmann::json\<close>, not part of the repository): an argument of their models, with the
  behaviour they rely on as the predicate \<open>json_laws\<close>, and a small instance for which the laws are proved.
\<close>

section \<open>The interface\<close>

text \<open>\<^verbatim>\<open>json::parse_error\<close> and the other \<^verbatim>\<open>json::exception\<close>s, with the text of \<^verbatim>\<open>what()\<close>.\<close>

datatype json_exn = JParseError string | JOtherError string

fun what :: "json_exn \<Rightarrow> string" where
  "what (JParseError s) = s"
| "what (JOtherError s) = s"

text \<open>\<^verbatim>\<open>j_at\<close> is \<^verbatim>\<open>operator[]\<close> read as a value: null for a member that is absent.\<close>

record 'j json_lib =
  j_parse :: "string \<Rightarrow> json_exn + 'j"
  j_dump :: "'j \<Rightarrow> json_exn + string"
  j_null :: 'j
  j_object :: "(string \<times> 'j) list \<Rightarrow> 'j"
  j_array :: "'j list \<Rightarrow> 'j"
  j_string :: "string \<Rightarrow> 'j"
  j_int :: "int \<Rightarrow> 'j"
  j_bool :: "bool \<Rightarrow> 'j"
  j_at :: "'j \<Rightarrow> string \<Rightarrow> json_exn + 'j"
  j_contains :: "'j \<Rightarrow> string \<Rightarrow> bool"
  j_is_object :: "'j \<Rightarrow> bool"
  j_value_string :: "'j \<Rightarrow> string \<Rightarrow> string \<Rightarrow> json_exn + string"
  j_value_int :: "'j \<Rightarrow> string \<Rightarrow> int \<Rightarrow> json_exn + int"
  j_value_int64 :: "'j \<Rightarrow> string \<Rightarrow> int \<Rightarrow> json_exn + int"
  j_value_bool :: "'j \<Rightarrow> string \<Rightarrow> bool \<Rightarrow> json_exn + bool"
  j_get_string :: "'j \<Rightarrow> json_exn + string"
  j_get_string_map :: "'j \<Rightarrow> json_exn + (string \<times> string) list"
  j_items :: "'j \<Rightarrow> 'j list"

text \<open>The flow of control of a try block: the first exception ends it.\<close>

fun try_bind :: "'e + 'a \<Rightarrow> ('a \<Rightarrow> 'e + 'b) \<Rightarrow> 'e + 'b" where
  "try_bind (Inl e) f = Inl e"
| "try_bind (Inr x) f = f x"

fun try_map :: "('a \<Rightarrow> 'e + 'b) \<Rightarrow> 'a list \<Rightarrow> 'e + 'b list" where
  "try_map f [] = Inr []"
| "try_map f (x # xs) = try_bind (f x) (\<lambda>y. try_bind (try_map f xs) (\<lambda>ys. Inr (y # ys)))"

section \<open>Laws\<close>

definition json_print_law :: "('j, 'z) json_lib_scheme \<Rightarrow> bool" where
  "json_print_law J \<longleftrightarrow> (\<forall>j s. j_dump J j = Inr s \<longrightarrow> j_parse J s = Inr j)"

definition json_member_laws :: "('j, 'z) json_lib_scheme \<Rightarrow> bool" where
  "json_member_laws J \<longleftrightarrow>
     (\<forall>kvs k v. map_of kvs k = Some v \<longrightarrow> j_at J (j_object J kvs) k = Inr v) \<and>
     (\<forall>kvs k. j_contains J (j_object J kvs) k \<longleftrightarrow> map_of kvs k \<noteq> None) \<and>
     (\<forall>kvs. j_is_object J (j_object J kvs)) \<and>
     (\<forall>xs. j_items J (j_array J xs) = xs) \<and>
     (\<forall>s. j_get_string J (j_string J s) = Inr s) \<and>
     (\<forall>m. j_get_string_map J (j_object J (map (\<lambda>(k, v). (k, j_string J v)) m)) = Inr m)"

definition json_value_laws :: "('j, 'z) json_lib_scheme \<Rightarrow> bool" where
  "json_value_laws J \<longleftrightarrow>
     (\<forall>kvs k s d. map_of kvs k = Some (j_string J s) \<longrightarrow> j_value_string J (j_object J kvs) k d = Inr s) \<and>
     (\<forall>kvs k d. map_of kvs k = None \<longrightarrow> j_value_string J (j_object J kvs) k d = Inr d) \<and>
     (\<forall>kvs k i d. map_of kvs k = Some (j_int J i) \<and> - (2 ^ 31) \<le> i \<and> i < 2 ^ 31 \<longrightarrow> j_value_int J (j_object J kvs) k d = Inr i) \<and>
     (\<forall>kvs k d. map_of kvs k = None \<longrightarrow> j_value_int J (j_object J kvs) k d = Inr d) \<and>
     (\<forall>kvs k i d. map_of kvs k = Some (j_int J i) \<and> - (2 ^ 63) \<le> i \<and> i < 2 ^ 63 \<longrightarrow> j_value_int64 J (j_object J kvs) k d = Inr i) \<and>
     (\<forall>kvs k b d. map_of kvs k = Some (j_bool J b) \<longrightarrow> j_value_bool J (j_object J kvs) k d = Inr b)"

definition json_laws :: "('j, 'z) json_lib_scheme \<Rightarrow> bool" where
  "json_laws J \<longleftrightarrow> json_print_law J \<and> json_member_laws J \<and> json_value_laws J"

lemma json_dump_parse: "json_laws J \<Longrightarrow> j_dump J j = Inr s \<Longrightarrow> j_parse J s = Inr j"
  by (simp add: json_laws_def json_print_law_def)

lemma json_members:
  assumes "json_laws J"
  shows "map_of kvs k = Some v \<Longrightarrow> j_at J (j_object J kvs) k = Inr v"
    and "j_contains J (j_object J kvs) k \<longleftrightarrow> map_of kvs k \<noteq> None"
    and "j_is_object J (j_object J kvs)" and "j_items J (j_array J xs) = xs" and "j_get_string J (j_string J t) = Inr t"
    and "j_get_string_map J (j_object J (map (\<lambda>(k, v). (k, j_string J v)) m)) = Inr m"
  using assms by (simp_all add: json_laws_def json_member_laws_def)

lemma json_values:
  assumes "json_laws J"
  shows "map_of kvs k = Some (j_string J s) \<Longrightarrow> j_value_string J (j_object J kvs) k d = Inr s"
    and "map_of kvs k = None \<Longrightarrow> j_value_string J (j_object J kvs) k d = Inr d"
    and "map_of kvs k = Some (j_int J i) \<Longrightarrow> - (2 ^ 31) \<le> i \<Longrightarrow> i < 2 ^ 31 \<Longrightarrow> j_value_int J (j_object J kvs) k e = Inr i"
    and "map_of kvs k = None \<Longrightarrow> j_value_int J (j_object J kvs) k e = Inr e"
    and "map_of kvs k = Some (j_int J i) \<Longrightarrow> - (2 ^ 63) \<le> i \<Longrightarrow> i < 2 ^ 63 \<Longrightarrow> j_value_int64 J (j_object J kvs) k e = Inr i"
    and "map_of kvs k = Some (j_bool J b) \<Longrightarrow> j_value_bool J (j_object J kvs) k c = Inr b"
  using assms by (simp_all add: json_laws_def json_value_laws_def)

section \<open>An instance\<close>

text \<open>Values as trees, printed in a prefix notation; enough to show that the laws can hold together.\<close>

datatype jtree = JNull | JBool bool | JInt int | JStr string | JArr "jtree list" | JObj "(string \<times> jtree) list"

fun quote :: "string \<Rightarrow> string" where
  "quote [] = '';''"
| "quote (c # s) = CHR ''.'' # c # quote s"

fun jtree_print :: "jtree \<Rightarrow> string" where
  "jtree_print JNull = ''n''"
| "jtree_print (JBool b) = (if b then ''t'' else ''f'')"
| "jtree_print (JInt i) = (if i < 0 then ''-'' else ''+'') @ replicate (nat (abs i)) (CHR ''1'') @ '';''"
| "jtree_print (JStr s) = ''s'' @ quote s"
| "jtree_print (JArr xs) = ''['' @ concat (map jtree_print xs) @ '']''"
| "jtree_print (JObj kvs) = ''{'' @ concat (map (\<lambda>(k, v). '':'' @ quote k @ jtree_print v) kvs) @ ''}''"

fun unquote :: "string \<Rightarrow> (string \<times> string) option" where
  "unquote (c # d # s) = (if c = CHR '';'' then Some ([], d # s) else map_option (\<lambda>(x, r). (d # x, r)) (unquote s))"
| "unquote [c] = (if c = CHR '';'' then Some ([], []) else None)"
| "unquote [] = None"

fun jtree_parse :: "nat \<Rightarrow> string \<Rightarrow> (jtree \<times> string) option"
  and jtree_items :: "nat \<Rightarrow> string \<Rightarrow> (jtree list \<times> string) option"
  and jtree_members :: "nat \<Rightarrow> string \<Rightarrow> ((string \<times> jtree) list \<times> string) option" where
  "jtree_parse 0 s = None"
| "jtree_parse (Suc n) [] = None"
| "jtree_parse (Suc n) (c # s) =
     (if c = CHR ''n'' then Some (JNull, s)
      else if c = CHR ''t'' then Some (JBool True, s)
      else if c = CHR ''f'' then Some (JBool False, s)
      else if c = CHR ''+'' then Some (JInt (int (length (takeWhile (\<lambda>d. d = CHR ''1'') s))), tl (dropWhile (\<lambda>d. d = CHR ''1'') s))
      else if c = CHR ''-'' then Some (JInt (- int (length (takeWhile (\<lambda>d. d = CHR ''1'') s))), tl (dropWhile (\<lambda>d. d = CHR ''1'') s))
      else if c = CHR ''s'' then map_option (\<lambda>(x, r). (JStr x, r)) (unquote s)
      else if c = CHR ''['' then map_option (\<lambda>(xs, r). (JArr xs, r)) (jtree_items n s)
      else if c = CHR ''{'' then map_option (\<lambda>(xs, r). (JObj xs, r)) (jtree_members n s)
      else None)"
| "jtree_items 0 s = None"
| "jtree_items (Suc n) s =
     (case s of
        [] \<Rightarrow> None
      | c # r \<Rightarrow> if c = CHR '']'' then Some ([], r)
               else case jtree_parse n s of
                      None \<Rightarrow> None
                    | Some (x, r1) \<Rightarrow> map_option (\<lambda>(xs, r2). (x # xs, r2)) (jtree_items n r1))"
| "jtree_members 0 s = None"
| "jtree_members (Suc n) s =
     (case s of
        [] \<Rightarrow> None
      | c # r \<Rightarrow> if c = CHR ''}'' then Some ([], r)
               else case unquote r of
                      None \<Rightarrow> None
                    | Some (k, r1) \<Rightarrow>
                        (case jtree_parse n r1 of
                           None \<Rightarrow> None
                         | Some (x, r2) \<Rightarrow> map_option (\<lambda>(xs, r3). ((k, x) # xs, r3)) (jtree_members n r2)))"


lemma unquote_quote [simp]: "unquote (quote s @ r) = Some (s, r)"
proof (induction s)
  case Nil
  then show ?case by (cases r) auto
qed simp

lemma jtree_print_head: "\<exists>c s. jtree_print j = c # s \<and> c \<noteq> CHR '']''"
  by (cases j) auto

lemma jtree_items_print:
  assumes "\<And>x n r. x \<in> set xs \<Longrightarrow> length (jtree_print x) < n \<Longrightarrow> jtree_parse n (jtree_print x @ r) = Some (x, r)"
    and "length (concat (map jtree_print xs)) + 1 < n"
  shows "jtree_items n (concat (map jtree_print xs) @ '']'' @ r) = Some (xs, r)"
  using assms
proof (induction xs arbitrary: n)
  case Nil
  then show ?case by (cases n) auto
next
  case (Cons x xs)
  obtain c s where x: "jtree_print x = c # s" "c \<noteq> CHR '']''" using jtree_print_head by blast
  obtain m where n: "n = Suc m" using Cons.prems(2) by (cases n) auto
  have m: "length (jtree_print x) < m" "length (concat (map jtree_print xs)) + 1 < m" using Cons.prems(2) by (auto simp: n x)
  have p: "jtree_parse m (jtree_print x @ concat (map jtree_print xs) @ '']'' @ r) = Some (x, concat (map jtree_print xs) @ '']'' @ r)"
    using Cons.prems(1) [of x] m(1) by simp
  moreover have "jtree_items m (concat (map jtree_print xs) @ '']'' @ r) = Some (xs, r)" using Cons m(2) by auto
  ultimately show ?case by (simp add: n x)
qed

lemma jtree_members_print:
  assumes "\<And>k x n r. (k, x) \<in> set kvs \<Longrightarrow> length (jtree_print x) < n \<Longrightarrow> jtree_parse n (jtree_print x @ r) = Some (x, r)"
    and "length (concat (map (\<lambda>(k, v). '':'' @ quote k @ jtree_print v) kvs)) + 1 < n"
  shows "jtree_members n (concat (map (\<lambda>(k, v). '':'' @ quote k @ jtree_print v) kvs) @ ''}'' @ r) = Some (kvs, r)"
  using assms
proof (induction kvs arbitrary: n)
  case Nil
  then show ?case by (cases n) auto
next
  case (Cons kv kvs)
  obtain k x where kv: "kv = (k, x)" by (cases kv)
  define rest where "rest = concat (map (\<lambda>(k, v). '':'' @ quote k @ jtree_print v) kvs)"
  obtain m where n: "n = Suc m" using Cons.prems(2) by (cases n) auto
  have m: "length (jtree_print x) < m" "length rest + 1 < m" using Cons.prems(2) by (auto simp: n kv rest_def)
  have "jtree_parse m (jtree_print x @ rest @ ''}'' @ r) = Some (x, rest @ ''}'' @ r)"
    using Cons.prems(1) [of k x m "rest @ ''}'' @ r"] m(1) by (simp add: kv)
  moreover have "jtree_members m (rest @ ''}'' @ r) = Some (kvs, r)"
    unfolding rest_def using Cons.prems(1) m(2) by (intro Cons.IH) (auto simp: rest_def)
  ultimately show ?case by (simp add: n kv rest_def)
qed

lemma jtree_parse_print: "length (jtree_print j) < n \<Longrightarrow> jtree_parse n (jtree_print j @ r) = Some (j, r)"
proof (induction j arbitrary: n r)
  case (JInt i)
  have "takeWhile (\<lambda>d. d = CHR ''1'') (replicate k (CHR ''1'') @ CHR '';'' # r) = replicate k (CHR ''1'')"
    "dropWhile (\<lambda>d. d = CHR ''1'') (replicate k (CHR ''1'') @ CHR '';'' # r) = CHR '';'' # r" for k
    by (induction k) auto
  then show ?case using JInt by (cases n) auto
next
  case (JArr xs)
  then obtain m where n: "n = Suc m" "length (concat (map jtree_print xs)) + 1 < m" by (cases n) auto
  then show ?case using jtree_items_print [of xs m r] JArr.IH by simp
next
  case (JObj kvs)
  then obtain m where n: "n = Suc m" "length (concat (map (\<lambda>(k, v). '':'' @ quote k @ jtree_print v) kvs)) + 1 < m" by (cases n) auto
  have "jtree_parse k (jtree_print x @ q) = Some (x, q)" if "(l, x) \<in> set kvs" "length (jtree_print x) < k" for l x k q
    using JObj.IH [OF that(1), of x] that(2) by simp
  then show ?case using jtree_members_print [OF _ n(2), of r] by (simp add: n)
qed (case_tac n; simp)+

fun as_member :: "jtree \<Rightarrow> string \<Rightarrow> jtree option" where
  "as_member (JObj kvs) k = map_of kvs k"
| "as_member _ k = None"

fun as_string :: "jtree \<Rightarrow> string option" where
  "as_string (JStr s) = Some s"
| "as_string _ = None"

fun as_int :: "jtree \<Rightarrow> int option" where
  "as_int (JInt i) = Some i"
| "as_int _ = None"

fun as_bool :: "jtree \<Rightarrow> bool option" where
  "as_bool (JBool b) = Some b"
| "as_bool _ = None"

definition or_throw :: "'a option \<Rightarrow> json_exn + 'a" where
  "or_throw x = (case x of Some y \<Rightarrow> Inr y | None \<Rightarrow> Inl (JOtherError ''type_error''))"

definition jtree_value :: "(jtree \<Rightarrow> 'a option) \<Rightarrow> jtree \<Rightarrow> string \<Rightarrow> 'a \<Rightarrow> json_exn + 'a" where
  "jtree_value as j k d =
     (case j of JObj kvs \<Rightarrow> (case map_of kvs k of Some v \<Rightarrow> or_throw (as v) | None \<Rightarrow> Inr d) | _ \<Rightarrow> Inl (JOtherError ''type_error''))"

definition jtree_lib :: "jtree json_lib" where
  "jtree_lib =
     \<lparr>j_parse = (\<lambda>s. case jtree_parse (length s + 1) s of Some (j, []) \<Rightarrow> Inr j | _ \<Rightarrow> Inl (JParseError ''parse_error'')),
      j_dump = (\<lambda>j. Inr (jtree_print j)), j_null = JNull, j_object = JObj, j_array = JArr, j_string = JStr, j_int = JInt, j_bool = JBool,
      j_at = (\<lambda>j k. case j of JObj kvs \<Rightarrow> Inr (case map_of kvs k of Some v \<Rightarrow> v | None \<Rightarrow> JNull) | JNull \<Rightarrow> Inr JNull | _ \<Rightarrow> Inl (JOtherError ''type_error'')),
      j_contains = (\<lambda>j k. as_member j k \<noteq> None), j_is_object = (\<lambda>j. case j of JObj _ \<Rightarrow> True | _ \<Rightarrow> False),
      j_value_string = jtree_value as_string, j_value_int = jtree_value as_int, j_value_int64 = jtree_value as_int, j_value_bool = jtree_value as_bool,
      j_get_string = (\<lambda>j. or_throw (as_string j)),
      j_get_string_map = (\<lambda>j. case j of
          JObj kvs \<Rightarrow> or_throw (those (map (\<lambda>(k, v). map_option (Pair k) (as_string v)) kvs)) | _ \<Rightarrow> Inl (JOtherError ''type_error'')),
      j_items = (\<lambda>j. case j of JArr xs \<Rightarrow> xs | _ \<Rightarrow> [])\<rparr>"

lemma jtree_lib_laws: "json_laws jtree_lib"
proof -
  have "json_print_law jtree_lib"
    using jtree_parse_print [where r = "[]"] by (simp add: json_print_law_def jtree_lib_def)
  moreover have "those (map (\<lambda>(k, v). map_option (Pair k) (as_string v)) (map (\<lambda>(k, v). (k, JStr v)) m)) = Some m" for m :: "(string \<times> string) list"
    by (induction m) auto
  then have "json_member_laws jtree_lib" by (simp add: json_member_laws_def jtree_lib_def or_throw_def)
  moreover have "json_value_laws jtree_lib" by (simp add: json_value_laws_def jtree_lib_def jtree_value_def or_throw_def)
  ultimately show ?thesis by (simp add: json_laws_def)
qed

end
