(* ===== verification/RegistryModel.thy ===== *)
theory RegistryModel
  imports CatalogModel JsonLib HttpServerModel
begin

text \<open>
  \<^verbatim>\<open>src/registry/RegistryServer.h\<close> and the JSON forms of \<^verbatim>\<open>ServiceMeta.h\<close>: the handlers of the registry over the catalog of \<^verbatim>\<open>CatalogModel\<close>, and their
  registration in the HTTP server.  The JSON library is an argument, the clock is part of the world of the handlers.
\<close>

section \<open>JSON forms\<close>

definition key_toJson :: "('j, 'z) json_lib_scheme \<Rightarrow> service_key \<Rightarrow> 'j" where
  "key_toJson J k =
     j_object J [(''namespace'', j_string J (sk_namespace k)), (''serviceName'', j_string J (sk_service k)), (''version'', j_string J (sk_version k))]"

definition key_fromJson :: "('j, 'z) json_lib_scheme \<Rightarrow> 'j \<Rightarrow> json_exn + service_key" where
  "key_fromJson J j =
     try_bind (j_value_string J j ''namespace'' ''default'') (\<lambda>ns.
     try_bind (j_value_string J j ''serviceName'' []) (\<lambda>nm.
     try_bind (j_value_string J j ''version'' ''v1.0.0'') (\<lambda>ver.
     Inr \<lparr>sk_namespace = ns, sk_service = nm, sk_version = ver\<rparr>)))"

definition meta_toJson :: "('j, 'z) json_lib_scheme \<Rightarrow> instance_meta \<Rightarrow> 'j" where
  "meta_toJson J m =
     j_object J
       ([(''instanceId'', j_string J (im_id m)), (''host'', j_string J (im_host m)), (''port'', j_int J (im_port m)),
         (''weight'', j_int J (im_weight m)), (''lastHeartbeatMs'', j_int J (im_lastHeartbeatMs m)), (''ttlSeconds'', j_int J (im_ttlSeconds m)),
         (''status'', j_string J (im_status m))] @
        (if im_metadata m \<noteq> [] then [(''metadata'', j_object J (map (\<lambda>(k, v). (k, j_string J v)) (im_metadata m)))] else []))"

definition meta_fromJson :: "('j, 'z) json_lib_scheme \<Rightarrow> int \<Rightarrow> 'j \<Rightarrow> json_exn + instance_meta" where
  "meta_fromJson J now j =
     try_bind (j_value_string J j ''instanceId'' []) (\<lambda>i.
     try_bind (j_value_string J j ''host'' []) (\<lambda>h.
     try_bind (j_value_int J j ''port'' 0) (\<lambda>p.
     try_bind (j_value_int J j ''weight'' 1) (\<lambda>w.
     try_bind (j_value_int64 J j ''lastHeartbeatMs'' now) (\<lambda>l.
     try_bind (j_value_int J j ''ttlSeconds'' 30) (\<lambda>t.
     try_bind (j_value_string J j ''status'' ''UP'') (\<lambda>s.
     try_bind (if j_contains J j ''metadata''
               then try_bind (j_at J j ''metadata'') (\<lambda>md. if j_is_object J md then j_get_string_map J md else Inr [])
               else Inr []) (\<lambda>md.
     Inr \<lparr>im_id = i, im_host = h, im_port = p, im_weight = w, im_lastHeartbeatMs = l, im_ttlSeconds = t, im_status = s, im_metadata = md\<rparr>))))))))"

section \<open>Handlers\<close>

text \<open>
  A handler answers with a response or with an exception that leaves it (the HTTP server does not catch it), and with the catalog.
\<close>

type_synonym handled = "(json_exn + http_response) \<times> catalog"

definition makeError :: "('j, 'z) json_lib_scheme \<Rightarrow> int \<Rightarrow> string \<Rightarrow> json_exn + string" where
  "makeError J code message =
     j_dump J (j_object J [(''success'', j_bool J False), (''error'', j_object J [(''code'', j_int J code), (''message'', j_string J message)])])"

definition send_json :: "json_exn + string \<Rightarrow> http_response \<Rightarrow> json_exn + http_response" where
  "send_json text resp = try_bind text (\<lambda>s. Inr (setJson s resp))"

definition generateInstanceId :: "int \<Rightarrow> service_key \<Rightarrow> instance_meta \<Rightarrow> string" where
  "generateInstanceId now key m =
     sk_service key @ ''-'' @ im_host m @ ''-'' @ int_to_string (im_port m) @ ''-'' @ int_to_string now"

definition register_args :: "('j, 'z) json_lib_scheme \<Rightarrow> int \<Rightarrow> string \<Rightarrow> json_exn + service_key \<times> instance_meta" where
  "register_args J now text =
     try_bind (j_parse J text) (\<lambda>body.
     try_bind (j_at J body ''service'') (\<lambda>s.
     try_bind (key_fromJson J s) (\<lambda>key.
     try_bind (j_at J body ''instance'') (\<lambda>i.
     try_bind (meta_fromJson J now i) (\<lambda>m.
     Inr (key, if im_id m = [] then m\<lparr>im_id := generateInstanceId now key m\<rparr> else m))))))"

definition handleRegister :: "('j, 'z) json_lib_scheme \<Rightarrow> int \<Rightarrow> http_request \<Rightarrow> http_response \<Rightarrow> catalog \<Rightarrow> handled" where
  "handleRegister J now req resp c =
     (case register_args J now (body req) of
        Inl e \<Rightarrow> (send_json (makeError J (-32700) (''Parse error: '' @ what e)) resp, c)
      | Inr (key, m) \<Rightarrow>
          (let m1 = im_heartbeat now m;
               c1 = snd (registerInstance now key m1 c) in
           case j_dump J (j_object J [(''success'', j_bool J True), (''instanceId'', j_string J (im_id m1))]) of
             Inr s \<Rightarrow> (Inr (setJson s resp), c1)
           | Inl e \<Rightarrow> (send_json (makeError J (-32700) (''Parse error: '' @ what e)) resp, c1)))"

definition instance_args :: "('j, 'z) json_lib_scheme \<Rightarrow> string \<Rightarrow> json_exn + service_key \<times> string" where
  "instance_args J text =
     try_bind (j_parse J text) (\<lambda>body.
     try_bind (j_at J body ''service'') (\<lambda>s.
     try_bind (key_fromJson J s) (\<lambda>key.
     try_bind (j_value_string J body ''instanceId'' []) (\<lambda>i. Inr (key, i)))))"

text \<open>Deregistration and heartbeat differ in the operation of the catalog.\<close>

definition instance_handler ::
  "('j, 'z) json_lib_scheme \<Rightarrow> (service_key \<Rightarrow> string \<Rightarrow> catalog \<Rightarrow> bool \<times> catalog) \<Rightarrow> http_request \<Rightarrow> http_response \<Rightarrow> catalog \<Rightarrow> handled" where
  "instance_handler J operation req resp c =
     (case instance_args J (body req) of
        Inl e \<Rightarrow> (send_json (makeError J (-32700) ''Parse error'') resp, c)
      | Inr (key, i) \<Rightarrow>
          if i = [] then
            (case makeError J (-32602) ''Missing instanceId'' of
               Inr s \<Rightarrow> (Inr (setJson s resp), c)
             | Inl e \<Rightarrow> (send_json (makeError J (-32700) ''Parse error'') resp, c))
          else
            (let (success, c1) = operation key i c in
             case j_dump J (j_object J [(''success'', j_bool J success)]) of
               Inr s \<Rightarrow> (Inr (setJson s resp), c1)
             | Inl e \<Rightarrow> (send_json (makeError J (-32700) ''Parse error'') resp, c1)))"

definition handleDeregister :: "('j, 'z) json_lib_scheme \<Rightarrow> http_request \<Rightarrow> http_response \<Rightarrow> catalog \<Rightarrow> handled" where
  "handleDeregister J = instance_handler J deregisterInstance"

definition handleHeartbeat :: "('j, 'z) json_lib_scheme \<Rightarrow> int \<Rightarrow> http_request \<Rightarrow> http_response \<Rightarrow> catalog \<Rightarrow> handled" where
  "handleHeartbeat J now = instance_handler J (cat_heartbeat now)"

definition getQueryParam :: "string \<Rightarrow> string \<Rightarrow> string \<Rightarrow> string" where
  "getQueryParam p param defaultValue =
     (case find_char (CHR ''?'') p 0 of
        None \<Rightarrow> defaultValue
      | Some queryPos \<Rightarrow>
          (let q = substr_from p (queryPos + 1);
               searchKey = param @ ''='' in
           case find_str searchKey q 0 of
             None \<Rightarrow> defaultValue
           | Some startPos \<Rightarrow>
               (let start = startPos + length searchKey in
                case find_char (CHR ''&'') q start of
                  None \<Rightarrow> substr_from q start
                | Some endPos \<Rightarrow> substr q start (endPos - start))))"

definition service_json :: "('j, 'z) json_lib_scheme \<Rightarrow> service_key \<Rightarrow> instance_meta list \<Rightarrow> (string \<times> 'j) list" where
  "service_json J key ms = [(''service'', key_toJson J key), (''instances'', j_array J (map (meta_toJson J) ms))]"

definition handleDiscover :: "('j, 'z) json_lib_scheme \<Rightarrow> int \<Rightarrow> http_request \<Rightarrow> http_response \<Rightarrow> catalog \<Rightarrow> handled" where
  "handleDiscover J now req resp c =
     (let ns = getQueryParam (path req) ''namespace'' ''default'';
          serviceName = getQueryParam (path req) ''serviceName'' [];
          ver = getQueryParam (path req) ''version'' ''v1.0.0'';
          key = \<lparr>sk_namespace = ns, sk_service = serviceName, sk_version = ver\<rparr> in
      case (if serviceName = [] then makeError J (-32602) ''Missing serviceName''
            else j_dump J (j_object J ((''success'', j_bool J True) # service_json J key (discover now key c)))) of
        Inr s \<Rightarrow> (Inr (setJson s resp), c)
      | Inl e \<Rightarrow> (send_json (makeError J (-32603) ''Internal error'') resp, c))"

definition handleGetAllServices :: "('j, 'z) json_lib_scheme \<Rightarrow> http_request \<Rightarrow> http_response \<Rightarrow> catalog \<Rightarrow> handled" where
  "handleGetAllServices J req resp c =
     (send_json (j_dump J (j_object J [(''success'', j_bool J True),
        (''services'', j_array J (map (\<lambda>(key, ms). j_object J (service_json J key ms)) (getAllServices c)))])) resp, c)"

definition handleGetStats :: "('j, 'z) json_lib_scheme \<Rightarrow> int \<Rightarrow> http_request \<Rightarrow> http_response \<Rightarrow> catalog \<Rightarrow> handled" where
  "handleGetStats J now req resp c =
     (let stats = getStats now c in
      (send_json (j_dump J (j_object J [(''success'', j_bool J True),
        (''stats'', j_object J [(''totalServices'', j_int J (int (totalServices stats))), (''totalInstances'', j_int J (int (totalInstances stats))),
           (''healthyInstances'', j_int J (int (healthyInstances stats))), (''expiredInstances'', j_int J (int (expiredInstances stats)))])])) resp, c))"

section \<open>Routes\<close>

text \<open>The world of the handlers: the clock, the catalog, and an exception that left a handler.\<close>

record registry_world =
  rw_now :: int
  rw_catalog :: catalog
  rw_uncaught :: "json_exn option"

definition registry_handler :: "(int \<Rightarrow> http_request \<Rightarrow> http_response \<Rightarrow> catalog \<Rightarrow> handled) \<Rightarrow> registry_world handler" where
  "registry_handler h req resp w =
     (case h (rw_now w) req resp (rw_catalog w) of
        (Inr r, c) \<Rightarrow> (r, w\<lparr>rw_catalog := c\<rparr>)
      | (Inl e, c) \<Rightarrow> (resp, w\<lparr>rw_catalog := c, rw_uncaught := Some e\<rparr>))"

definition handleHealth :: "http_request \<Rightarrow> http_response \<Rightarrow> catalog \<Rightarrow> handled" where
  "handleHealth req resp c = (Inr (setJson ''{\"status\":\"UP\"}'' resp), c)"

definition registerHandlers :: "('j, 'z) json_lib_scheme \<Rightarrow> registry_world route list" where
  "registerHandlers J =
     [\<lparr>route_method = POST, pattern = ''/api/v1/registry/register'', route_handler = registry_handler (handleRegister J)\<rparr>,
      \<lparr>route_method = POST, pattern = ''/api/v1/registry/deregister'', route_handler = registry_handler (\<lambda>_. handleDeregister J)\<rparr>,
      \<lparr>route_method = POST, pattern = ''/api/v1/registry/heartbeat'', route_handler = registry_handler (handleHeartbeat J)\<rparr>,
      \<lparr>route_method = GET, pattern = ''/api/v1/registry/discover'', route_handler = registry_handler (handleDiscover J)\<rparr>,
      \<lparr>route_method = GET, pattern = ''/api/v1/registry/services'', route_handler = registry_handler (\<lambda>_. handleGetAllServices J)\<rparr>,
      \<lparr>route_method = GET, pattern = ''/api/v1/registry/health'', route_handler = registry_handler (\<lambda>_. handleHealth)\<rparr>,
      \<lparr>route_method = GET, pattern = ''/api/v1/registry/stats'', route_handler = registry_handler (handleGetStats J)\<rparr>]"

definition registry_core :: "(string \<Rightarrow> bool) \<Rightarrow> ('j, 'z) json_lib_scheme \<Rightarrow> registry_world http_core option" where
  "registry_core regex_ok J = register_all regex_ok (registerHandlers J) HttpCore_new"


section \<open>Printing and reading\<close>

text \<open>The values that the integers of the instance can take in C++.\<close>

definition int_range :: "nat \<Rightarrow> int \<Rightarrow> bool" where
  "int_range w i \<longleftrightarrow> - (2 ^ w) \<le> i \<and> i < 2 ^ w"

definition meta_ok :: "instance_meta \<Rightarrow> bool" where
  "meta_ok m \<longleftrightarrow> int_range 31 (im_port m) \<and> int_range 31 (im_weight m) \<and> int_range 31 (im_ttlSeconds m) \<and> int_range 63 (im_lastHeartbeatMs m)"

lemma key_json_roundtrip: "json_laws J \<Longrightarrow> key_fromJson J (key_toJson J k) = Inr k"
  by (simp add: key_fromJson_def key_toJson_def json_values)

lemma meta_json_roundtrip:
  assumes "json_laws J" and "meta_ok m"
  shows "meta_fromJson J now (meta_toJson J m) = Inr m"
proof -
  note r = assms(2) [unfolded meta_ok_def int_range_def]
  show ?thesis
  proof (cases "im_metadata m = []")
    case True
    then show ?thesis using r by (simp add: meta_fromJson_def meta_toJson_def json_values [OF assms(1)] json_members [OF assms(1)])
  next
    case False
    then show ?thesis using r
      by (simp add: meta_fromJson_def meta_toJson_def json_values [OF assms(1)] json_members [OF assms(1)])
  qed
qed

section \<open>Dispatch\<close>

lemma registry_paths_exact:
  "isExactPath ''/api/v1/registry/register''" "isExactPath ''/api/v1/registry/deregister''" "isExactPath ''/api/v1/registry/heartbeat''"
  "isExactPath ''/api/v1/registry/discover''" "isExactPath ''/api/v1/registry/services''" "isExactPath ''/api/v1/registry/health''"
  "isExactPath ''/api/v1/registry/stats''"
  by code_simp+

lemma find_rev_distinct: "distinct (map f xs) \<Longrightarrow> find (\<lambda>x. f x = k) (rev xs) = find (\<lambda>x. f x = k) xs"
proof (induction xs)
  case (Cons x xs)
  have "find (\<lambda>y. f y = k) xs = None" if "f x = k" using that Cons.prems by (auto simp: find_None_iff image_iff dest: sym)
  with Cons show ?case by (auto simp: find_append split: option.splits)
qed simp

lemma registry_core_some: "\<exists>cor. registry_core regex_ok J = Some cor"
  by (simp add: registry_core_def registerHandlers_def addRoute_def registry_paths_exact)

lemma registry_dispatch:
  assumes "registry_core regex_ok J = Some cor"
  shows "exact_handler cor req = map_option route_handler (find (\<lambda>r. pattern r = path req \<and> route_method r = req_method req) (registerHandlers J))"
    and "middlewares cor = []" "\<not> gzipEnabled cor"
proof -
  note t = register_all_table [OF assms [unfolded registry_core_def], of req]
  have p: "isExactPath (pattern r)" if "r \<in> set (registerHandlers J)" for r
    using that by (auto simp: registerHandlers_def registry_paths_exact)
  have "find (exact_match req) (rev (registerHandlers J)) = find (\<lambda>r. (pattern r, route_method r) = (path req, req_method req)) (rev (registerHandlers J))"
    by (rule find_cong) (auto simp: exact_match_def p)
  also have "\<dots> = find (\<lambda>r. (pattern r, route_method r) = (path req, req_method req)) (registerHandlers J)"
    by (rule find_rev_distinct) (simp add: registerHandlers_def)
  finally have "find (exact_match req) (rev (registerHandlers J)) =
      find (\<lambda>r. pattern r = path req \<and> route_method r = req_method req) (registerHandlers J)"
    by simp
  then show "exact_handler cor req = map_option route_handler (find (\<lambda>r. pattern r = path req \<and> route_method r = req_method req) (registerHandlers J))"
    using t by (simp add: exact_handler_def HttpCore_new_def split: option.splits)
  show "middlewares cor = []" using t by (simp add: HttpCore_new_def)
  show "\<not> gzipEnabled cor" using assms
    by (auto simp: registry_core_def registerHandlers_def addRoute_def registry_paths_exact HttpCore_new_def)
qed

text \<open>What the server of the registry answers to a request for one of its routes.\<close>

lemma registry_respond:
  assumes "registry_core regex_ok J = Some cor"
    and "find (\<lambda>r. pattern r = path req \<and> route_method r = req_method req) (registerHandlers J) = Some r"
    and "route_handler r = registry_handler h" and "h (rw_now w) req HttpResponse_new (rw_catalog w) = (Inr resp, c)"
  shows "respond env cor req w = (resp, w\<lparr>rw_catalog := c\<rparr>, [])"
  using assms registry_dispatch [OF assms(1)]
  by (simp add: respond_def handleRequest_def postProcessResponse_def registry_handler_def)

section \<open>Discovery looks in the wrong place\<close>

lemma getQueryParam_no_query: "CHR ''?'' \<notin> set p \<Longrightarrow> getQueryParam p param d = d"
  by (simp add: getQueryParam_def)

end
