(* ===== verification/RegistryClientModel.thy ===== *)
theory RegistryClientModel
  imports RegistryModel LoadBalance
begin

text \<open>
  \<^verbatim>\<open>src/registry/RegistryClient.h\<close>: the blocking HTTP client and the calls of the registry client, composed with the server of \<^verbatim>\<open>RegistryModel\<close>.  What the
  system answers on one connection (socket, address, connect, send, recv) is a record; a call that waits for ever has the outcome \<open>Blocks\<close>.
\<close>

section \<open>One connection\<close>

text \<open>The answers of \<^verbatim>\<open>send\<close>: bytes taken, an error after which the loop goes on, any other error.\<close>

datatype send_answer = Sent nat | SendRetry | SendFail

record tcp_session =
  ts_socket :: bool
  ts_address :: bool
  ts_connect :: bool
  ts_sends :: "send_answer list"
  ts_recvs :: "string list"

datatype 'a call_result = Returns 'a | Throws json_exn | Blocks

text \<open>The bytes sent, and whether all were sent; \<open>None\<close> when the answers end before.\<close>

fun send_loop :: "send_answer list \<Rightarrow> string \<Rightarrow> string \<times> bool option" where
  "send_loop as [] = ([], Some True)"
| "send_loop [] rest = ([], None)"
| "send_loop (SendFail # as) rest = ([], Some False)"
| "send_loop (SendRetry # as) rest = send_loop as rest"
| "send_loop (Sent n # as) rest = (let (sent, r) = send_loop as (drop n rest) in (take n rest @ sent, r))"

text \<open>\<^verbatim>\<open>response += buffer\<close> appends a C string: what follows a NUL byte of the same read is lost.\<close>

definition recv_all :: "string list \<Rightarrow> string" where
  "recv_all bufs = concat (map c_str bufs)"

section \<open>The blocking HTTP client\<close>

record simple_response =
  sr_status :: int
  sr_body :: string
  sr_success :: bool

definition failed :: "string \<Rightarrow> simple_response" where
  "failed msg = \<lparr>sr_status = 0, sr_body = msg, sr_success = False\<rparr>"

text \<open>\<^verbatim>\<open>%d\<close> of \<^verbatim>\<open>sscanf\<close>: blanks, a sign, digits; the value is cut to 32 bits.\<close>

definition scan_int :: "string \<Rightarrow> (int \<times> string) option" where
  "scan_int s =
     (let (neg, u) = strip_sign (dropWhile is_space s);
          ds = takeWhile is_digit u;
          v = (if neg then - int (digits_value ds) else int (digits_value ds))
      in if ds = [] then None else Some (sint (word_of_int v :: u32), dropWhile is_digit u))"

definition scan_status :: "string \<Rightarrow> int option" where
  "scan_status line =
     (if \<not> starts_with ''HTTP/1.'' line then None
      else case scan_int (drop 7 line) of None \<Rightarrow> None | Some (_, rest) \<Rightarrow> map_option fst (scan_int rest))"

definition parse_reply :: "string \<Rightarrow> simple_response" where
  "parse_reply response =
     (case find_str (CRLF @ CRLF) response 0 of
        None \<Rightarrow> failed ''Invalid HTTP response''
      | Some headerEnd \<Rightarrow>
          (let statusLine = (case find_str CRLF response 0 of Some e \<Rightarrow> substr response 0 e | None \<Rightarrow> response) in
           case scan_status statusLine of
             None \<Rightarrow> failed ''Invalid status line''
           | Some code \<Rightarrow> \<lparr>sr_status = code, sr_body = substr_from response (headerEnd + 4), sr_success = 200 \<le> code \<and> code < 300\<rparr>))"

definition simple_exchange :: "tcp_session \<Rightarrow> string \<Rightarrow> string \<times> simple_response option" where
  "simple_exchange s msg =
     (if \<not> ts_socket s then ([], Some (failed ''Socket creation failed''))
      else if \<not> ts_address s then ([], Some (failed ''Invalid address''))
      else if \<not> ts_connect s then ([], Some (failed ''Connection failed''))
      else case send_loop (ts_sends s) msg of
             (sent, None) \<Rightarrow> (sent, None)
           | (sent, Some False) \<Rightarrow> (sent, Some (failed ''Send failed''))
           | (sent, Some True) \<Rightarrow> (sent, Some (parse_reply (recv_all (ts_recvs s)))))"

definition post_request :: "string \<Rightarrow> string \<Rightarrow> string \<Rightarrow> string \<Rightarrow> string" where
  "post_request host pth bdy contentType =
     ''POST '' @ pth @ '' HTTP/1.1'' @ CRLF @ ''Host: '' @ host @ CRLF @ ''Content-Type: '' @ contentType @ CRLF @
     ''Content-Length: '' @ to_string (length bdy) @ CRLF @ ''Connection: close'' @ CRLF @ CRLF @ bdy"

definition get_request :: "string \<Rightarrow> string \<Rightarrow> string" where
  "get_request host pth = ''GET '' @ pth @ '' HTTP/1.1'' @ CRLF @ ''Host: '' @ host @ CRLF @ ''Connection: close'' @ CRLF @ CRLF"

definition simple_post :: "tcp_session \<Rightarrow> string \<Rightarrow> string \<Rightarrow> string \<Rightarrow> string \<times> simple_response option" where
  "simple_post s host pth bdy = simple_exchange s (post_request host pth bdy ''application/json'')"

definition simple_get :: "tcp_session \<Rightarrow> string \<Rightarrow> string \<Rightarrow> string \<times> simple_response option" where
  "simple_get s host pth = simple_exchange s (get_request host pth)"

section \<open>The registry client\<close>

text \<open>What a call makes of the response, if it gets one.\<close>

fun on_response :: "(simple_response \<Rightarrow> 'a) \<Rightarrow> string \<times> simple_response option \<Rightarrow> string \<times> 'a call_result" where
  "on_response f (sent, None) = (sent, Blocks)"
| "on_response f (sent, Some r) = (sent, Returns (f r))"

definition register_body :: "('j, 'z) json_lib_scheme \<Rightarrow> service_key \<Rightarrow> instance_meta \<Rightarrow> 'j" where
  "register_body J key m = j_object J [(''service'', key_toJson J key), (''instance'', meta_toJson J m)]"

definition registerService ::
  "('j, 'z) json_lib_scheme \<Rightarrow> tcp_session \<Rightarrow> string \<Rightarrow> service_key \<Rightarrow> instance_meta \<Rightarrow> string \<times> (bool \<times> string option) call_result" where
  "registerService J s host key m =
     (case j_dump J (register_body J key m) of
        Inl e \<Rightarrow> ([], Throws e)
      | Inr b \<Rightarrow> on_response (\<lambda>resp.
          if \<not> sr_success resp then (False, None)
          else case try_bind (j_parse J (sr_body resp)) (\<lambda>result.
                 try_bind (j_value_bool J result ''success'' False) (\<lambda>ok.
                 if ok then try_bind (j_value_string J result ''instanceId'' []) (\<lambda>i. Inr (True, Some i)) else Inr (False, None))) of
               Inr r \<Rightarrow> r
             | Inl e \<Rightarrow> (False, None)) (simple_post s host ''/api/v1/registry/register'' b))"

definition instance_body :: "('j, 'z) json_lib_scheme \<Rightarrow> service_key \<Rightarrow> string \<Rightarrow> 'j" where
  "instance_body J key i = j_object J [(''service'', key_toJson J key), (''instanceId'', j_string J i)]"

definition success_of :: "('j, 'z) json_lib_scheme \<Rightarrow> simple_response \<Rightarrow> bool" where
  "success_of J resp =
     (if \<not> sr_success resp then False
      else case try_bind (j_parse J (sr_body resp)) (\<lambda>result. j_value_bool J result ''success'' False) of Inr b \<Rightarrow> b | Inl e \<Rightarrow> False)"

definition instance_request ::
  "string \<Rightarrow> ('j, 'z) json_lib_scheme \<Rightarrow> tcp_session \<Rightarrow> string \<Rightarrow> service_key \<Rightarrow> string \<Rightarrow> string \<times> bool call_result" where
  "instance_request pth J s host key i =
     (case j_dump J (instance_body J key i) of
        Inl e \<Rightarrow> ([], Throws e)
      | Inr b \<Rightarrow> on_response (success_of J) (simple_post s host pth b))"

definition deregisterService :: "('j, 'z) json_lib_scheme \<Rightarrow> tcp_session \<Rightarrow> string \<Rightarrow> service_key \<Rightarrow> string \<Rightarrow> string \<times> bool call_result" where
  "deregisterService = instance_request ''/api/v1/registry/deregister''"

definition sendHeartbeat :: "('j, 'z) json_lib_scheme \<Rightarrow> tcp_session \<Rightarrow> string \<Rightarrow> service_key \<Rightarrow> string \<Rightarrow> string \<times> bool call_result" where
  "sendHeartbeat = instance_request ''/api/v1/registry/heartbeat''"

text \<open>The instances read before the first one that throws.\<close>

fun read_metas :: "('j, 'z) json_lib_scheme \<Rightarrow> int \<Rightarrow> 'j list \<Rightarrow> instance_meta list" where
  "read_metas J now [] = []"
| "read_metas J now (j # js) = (case meta_fromJson J now j of Inl e \<Rightarrow> [] | Inr m \<Rightarrow> m # read_metas J now js)"

definition discover_path :: "service_key \<Rightarrow> string" where
  "discover_path key =
     ''/api/v1/registry/discover?namespace='' @ sk_namespace key @ ''&serviceName='' @ sk_service key @ ''&version='' @ sk_version key"

definition discovered :: "('j, 'z) json_lib_scheme \<Rightarrow> int \<Rightarrow> simple_response \<Rightarrow> instance_meta list" where
  "discovered J now resp =
     (if \<not> sr_success resp then []
      else case try_bind (j_parse J (sr_body resp)) (\<lambda>result.
             try_bind (j_value_bool J result ''success'' False) (\<lambda>ok.
             if ok \<and> j_contains J result ''instances'' then try_bind (j_at J result ''instances'') (\<lambda>js. Inr (read_metas J now (j_items J js)))
             else Inr [])) of
           Inr ms \<Rightarrow> ms | Inl e \<Rightarrow> [])"

definition discoverService ::
  "('j, 'z) json_lib_scheme \<Rightarrow> int \<Rightarrow> tcp_session \<Rightarrow> string \<Rightarrow> service_key \<Rightarrow> string \<times> instance_meta list call_result" where
  "discoverService J now s host key = on_response (discovered J now) (simple_get s host (discover_path key))"

definition choose_instance :: "(nat \<Rightarrow> nat \<Rightarrow> nat) \<Rightarrow> strategy \<Rightarrow> instance_meta list \<Rightarrow> instance_meta option" where
  "choose_instance draw strat ms =
     (if ms = [] then None
      else let balancer = fold (\<lambda>m. addServer (im_host m) (im_port m) (im_weight m)) ms (LoadBalancer_new strat);
               (selected, balancer1) = lb_select draw balancer in
        case selected of
          None \<Rightarrow> None
        | Some i \<Rightarrow> find (\<lambda>m. im_host m = bs_host (lb_store balancer1 i) \<and> im_port m = bs_port (lb_store balancer1 i)) ms)"

definition selectInstance ::
  "('j, 'z) json_lib_scheme \<Rightarrow> int \<Rightarrow> (nat \<Rightarrow> nat \<Rightarrow> nat) \<Rightarrow> strategy \<Rightarrow> tcp_session \<Rightarrow> string \<Rightarrow> service_key \<Rightarrow> string \<times> instance_meta option call_result" where
  "selectInstance J now draw strat s host key =
     on_response (choose_instance draw strat \<circ> discovered J now) (simple_get s host (discover_path key))"

definition isRegistryHealthy :: "tcp_session \<Rightarrow> string \<Rightarrow> string \<times> bool call_result" where
  "isRegistryHealthy s host = on_response (\<lambda>resp. sr_success resp \<and> sr_status resp = 200) (simple_get s host ''/api/v1/registry/health'')"


section \<open>Sending and receiving\<close>

lemma send_loop_all: "snd (send_loop as msg) = Some True \<Longrightarrow> fst (send_loop as msg) = msg"
  by (induction as msg rule: send_loop.induct) (auto simp: Let_def split: prod.splits)

definition session_ok :: "tcp_session \<Rightarrow> string \<Rightarrow> bool" where
  "session_ok s msg \<longleftrightarrow> ts_socket s \<and> ts_address s \<and> ts_connect s \<and> snd (send_loop (ts_sends s) msg) = Some True"

lemma simple_exchange_ok: "session_ok s msg \<Longrightarrow> simple_exchange s msg = (msg, Some (parse_reply (recv_all (ts_recvs s))))"
  using send_loop_all [of "ts_sends s" msg] by (auto simp: session_ok_def simple_exchange_def split: prod.splits)

lemma c_str_clean: "CHR 0x00 \<notin> set b \<Longrightarrow> c_str b = b"
  by (auto simp: c_str_def takeWhile_eq_all_conv)

lemma recv_all_clean: "CHR 0x00 \<notin> set (concat bufs) \<Longrightarrow> recv_all bufs = concat bufs"
  by (induction bufs) (auto simp: recv_all_def c_str_clean)

text \<open>What the server sends for the bytes of a request that arrive together, and the world after it.\<close>

definition serve_bytes :: "server_env \<Rightarrow> 'w http_core \<Rightarrow> string \<Rightarrow> 'w \<Rightarrow> string \<times> 'w" where
  "serve_bytes env cor msg w =
     (let (buf, w1, cs, es) = server_loop env cor (Buffer_append (Buffer_new kInitialSize) msg) w in (concat (map call_bytes cs), w1))"

definition json_reply :: "string \<Rightarrow> bool \<Rightarrow> http_response" where
  "json_reply t close = (setJson t HttpResponse_new)\<lparr>closeConnection := close\<rparr>"

lemma json_reply_headers: "resp_headers (json_reply t cl) = [''Content-Type'' \<mapsto> ''application/json'', ''Content-Length'' \<mapsto> to_string (length t)]"
  by (simp add: json_reply_def setJson_def setBody_def setContentLength_def setContentType_def HttpResponse_new_def)

lemma json_reply_values:
  "resp_body (json_reply t cl) = t" "statusCode (json_reply t cl) = OK" "statusMessage (json_reply t cl) = ''OK''" "\<not> chunked (json_reply t cl)"
  "\<not> hasFileBody (json_reply t cl)" "\<not> deferred (json_reply t cl)" "closeConnection (json_reply t cl) = cl"
  by (simp_all add: json_reply_def setJson_def setBody_def setContentLength_def setContentType_def HttpResponse_new_def hasFileBody_def)

lemma json_reply_fields:
  assumes "enumerates hs (resp_headers (json_reply t cl))"
  shows "list_all field_ok hs"
proof -
  have m: "map_of hs = [''Content-Type'' \<mapsto> ''application/json'', ''Content-Length'' \<mapsto> to_string (length t)]" and d: "distinct (map fst hs)"
    using assms by (simp_all add: enumerates_def json_reply_headers)
  have "field_ok kv" if "kv \<in> set hs" for kv
  proof -
    obtain k v where kv: "kv = (k, v)" by (cases kv)
    then have "map_of hs k = Some v" using d that by simp
    then show ?thesis by (auto simp: m kv field_ok_def split: if_splits)
  qed
  then show ?thesis by (simp add: list_all_iff)
qed

lemma printed_status: "scan_status (response_line (json_reply t cl)) = Some 200"
proof -
  have "response_line (json_reply t cl) = ''HTTP/1.1 200 OK''"
    by (simp add: response_line_def json_reply_values to_string.simps) code_simp
  then show ?thesis by (simp only:) code_simp
qed

lemma printed_reply_split:
  assumes "enumerates hs (resp_headers (json_reply t cl))"
  defines "h \<equiv> join_lines (response_line (json_reply t cl) # map field_line (response_fields hs (json_reply t cl)))"
  shows "toString hs (json_reply t cl) = h @ CRLF @ CRLF @ t" and "index_sub (CRLF @ CRLF) (h @ CRLF @ CRLF @ t) = Some (length h)"
proof -
  show "toString hs (json_reply t cl) = h @ CRLF @ CRLF @ t" by (simp add: toString_lines json_reply_values h_def)
  have "list_all field_ok (response_fields hs (json_reply t cl))"
    using json_reply_fields [OF assms(1)] by (auto simp: response_fields_def field_ok_def)
  moreover have "line_ok (response_line (json_reply t cl))" by (simp add: line_ok_def response_line_def json_reply_values)
  ultimately show "index_sub (CRLF @ CRLF) (h @ CRLF @ CRLF @ t) = Some (length h)"
    using blank_line_found [of "response_line (json_reply t cl) # map field_line (response_fields hs (json_reply t cl))" t]
    by (simp add: h_def fields_lines_ok)
qed

lemma parse_reply_printed:
  assumes "enumerates hs (resp_headers (json_reply t cl))"
  shows "parse_reply (toString hs (json_reply t cl)) = \<lparr>sr_status = 200, sr_body = t, sr_success = True\<rparr>"
proof -
  define l where "l = response_line (json_reply t cl)"
  define fs where "fs = map field_line (response_fields hs (json_reply t cl))"
  define h where "h = join_lines (l # fs)"
  note s = printed_reply_split [OF assms, folded l_def, folded fs_def, folded h_def]
  have "CR \<notin> set l" by (simp add: l_def response_line_def json_reply_values)
  moreover have "h = l @ CRLF @ join_lines fs" unfolding h_def by (rule join_lines_Cons) (simp add: fs_def response_fields_def)
  ultimately have f: "find_str CRLF (h @ CRLF @ CRLF @ t) 0 = Some (length l)" "substr (h @ CRLF @ CRLF @ t) 0 (length l) = l"
    by (simp_all add: substr_def)
  have b: "substr_from (h @ CRLF @ CRLF @ t) (length h + 4) = t" by (simp add: substr_from_def eval_nat_numeral)
  have i: "find_str (CRLF @ CRLF) (h @ CRLF @ CRLF @ t) 0 = Some (length h)" using s(2) by simp
  show ?thesis
    unfolding s(1) parse_reply_def i option.case f Let_def printed_status [of t cl, folded l_def] b by simp
qed

text \<open>One request, answered with JSON by a handler.\<close>

lemma serve_bytes_json:
  assumes "clean_fields meth pth fs bdy" and "respond env cor (fields_call meth pth fs bdy) w = (setJson t HttpResponse_new, w1, es)"
  shows "serve_bytes env cor (request_text (request_line meth pth # map field_line fs) bdy) w =
    (let r = json_reply t (\<not> keepAlive (fields_call meth pth fs bdy)) in (toString (env_order env r) r, w1))"
proof -
  let ?msg = "request_text (request_line meth pth # map field_line fs) bdy" and ?ka = "keepAlive (fields_call meth pth fs bdy)"
  have b: "Buffer_inv (Buffer_append (Buffer_new kInitialSize) ?msg)" "contents (Buffer_append (Buffer_new kInitialSize) ?msg) = ?msg"
    by (simp_all add: Buffer_inv_append Buffer_new_inv)
  have "\<not> deferred (setJson t HttpResponse_new)" using json_reply_values(6) [of t False] by (simp add: json_reply_def)
  from server_loop_fields [OF assms(1) b assms(2) this]
  obtain buf' where "server_loop env cor (Buffer_append (Buffer_new kInitialSize) ?msg) w =
      (buf', w1, response_calls env (json_reply t (\<not> ?ka)) @ (if ?ka then [] else [CallShutdown]), es)"
    unfolding json_reply_def by blast
  moreover have "concat (map call_bytes (response_calls env (json_reply t (\<not> ?ka)) @ (if ?ka then [] else [CallShutdown]))) =
      toString (env_order env (json_reply t (\<not> ?ka))) (json_reply t (\<not> ?ka))"
    using response_calls_bytes [OF json_reply_values(5), of env t "\<not> ?ka"] by simp
  ultimately show ?thesis by (simp add: serve_bytes_def Let_def)
qed


section \<open>The client and the server together\<close>

definition post_fields :: "string \<Rightarrow> string \<Rightarrow> (string \<times> string) list" where
  "post_fields host bdy =
     [(''Host'', host), (''Content-Type'', ''application/json''), (''Content-Length'', to_string (length bdy)), (''Connection'', ''close'')]"

definition get_fields :: "string \<Rightarrow> (string \<times> string) list" where
  "get_fields host = [(''Host'', host), (''Connection'', ''close'')]"

lemma post_request_text:
  "post_request host pth bdy ''application/json'' = request_text (request_line ''POST'' pth # map field_line (post_fields host bdy)) bdy"
  by (simp add: post_request_def request_text_def request_line_def post_fields_def field_line_def)

lemma get_request_text: "get_request host pth = request_text (request_line ''GET'' pth # map field_line (get_fields host)) []"
  by (simp add: get_request_def request_text_def request_line_def get_fields_def field_line_def)

lemma clean_post:
  assumes "field_ok (''Host'', host)" and "SP \<notin> set pth" and "CR \<notin> set pth" and "length pth \<le> 8000" and "length bdy \<le> kMaxBodySize"
  shows "clean_fields ''POST'' pth (post_fields host bdy) bdy" and "\<not> keepAlive (fields_call ''POST'' pth (post_fields host bdy) bdy)"
proof -
  have "list_all field_ok (post_fields host bdy)"
    using assms(1) by (simp add: post_fields_def field_ok_def)
  then show c: "clean_fields ''POST'' pth (post_fields host bdy) bdy"
    using assms by (simp add: clean_fields_def post_fields_def tolower_fields request_line_def kMaxRequestLine_def)
  have "tolower ''connection'' = ''connection''" by code_simp
  then show "\<not> keepAlive (fields_call ''POST'' pth (post_fields host bdy) bdy)"
    by (simp add: keepAlive_def getHeader_def fields_call_values [OF c]) (simp add: post_fields_def tolower_fields)
qed

lemma clean_get:
  assumes "field_ok (''Host'', host)" and "SP \<notin> set pth" and "CR \<notin> set pth" and "length pth \<le> 8000"
  shows "clean_fields ''GET'' pth (get_fields host) []" and "\<not> keepAlive (fields_call ''GET'' pth (get_fields host) [])"
proof -
  have "list_all field_ok (get_fields host)"
    using assms(1) by (simp add: get_fields_def field_ok_def)
  then show c: "clean_fields ''GET'' pth (get_fields host) []"
    using assms by (simp add: clean_fields_def get_fields_def tolower_fields request_line_def kMaxRequestLine_def)
  have "tolower ''connection'' = ''connection''" by code_simp
  then show "\<not> keepAlive (fields_call ''GET'' pth (get_fields host) [])"
    by (simp add: keepAlive_def getHeader_def fields_call_values [OF c]) (simp add: get_fields_def tolower_fields)
qed

text \<open>The reply of a registration.\<close>

definition register_reply :: "('j, 'z) json_lib_scheme \<Rightarrow> string \<Rightarrow> 'j" where
  "register_reply J i = j_object J [(''success'', j_bool J True), (''instanceId'', j_string J i)]"

lemma register_args_body:
  assumes "json_laws J" and "meta_ok m" and "im_id m \<noteq> []" and "j_dump J (register_body J key m) = Inr b"
  shows "register_args J now b = Inr (key, m)"
  using assms(3) by (simp add: register_args_def json_dump_parse [OF assms(1,4)])
    (simp add: register_body_def json_members(1) [OF assms(1)] key_json_roundtrip [OF assms(1)] meta_json_roundtrip [OF assms(1,2)])

lemma registered_table:
  assumes "cat_inv c"
  shows "cat_table (snd (registerInstance now key (im_heartbeat now m) c)) = (cat_table c)((sk_key key, im_id m) \<mapsto> im_heartbeat now m)"
    and "cat_inv (snd (registerInstance now key (im_heartbeat now m) c))"
  using register_table [OF assms, of now key "im_heartbeat now m"] by (simp_all add: cat_exec_def table_exec_def im_heartbeat_def)

lemma register_respond:
  assumes "json_laws J" and "registry_core regex_ok J = Some cor" and "meta_ok m" and "im_id m \<noteq> []"
    and "j_dump J (register_body J key m) = Inr b" and "j_dump J (register_reply J (im_id m)) = Inr t"
    and "clean_fields ''POST'' ''/api/v1/registry/register'' (post_fields host b) b"
  shows "respond env cor (fields_call ''POST'' ''/api/v1/registry/register'' (post_fields host b) b) w =
    (setJson t HttpResponse_new, w\<lparr>rw_catalog := snd (registerInstance (rw_now w) key (im_heartbeat (rw_now w) m) (rw_catalog w))\<rparr>, [])"
proof (rule registry_respond [OF assms(2)])
  note v = fields_call_values [OF assms(7)]
  show "find (\<lambda>r. pattern r = path (fields_call ''POST'' ''/api/v1/registry/register'' (post_fields host b) b) \<and>
      route_method r = req_method (fields_call ''POST'' ''/api/v1/registry/register'' (post_fields host b) b)) (registerHandlers J) =
      Some \<lparr>route_method = POST, pattern = ''/api/v1/registry/register'', route_handler = registry_handler (handleRegister J)\<rparr>"
    by (simp add: v registerHandlers_def stringToMethod_def)
  show "handleRegister J (rw_now w) (fields_call ''POST'' ''/api/v1/registry/register'' (post_fields host b) b) HttpResponse_new (rw_catalog w) =
      (Inr (setJson t HttpResponse_new), snd (registerInstance (rw_now w) key (im_heartbeat (rw_now w) m) (rw_catalog w)))"
    using assms(6) by (simp add: handleRegister_def v register_args_body [OF assms(1,3-5)] Let_def register_reply_def im_heartbeat_def)
qed simp

text \<open>
  (C32) A registration over HTTP: when the bytes that \<^verbatim>\<open>registerService\<close> sends arrive at the server of the registry, and what the server sends arrives at the
  client in any pieces, the call returns true with the id of the instance, the catalog holds the instance under its service and id with a fresh heartbeat and
  everything else as before, and a discovery at that moment returns it.
\<close>

theorem registration_reaches_catalog:
  assumes "json_laws J" and "registry_core regex_ok J = Some cor" and "cat_inv (rw_catalog w)"
    and "meta_ok m" and "im_id m \<noteq> []" and "0 \<le> ttl_ms m" and "field_ok (''Host'', host)"
    and "j_dump J (register_body J key m) = Inr b" and "length b \<le> kMaxBodySize" and "j_dump J (register_reply J (im_id m)) = Inr t"
    and "enumerates (env_order env (json_reply t True)) (resp_headers (json_reply t True))"
    and "session_ok s (post_request host ''/api/v1/registry/register'' b ''application/json'')"
    and "serve_bytes env cor (fst (registerService J s host key m)) w = (concat (ts_recvs s), w')" and "CHR 0x00 \<notin> set (concat (ts_recvs s))"
  shows "snd (registerService J s host key m) = Returns (True, Some (im_id m)) \<and>
    cat_table (rw_catalog w') = (cat_table (rw_catalog w))((sk_key key, im_id m) \<mapsto> im_heartbeat (rw_now w) m) \<and>
    im_heartbeat (rw_now w) m \<in> set (discover (rw_now w) key (rw_catalog w'))"
proof -
  let ?c = "snd (registerInstance (rw_now w) key (im_heartbeat (rw_now w) m) (rw_catalog w))"
  have p: "clean_fields ''POST'' ''/api/v1/registry/register'' (post_fields host b) b"
      "\<not> keepAlive (fields_call ''POST'' ''/api/v1/registry/register'' (post_fields host b) b)"
    by (rule clean_post [OF assms(7) _ _ _ assms(9)]; simp)+
  note x = simple_exchange_ok [OF assms(12)]
  have sent: "fst (registerService J s host key m) = post_request host ''/api/v1/registry/register'' b ''application/json''"
    by (simp add: registerService_def assms(8) simple_post_def x)
  have "serve_bytes env cor (fst (registerService J s host key m)) w =
      (toString (env_order env (json_reply t True)) (json_reply t True), w\<lparr>rw_catalog := ?c\<rparr>)"
    unfolding sent post_request_text serve_bytes_json [OF p(1) register_respond [OF assms(1,2,4,5,8,10) p(1)]] using p(2) by (simp add: Let_def)
  with assms(13) have r: "concat (ts_recvs s) = toString (env_order env (json_reply t True)) (json_reply t True)" "w' = w\<lparr>rw_catalog := ?c\<rparr>"
    by simp_all
  have "parse_reply (recv_all (ts_recvs s)) = \<lparr>sr_status = 200, sr_body = t, sr_success = True\<rparr>"
    unfolding recv_all_clean [OF assms(14)] r(1) by (rule parse_reply_printed [OF assms(11)])
  moreover have "j_parse J t = Inr (register_reply J (im_id m))" by (rule json_dump_parse [OF assms(1,10)])
  ultimately have "snd (registerService J s host key m) = Returns (True, Some (im_id m))"
    by (simp add: registerService_def assms(8) simple_post_def x) (simp add: register_reply_def json_values [OF assms(1)])
  moreover note registered_table [OF assms(3), of "rw_now w" key m]
  moreover have "usable (rw_now w) (im_heartbeat (rw_now w) m)"
    using assms(6) by (simp add: usable_def isExpired_def im_heartbeat_def ttl_ms_def)
  ultimately show ?thesis using discover_table [of ?c "rw_now w" key] by (simp add: r(2)) (simp add: im_heartbeat_def)
qed

text \<open>The path of a discovery.\<close>

lemma discover_respond:
  assumes "registry_core regex_ok J = Some cor" and "clean_fields ''GET'' (discover_path key) (get_fields host) []"
    and "makeError J (-32602) ''Missing serviceName'' = Inr t"
  shows "respond env cor (fields_call ''GET'' (discover_path key) (get_fields host) []) w = (setJson t HttpResponse_new, w, [])"
proof -
  note v = fields_call_values [OF assms(2)]
  have pa: "path (fields_call ''GET'' (discover_path key) (get_fields host) []) = ''/api/v1/registry/discover''" by (simp only: v) (simp add: discover_path_def)
  have "respond env cor (fields_call ''GET'' (discover_path key) (get_fields host) []) w = (setJson t HttpResponse_new, w\<lparr>rw_catalog := rw_catalog w\<rparr>, [])"
  proof (rule registry_respond [OF assms(1)])
    show "find (\<lambda>r. pattern r = path (fields_call ''GET'' (discover_path key) (get_fields host) []) \<and>
        route_method r = req_method (fields_call ''GET'' (discover_path key) (get_fields host) [])) (registerHandlers J) =
        Some \<lparr>route_method = GET, pattern = ''/api/v1/registry/discover'', route_handler = registry_handler (handleDiscover J)\<rparr>"
      unfolding pa by (simp add: v registerHandlers_def stringToMethod_def)
    have "getQueryParam ''/api/v1/registry/discover'' ''serviceName'' [] = []" by (rule getQueryParam_no_query) simp
    then show "handleDiscover J (rw_now w) (fields_call ''GET'' (discover_path key) (get_fields host) []) HttpResponse_new (rw_catalog w) =
        (Inr (setJson t HttpResponse_new), rw_catalog w)"
      unfolding handleDiscover_def pa by (simp add: assms(3) Let_def)
  qed simp
  then show ?thesis by simp
qed

text \<open>
  Discovery over HTTP never finds anything: the server looks for the parameters in the path of the request, from which the parser has cut the query, so it
  answers every discovery that the client can send with "Missing serviceName", and \<^verbatim>\<open>discoverService\<close> returns no instance whatever the catalog holds.
\<close>

theorem discovery_over_http_finds_nothing:
  assumes "json_laws J" and "registry_core regex_ok J = Some cor"
    and "field_ok (''Host'', host)" and "SP \<notin> set (discover_path key)" and "CR \<notin> set (discover_path key)" and "length (discover_path key) \<le> 8000"
    and "makeError J (-32602) ''Missing serviceName'' = Inr t"
    and "enumerates (env_order env (json_reply t True)) (resp_headers (json_reply t True))"
    and "session_ok s (get_request host (discover_path key))"
    and "serve_bytes env cor (fst (discoverService J now s host key)) w = (concat (ts_recvs s), w')" and "CHR 0x00 \<notin> set (concat (ts_recvs s))"
  shows "snd (discoverService J now s host key) = Returns [] \<and> w' = w"
proof -
  note p = clean_get [OF assms(3-6)]
  note x = simple_exchange_ok [OF assms(9)]
  have sent: "fst (discoverService J now s host key) = get_request host (discover_path key)" by (simp add: discoverService_def simple_get_def x)
  have "serve_bytes env cor (fst (discoverService J now s host key)) w = (toString (env_order env (json_reply t True)) (json_reply t True), w)"
    unfolding sent get_request_text serve_bytes_json [OF p(1) discover_respond [OF assms(2) p(1) assms(7)]] using p(2) by (simp add: Let_def)
  with assms(10) have r: "concat (ts_recvs s) = toString (env_order env (json_reply t True)) (json_reply t True)" "w' = w" by simp_all
  have "parse_reply (recv_all (ts_recvs s)) = \<lparr>sr_status = 200, sr_body = t, sr_success = True\<rparr>"
    unfolding recv_all_clean [OF assms(11)] r(1) by (rule parse_reply_printed [OF assms(8)])
  moreover have "discovered J now \<lparr>sr_status = 200, sr_body = t, sr_success = True\<rparr> = []"
    unfolding discovered_def using json_dump_parse [OF assms(1) assms(7) [unfolded makeError_def]] by (simp add: json_values [OF assms(1)])
  ultimately show ?thesis by (simp add: discoverService_def simple_get_def x r(2))
qed


section \<open>Examples\<close>

definition whole_session :: "string \<Rightarrow> string \<Rightarrow> tcp_session" where
  "whole_session msg reply = \<lparr>ts_socket = True, ts_address = True, ts_connect = True, ts_sends = [Sent (length msg)], ts_recvs = [reply]\<rparr>"

lemma whole_session_ok: "session_ok (whole_session msg reply) msg"
  by (cases msg) (simp_all add: session_ok_def whole_session_def)

definition json_env :: server_env where
  "json_env = sample_env\<lparr>env_order := (\<lambda>r. map (\<lambda>k. (k, the (resp_headers r k))) [''Content-Type'', ''Content-Length''])\<rparr>"

lemma json_env_order: "env_order json_env (json_reply t cl) = [(''Content-Type'', ''application/json''), (''Content-Length'', to_string (length t))]"
  by (simp add: json_env_def json_reply_headers)

lemma json_env_enumerates: "enumerates (env_order json_env (json_reply t cl)) (resp_headers (json_reply t cl))"
  by (simp add: json_env_order json_reply_headers enumerates_def fun_eq_iff)

lemma json_env_clean:
  assumes "CHR 0x00 \<notin> set t"
  shows "CHR 0x00 \<notin> set (toString (env_order json_env (json_reply t cl)) (json_reply t cl))"
proof -
  have "\<not> is_digit (CHR 0x00)" by code_simp
  then show ?thesis using assms by (simp add: json_env_order toString_def json_reply_values header_line_def)
qed

definition ex_instance :: instance_meta where
  "ex_instance = InstanceMeta_new 0 ''a'' ''h'' 80"

definition ex_world :: registry_world where
  "ex_world = \<lparr>rw_now = 5, rw_catalog = [], rw_uncaught = None\<rparr>"

theorem registration_reaches_catalog_witness:
  "\<exists>cor s w'. registry_core (\<lambda>_. True) jtree_lib = Some cor \<and>
     serve_bytes json_env cor (fst (registerService jtree_lib s ''r'' ex_service ex_instance)) ex_world = (concat (ts_recvs s), w') \<and>
     snd (registerService jtree_lib s ''r'' ex_service ex_instance) = Returns (True, Some ''a'') \<and>
     im_heartbeat 5 ex_instance \<in> set (discover 5 ex_service (rw_catalog w'))"
proof -
  obtain cor where cor: "registry_core (\<lambda>_. True) jtree_lib = Some cor" using registry_core_some by blast
  define b where "b = jtree_print (register_body jtree_lib ex_service ex_instance)"
  define t where "t = jtree_print (register_reply jtree_lib ''a'')"
  define msg where "msg = post_request ''r'' ''/api/v1/registry/register'' b ''application/json''"
  define s where "s = whole_session msg (toString (env_order json_env (json_reply t True)) (json_reply t True))"
  have ok: "meta_ok ex_instance" "im_id ex_instance = ''a''" "0 \<le> ttl_ms ex_instance" "field_ok (''Host'', ''r'')"
    by (simp_all add: meta_ok_def int_range_def ex_instance_def InstanceMeta_new_def ttl_ms_def ttl_30 field_ok_def)
  have b: "j_dump jtree_lib (register_body jtree_lib ex_service ex_instance) = Inr b" "length b \<le> kMaxBodySize"
    by (simp_all add: jtree_lib_def b_def register_body_def key_toJson_def meta_toJson_def ex_service_def ex_instance_def InstanceMeta_new_def kMaxBodySize_def)
  have t: "j_dump jtree_lib (register_reply jtree_lib ''a'') = Inr t" "CHR 0x00 \<notin> set t"
    by (simp_all add: jtree_lib_def t_def register_reply_def)
  have so: "session_ok s msg" unfolding s_def by (rule whole_session_ok)
  have sent: "fst (registerService jtree_lib s ''r'' ex_service ex_instance) = msg"
    by (simp add: registerService_def b simple_post_def msg_def [symmetric] simple_exchange_ok [OF so])
  have p: "clean_fields ''POST'' ''/api/v1/registry/register'' (post_fields ''r'' b) b"
      "\<not> keepAlive (fields_call ''POST'' ''/api/v1/registry/register'' (post_fields ''r'' b) b)"
    by (rule clean_post [OF ok(4) _ _ _ b(2)]; simp)+
  have rs: "concat (ts_recvs s) = toString (env_order json_env (json_reply t True)) (json_reply t True)" by (simp add: s_def whole_session_def)
  define w' where "w' = ex_world\<lparr>rw_catalog := snd (registerInstance (rw_now ex_world) ex_service (im_heartbeat (rw_now ex_world) ex_instance) (rw_catalog ex_world))\<rparr>"
  have e: "serve_bytes json_env cor (fst (registerService jtree_lib s ''r'' ex_service ex_instance)) ex_world = (concat (ts_recvs s), w')"
    unfolding sent msg_def post_request_text
      serve_bytes_json [OF p(1) register_respond [OF jtree_lib_laws cor ok(1) _ b(1) t(1) [folded ok(2)] p(1)], unfolded ok(2), simplified]
    using p(2) by (simp add: Let_def rs w'_def)
  have "cat_inv (rw_catalog ex_world)" by (simp add: ex_world_def cat_inv_def)
  from registration_reaches_catalog [OF jtree_lib_laws cor this ok(1) _ ok(3,4) b(1,2) t(1) [folded ok(2)] json_env_enumerates so [unfolded msg_def] e]
  have "snd (registerService jtree_lib s ''r'' ex_service ex_instance) = Returns (True, Some ''a'') \<and>
      im_heartbeat 5 ex_instance \<in> set (discover 5 ex_service (rw_catalog w'))"
    using json_env_clean [OF t(2), of True] by (simp add: ok(2) rs ex_world_def)
  then show ?thesis using cor e by blast
qed

theorem discovery_over_http_finds_nothing_witness:
  "\<exists>cor s. registry_core (\<lambda>_. True) jtree_lib = Some cor \<and>
     serve_bytes json_env cor (fst (discoverService jtree_lib 5 s ''r'' ex_service))
       (ex_world\<lparr>rw_catalog := snd (registerInstance 5 ex_service ex_instance [])\<rparr>) =
       (concat (ts_recvs s), ex_world\<lparr>rw_catalog := snd (registerInstance 5 ex_service ex_instance [])\<rparr>) \<and>
     snd (discoverService jtree_lib 5 s ''r'' ex_service) = Returns []"
proof -
  obtain cor where cor: "registry_core (\<lambda>_. True) jtree_lib = Some cor" using registry_core_some by blast
  define w where "w = ex_world\<lparr>rw_catalog := snd (registerInstance 5 ex_service ex_instance [])\<rparr>"
  define msg where "msg = get_request ''r'' (discover_path ex_service)"
  obtain t where t: "makeError jtree_lib (-32602) ''Missing serviceName'' = Inr t" "CHR 0x00 \<notin> set t"
    by (simp add: jtree_lib_def makeError_def)
  define s where "s = whole_session msg (toString (env_order json_env (json_reply t True)) (json_reply t True))"
  have so: "session_ok s msg" unfolding s_def by (rule whole_session_ok)
  have ok: "field_ok (''Host'', ''r'')" "SP \<notin> set (discover_path ex_service)" "CR \<notin> set (discover_path ex_service)" "length (discover_path ex_service) \<le> 8000"
    by (simp_all add: field_ok_def discover_path_def ex_service_def)
  note p = clean_get [OF ok]
  have rs: "concat (ts_recvs s) = toString (env_order json_env (json_reply t True)) (json_reply t True)" by (simp add: s_def whole_session_def)
  have sent: "fst (discoverService jtree_lib 5 s ''r'' ex_service) = msg"
    by (simp add: discoverService_def simple_get_def msg_def [symmetric] simple_exchange_ok [OF so])
  have e: "serve_bytes json_env cor (fst (discoverService jtree_lib 5 s ''r'' ex_service)) w = (concat (ts_recvs s), w)"
    unfolding sent msg_def get_request_text serve_bytes_json [OF p(1) discover_respond [OF cor p(1) t(1)]] using p(2) by (simp add: Let_def rs)
  from discovery_over_http_finds_nothing [OF jtree_lib_laws cor ok t(1) json_env_enumerates so [unfolded msg_def] e]
  have "snd (discoverService jtree_lib 5 s ''r'' ex_service) = Returns []" using json_env_clean [OF t(2), of True] by (simp add: rs)
  then show ?thesis using cor e unfolding w_def by blast
qed

section \<open>Selection\<close>

abbreviation add_all :: "instance_meta list \<Rightarrow> load_balancer \<Rightarrow> load_balancer" where
  "add_all ms lb \<equiv> fold (\<lambda>m. addServer (im_host m) (im_port m) (im_weight m)) ms lb"

abbreviation backend_of :: "instance_meta \<Rightarrow> backend" where
  "backend_of m \<equiv> BackendServer_new (im_host m) (im_port m) (im_weight m)"

lemma fold_addServer_all:
  "lb_strategy (add_all ms lb) = lb_strategy lb \<and> lb_index (add_all ms lb) = lb_index lb \<and>
   lb_servers (add_all ms lb) = lb_servers lb @ [lb_next lb..<lb_next lb + length ms] \<and>
   (\<forall>i. lb_store (add_all ms lb) i = (if lb_next lb \<le> i \<and> i < lb_next lb + length ms then backend_of (ms ! (i - lb_next lb)) else lb_store lb i))"
proof (induction ms arbitrary: lb)
  case (Cons m ms)
  define lb1 where "lb1 = addServer (im_host m) (im_port m) (im_weight m) lb"
  have f: "add_all (m # ms) lb = add_all ms lb1" "lb_next lb1 = Suc (lb_next lb)" "lb_servers lb1 = lb_servers lb @ [lb_next lb]"
      "lb_store lb1 = (lb_store lb)(lb_next lb := backend_of m)" "lb_strategy lb1 = lb_strategy lb" "lb_index lb1 = lb_index lb"
    by (simp_all add: lb1_def addServer_def)
  have "lb_store (add_all ms lb1) i = (if lb_next lb \<le> i \<and> i < lb_next lb + length (m # ms) then backend_of ((m # ms) ! (i - lb_next lb)) else lb_store lb i)" for i
    using Cons.IH [of lb1] by (cases "i = lb_next lb") (auto simp: f nth_Cons' Suc_le_eq)
  moreover have "[lb_next lb..<lb_next lb + length (m # ms)] = lb_next lb # [lb_next lb1..<lb_next lb1 + length ms]"
    by (simp add: f(2) upt_conv_Cons del: upt_Suc)
  ultimately show ?case unfolding f(1) using Cons.IH [of lb1] by (simp add: f(3,5,6) del: upt_Suc)
qed auto

lemmas fold_addServer = fold_addServer_all [THEN conjunct1] fold_addServer_all [THEN conjunct2, THEN conjunct1]
  fold_addServer_all [THEN conjunct2, THEN conjunct2, THEN conjunct1] fold_addServer_all [THEN conjunct2, THEN conjunct2, THEN conjunct2, rule_format]

text \<open>
  Every selection makes its own balancer, whose counter starts at zero: with the default strategy, round robin, the client picks the first instance
  that was discovered, at every call.
\<close>

theorem round_robin_picks_first:
  assumes "ms \<noteq> []"
  shows "choose_instance draw RoundRobin ms = Some (hd ms)"
proof -
  define lb where "lb = add_all ms (LoadBalancer_new RoundRobin)"
  note f = fold_addServer [of ms "LoadBalancer_new RoundRobin", folded lb_def]
  obtain m ns where ms: "ms = m # ns" using assms by (cases ms) auto
  have "healthy (lb_store lb i)" for i using f(4) by (simp add: BackendServer_new_def LoadBalancer_new_def)
  then have "filter (\<lambda>i. healthy (lb_store lb i)) (lb_servers lb) = [0..<length ms]" using f(3) by (simp add: LoadBalancer_new_def)
  then have "lb_select draw lb = (Some 0, lb\<lparr>lb_index := lb_index lb + 1\<rparr>)"
    using f(1-3) assms by (simp add: lb_select_def rr_select_def LoadBalancer_new_def Let_def)
  moreover have "bs_host (lb_store lb 0) = im_host m" "bs_port (lb_store lb 0) = im_port m"
    using f(4) by (simp_all add: ms LoadBalancer_new_def BackendServer_new_def)
  ultimately show ?thesis by (simp add: choose_instance_def assms lb_def [symmetric]) (simp add: ms)
qed

theorem round_robin_picks_first_witness:
  "choose_instance (\<lambda>_ _. 0) RoundRobin [ex_instance, ex_instance\<lparr>im_port := 81\<rparr>] = Some ex_instance"
  using round_robin_picks_first [of "[ex_instance, ex_instance\<lparr>im_port := 81\<rparr>]" "\<lambda>_ _. 0"] by simp

end
