(* ===== verification/RpcModel.thy ===== *)
theory RpcModel
  imports RegistryClientModel
begin

text \<open>
  \<^verbatim>\<open>src/rpc/RpcServer.h\<close> and \<^verbatim>\<open>src/rpc/RpcClient.h\<close>: JSON-RPC over the HTTP server, the blocking client, and the client on the event loop.  The methods are
  application code over a world of their own; the JSON library is an argument.
\<close>

section \<open>The server\<close>

text \<open>A method may throw; what it throws is an exception of the JSON library or another one derived from \<^verbatim>\<open>std::exception\<close>.\<close>

type_synonym ('j, 'w) rpc_method = "'j \<Rightarrow> 'w \<Rightarrow> (json_exn + 'j) \<times> 'w"

type_synonym ('j, 'w) rpc_methods = "string \<rightharpoonup> ('j, 'w) rpc_method"

definition registerMethod :: "string \<Rightarrow> ('j, 'w) rpc_method \<Rightarrow> ('j, 'w) rpc_methods \<Rightarrow> ('j, 'w) rpc_methods" where
  "registerMethod name f methods = methods(name \<mapsto> f)"

definition makeResponse :: "('j, 'z) json_lib_scheme \<Rightarrow> int \<Rightarrow> 'j \<Rightarrow> 'j" where
  "makeResponse J i result = j_object J [(''jsonrpc'', j_string J ''2.0''), (''id'', j_int J i), (''result'', result)]"

definition rpc_makeError :: "('j, 'z) json_lib_scheme \<Rightarrow> int \<Rightarrow> int \<Rightarrow> string \<Rightarrow> 'j" where
  "rpc_makeError J i code message =
     j_object J [(''jsonrpc'', j_string J ''2.0''), (''id'', j_int J i), (''error'', j_object J [(''code'', j_int J code), (''message'', j_string J message)])]"

text \<open>The two handlers of the try block.\<close>

definition rpc_catch :: "('j, 'z) json_lib_scheme \<Rightarrow> json_exn \<Rightarrow> 'j" where
  "rpc_catch J e = (case e of JParseError _ \<Rightarrow> rpc_makeError J 0 (-32700) ''Parse error'' | JOtherError _ \<Rightarrow> rpc_makeError J 0 (-32603) ''Internal error'')"

definition rpc_args :: "('j, 'z) json_lib_scheme \<Rightarrow> string \<Rightarrow> json_exn + string \<times> 'j \<times> int" where
  "rpc_args J text =
     try_bind (j_parse J text) (\<lambda>request.
     try_bind (j_at J request ''method'') (\<lambda>mj.
     try_bind (j_get_string J mj) (\<lambda>m.
     try_bind (j_at J request ''params'') (\<lambda>ps.
     try_bind (j_value_int J request ''id'' 0) (\<lambda>i. Inr (m, ps, i))))))"

text \<open>The text of the answer, or what is thrown in the try block.\<close>

definition rpc_answer :: "('j, 'z) json_lib_scheme \<Rightarrow> ('j, 'w) rpc_methods \<Rightarrow> string \<Rightarrow> 'w \<Rightarrow> (json_exn + string) \<times> 'w" where
  "rpc_answer J methods text w =
     (case rpc_args J text of
        Inl e \<Rightarrow> (Inl e, w)
      | Inr (m, ps, i) \<Rightarrow>
          (case methods m of
             None \<Rightarrow> (j_dump J (rpc_makeError J i (-32601) ''Method not found''), w)
           | Some f \<Rightarrow> (let (r, w1) = f ps w in (try_bind r (\<lambda>result. j_dump J (makeResponse J i result)), w1))))"

definition handleRpcCall :: "('j, 'z) json_lib_scheme \<Rightarrow> ('j, 'w) rpc_methods \<Rightarrow> http_request \<Rightarrow> http_response \<Rightarrow> 'w \<Rightarrow> (json_exn + http_response) \<times> 'w" where
  "handleRpcCall J methods req resp w =
     (case rpc_answer J methods (body req) w of
        (Inr s, w1) \<Rightarrow> (Inr (setJson s resp), w1)
      | (Inl e, w1) \<Rightarrow> (send_json (j_dump J (rpc_catch J e)) resp, w1))"

record 'w rpc_world =
  rpc_app :: 'w
  rpc_uncaught :: "json_exn option"

definition RpcServer_handler :: "('j, 'z) json_lib_scheme \<Rightarrow> ('j, 'w) rpc_methods \<Rightarrow> 'w rpc_world handler" where
  "RpcServer_handler J methods req resp w =
     (case handleRpcCall J methods req resp (rpc_app w) of
        (Inr r, a) \<Rightarrow> (r, w\<lparr>rpc_app := a\<rparr>)
      | (Inl e, a) \<Rightarrow> (resp, w\<lparr>rpc_app := a, rpc_uncaught := Some e\<rparr>))"

definition RpcServer_core :: "(string \<Rightarrow> bool) \<Rightarrow> ('j, 'z) json_lib_scheme \<Rightarrow> ('j, 'w) rpc_methods \<Rightarrow> 'w rpc_world http_core option" where
  "RpcServer_core regex_ok J methods = core_POST regex_ok ''/rpc'' (RpcServer_handler J methods) HttpCore_new"

section \<open>The blocking client\<close>

text \<open>One connection: whether it was made, how much the only \<^verbatim>\<open>send\<close> took, and the reads until end of file (\<open>None\<close> when that never comes).\<close>

record rpc_session =
  rs_connect :: bool
  rs_taken :: nat
  rs_recvs :: "string list option"

definition rpc_request :: "('j, 'z) json_lib_scheme \<Rightarrow> string \<Rightarrow> 'j \<Rightarrow> u32 \<Rightarrow> 'j" where
  "rpc_request J meth ps i =
     j_object J [(''jsonrpc'', j_string J ''2.0''), (''method'', j_string J meth), (''params'', ps), (''id'', j_int J (sint i))]"

definition rpc_error :: "('j, 'z) json_lib_scheme \<Rightarrow> string \<Rightarrow> 'j" where
  "rpc_error J msg = j_object J [(''error'', j_string J msg)]"

definition rpc_http :: "string \<Rightarrow> string \<Rightarrow> string" where
  "rpc_http host bdy =
     ''POST /rpc HTTP/1.1'' @ CRLF @ ''Host: '' @ host @ CRLF @ ''Content-Type: application/json'' @ CRLF @
     ''Content-Length: '' @ to_string (length bdy) @ CRLF @ CRLF @ bdy"

text \<open>The member that a response carries; a JSON value that has no members throws.\<close>

definition rpc_result :: "('j, 'z) json_lib_scheme \<Rightarrow> 'j \<Rightarrow> json_exn + 'j" where
  "rpc_result J resp = (if j_contains J resp ''error'' then j_at J resp ''error'' else j_at J resp ''result'')"

definition rpc_reply :: "('j, 'z) json_lib_scheme \<Rightarrow> string \<Rightarrow> 'j call_result" where
  "rpc_reply J response =
     (case find_str (CRLF @ CRLF) response 0 of
        None \<Rightarrow> Returns (rpc_error J ''invalid response'')
      | Some bodyStart \<Rightarrow>
          (case j_parse J (substr_from response (bodyStart + 4)) of
             Inl (JParseError _) \<Rightarrow> Returns (rpc_error J ''JSON parse error'')
           | Inl e \<Rightarrow> Throws e
           | Inr resp \<Rightarrow> (case rpc_result J resp of Inr r \<Rightarrow> Returns r | Inl e \<Rightarrow> Throws e)))"

definition rpc_call ::
  "('j, 'z) json_lib_scheme \<Rightarrow> rpc_session \<Rightarrow> string \<Rightarrow> string \<Rightarrow> 'j \<Rightarrow> u32 \<Rightarrow> string \<times> 'j call_result \<times> u32" where
  "rpc_call J s host meth ps nextId =
     (if \<not> rs_connect s then ([], Returns (rpc_error J ''connection failed''), nextId)
      else case j_dump J (rpc_request J meth ps nextId) of
             Inl e \<Rightarrow> ([], Throws e, nextId + 1)
           | Inr b \<Rightarrow> (take (rs_taken s) (rpc_http host b),
               case rs_recvs s of None \<Rightarrow> Blocks | Some bufs \<Rightarrow> rpc_reply J (recv_all bufs), nextId + 1))"

section \<open>The client on the event loop\<close>

record 'j reactor_rpc =
  rr_nextId :: u32
  rr_conn :: bool
  rr_pending :: "u32 \<rightharpoonup> nat"
  rr_nextPromise :: nat
  rr_fulfilled :: "(nat \<times> 'j) list"
  rr_sent :: "string list"

definition ReactorRpc_new :: "'j reactor_rpc" where
  "ReactorRpc_new = \<lparr>rr_nextId = 1, rr_conn = False, rr_pending = Map.empty, rr_nextPromise = 0, rr_fulfilled = [], rr_sent = []\<rparr>"

definition rr_onConnection :: "bool \<Rightarrow> 'j reactor_rpc \<Rightarrow> 'j reactor_rpc" where
  "rr_onConnection up c = c\<lparr>rr_conn := up\<rparr>"

definition reactor_http :: "string \<Rightarrow> string" where
  "reactor_http bdy =
     ''POST /rpc HTTP/1.1'' @ CRLF @ ''Content-Type: application/json'' @ CRLF @
     ''Content-Length: '' @ to_string (length bdy) @ CRLF @ ''Connection: keep-alive'' @ CRLF @ CRLF @ bdy"

text \<open>\<^verbatim>\<open>asyncCall\<close> up to the end of its first critical section: the id, the promise and the text, or what \<^verbatim>\<open>dump\<close> throws.\<close>

definition rr_enter :: "('j, 'z) json_lib_scheme \<Rightarrow> string \<Rightarrow> 'j \<Rightarrow> 'j reactor_rpc \<Rightarrow> (json_exn + u32 \<times> nat \<times> string) \<times> 'j reactor_rpc" where
  "rr_enter J meth ps c =
     (let i = rr_nextId c; p = rr_nextPromise c; c1 = c\<lparr>rr_nextId := i + 1, rr_nextPromise := p + 1\<rparr> in
      case j_dump J (rpc_request J meth ps i) of
        Inl e \<Rightarrow> (Inl e, c1)
      | Inr b \<Rightarrow> (Inr (i, p, reactor_http b), c1\<lparr>rr_pending := (rr_pending c1)(i \<mapsto> p)\<rparr>))"

text \<open>Its second critical section, after the wait for a connection.\<close>

definition rr_transmit :: "('j, 'z) json_lib_scheme \<Rightarrow> u32 \<Rightarrow> string \<Rightarrow> 'j reactor_rpc \<Rightarrow> 'j reactor_rpc" where
  "rr_transmit J i msg c =
     (if rr_conn c then c\<lparr>rr_sent := rr_sent c @ [msg]\<rparr>
      else case rr_pending c i of
             None \<Rightarrow> c
           | Some p \<Rightarrow> c\<lparr>rr_fulfilled := rr_fulfilled c @ [(p, rpc_error J ''not connected'')], rr_pending := (rr_pending c)(i := None)\<rparr>)"

text \<open>The message callback on everything that the buffer holds.\<close>

definition rr_onMessage :: "('j, 'z) json_lib_scheme \<Rightarrow> string \<Rightarrow> 'j reactor_rpc \<Rightarrow> 'j reactor_rpc" where
  "rr_onMessage J data c =
     (case find_str (CRLF @ CRLF) data 0 of
        None \<Rightarrow> c
      | Some bodyStart \<Rightarrow>
          (case try_bind (j_parse J (substr_from data (bodyStart + 4))) (\<lambda>resp.
                  try_bind (j_value_int J resp ''id'' (-1)) (\<lambda>i. Inr (resp, word_of_int i :: u32))) of
             Inl e \<Rightarrow> c
           | Inr (resp, i) \<Rightarrow>
               (case rr_pending c i of
                  None \<Rightarrow> c
                | Some p \<Rightarrow>
                    (case rpc_result J resp of
                       Inl e \<Rightarrow> c
                     | Inr v \<Rightarrow> c\<lparr>rr_fulfilled := rr_fulfilled c @ [(p, v)], rr_pending := (rr_pending c)(i := None)\<rparr>))))"

text \<open>\<^verbatim>\<open>call\<close>: the value of the promise when it comes within the time.\<close>

definition rr_call_value :: "('j, 'z) json_lib_scheme \<Rightarrow> bool \<Rightarrow> nat \<Rightarrow> 'j reactor_rpc \<Rightarrow> 'j" where
  "rr_call_value J in_time p c =
     (case (if in_time then map_of (rr_fulfilled c) p else None) of Some v \<Rightarrow> v | None \<Rightarrow> rpc_error J ''RPC call timeout'')"


section \<open>What a call stands for\<close>

definition rpc_failure :: "('j, 'z) json_lib_scheme \<Rightarrow> int \<Rightarrow> string \<Rightarrow> 'j" where
  "rpc_failure J code message = j_object J [(''code'', j_int J code), (''message'', j_string J message)]"

text \<open>The value that a call of a method should give, and the JSON of the response that carries it.\<close>

definition rpc_value :: "('j, 'z) json_lib_scheme \<Rightarrow> ('j, 'w) rpc_methods \<Rightarrow> string \<Rightarrow> 'j \<Rightarrow> 'w \<Rightarrow> 'j" where
  "rpc_value J methods meth ps a =
     (case methods meth of
        None \<Rightarrow> rpc_failure J (-32601) ''Method not found''
      | Some f \<Rightarrow> (case fst (f ps a) of
                    Inr r \<Rightarrow> r
                  | Inl (JParseError _) \<Rightarrow> rpc_failure J (-32700) ''Parse error''
                  | Inl (JOtherError _) \<Rightarrow> rpc_failure J (-32603) ''Internal error''))"

definition rpc_after :: "('j, 'w) rpc_methods \<Rightarrow> string \<Rightarrow> 'j \<Rightarrow> 'w \<Rightarrow> 'w" where
  "rpc_after methods meth ps a = (case methods meth of None \<Rightarrow> a | Some f \<Rightarrow> snd (f ps a))"

definition rpc_response :: "('j, 'z) json_lib_scheme \<Rightarrow> ('j, 'w) rpc_methods \<Rightarrow> string \<Rightarrow> 'j \<Rightarrow> int \<Rightarrow> 'w \<Rightarrow> 'j" where
  "rpc_response J methods meth ps i a =
     (case methods meth of
        None \<Rightarrow> rpc_makeError J i (-32601) ''Method not found''
      | Some f \<Rightarrow> (case fst (f ps a) of Inr r \<Rightarrow> makeResponse J i r | Inl e \<Rightarrow> rpc_catch J e))"

lemma sint_u32_range: "- (2 ^ 31) \<le> sint (i :: u32)" "sint (i :: u32) < 2 ^ 31"
  using sint_range_size [of i] by (simp_all add: word_size)

lemma rpc_result_value: "json_laws J \<Longrightarrow> rpc_result J (rpc_response J methods meth ps i a) = Inr (rpc_value J methods meth ps a)"
  by (auto simp: rpc_result_def rpc_response_def rpc_value_def rpc_makeError_def rpc_catch_def makeResponse_def rpc_failure_def json_members
      split: option.splits sum.splits json_exn.splits)

lemma rpc_args_request:
  assumes "json_laws J" and "j_dump J (rpc_request J meth ps i) = Inr b"
  shows "rpc_args J b = Inr (meth, ps, sint i)"
proof -
  have "j_value_int J (rpc_request J meth ps i) ''id'' 0 = Inr (sint i)"
    unfolding rpc_request_def by (rule json_values(3) [OF assms(1) _ sint_u32_range]) simp
  then show ?thesis
    by (simp add: rpc_args_def json_dump_parse [OF assms]) (simp add: rpc_request_def json_members [OF assms(1)])
qed

lemma rpc_handled:
  assumes "json_laws J" and "j_dump J (rpc_request J meth ps i) = Inr b" and "j_dump J (rpc_response J methods meth ps (sint i) a) = Inr t"
    and "body req = b"
  shows "handleRpcCall J methods req resp a = (Inr (setJson t resp), rpc_after methods meth ps a)"
  using assms(3)
  by (auto simp: handleRpcCall_def rpc_answer_def rpc_args_request [OF assms(1,2)] assms(4) rpc_response_def rpc_after_def Let_def send_json_def
      split: option.splits sum.splits prod.splits)

lemma rpc_path_exact: "isExactPath ''/rpc''"
  by code_simp

lemma rpc_respond:
  assumes "RpcServer_core regex_ok J methods = Some cor" and "path req = ''/rpc''" and "req_method req = POST"
    and "handleRpcCall J methods req HttpResponse_new (rpc_app w) = (Inr resp, a)"
  shows "respond env cor req w = (resp, w\<lparr>rpc_app := a\<rparr>, [])"
proof -
  have "cor = HttpCore_new\<lparr>exactRoutes := [''/rpc'' \<mapsto> [POST \<mapsto> RpcServer_handler J methods]]\<rparr>"
    using assms(1) by (auto simp: RpcServer_core_def core_POST_def addRoute_def rpc_path_exact HttpCore_new_def)
  then show ?thesis
    using assms(2-4) by (simp add: respond_def handleRequest_def HttpCore_new_def exact_handler_def postProcessResponse_def RpcServer_handler_def)
qed

definition rpc_fields :: "string \<Rightarrow> string \<Rightarrow> (string \<times> string) list" where
  "rpc_fields host bdy = [(''Host'', host), (''Content-Type'', ''application/json''), (''Content-Length'', to_string (length bdy))]"

definition reactor_fields :: "string \<Rightarrow> (string \<times> string) list" where
  "reactor_fields bdy = [(''Content-Type'', ''application/json''), (''Content-Length'', to_string (length bdy)), (''Connection'', ''keep-alive'')]"

lemma rpc_http_text: "rpc_http host bdy = request_text (request_line ''POST'' ''/rpc'' # map field_line (rpc_fields host bdy)) bdy"
  by (simp add: rpc_http_def request_text_def request_line_def rpc_fields_def field_line_def)

lemma reactor_http_text: "reactor_http bdy = request_text (request_line ''POST'' ''/rpc'' # map field_line (reactor_fields bdy)) bdy"
  by (simp add: reactor_http_def request_text_def request_line_def reactor_fields_def field_line_def)

text \<open>Neither client asks the server to close the connection.\<close>

lemma rpc_clean:
  assumes "field_ok (''Host'', host)" and "length bdy \<le> kMaxBodySize"
  shows "clean_fields ''POST'' ''/rpc'' (rpc_fields host bdy) bdy" and "keepAlive (fields_call ''POST'' ''/rpc'' (rpc_fields host bdy) bdy)"
proof -
  show c: "clean_fields ''POST'' ''/rpc'' (rpc_fields host bdy) bdy"
    using assms by (simp add: clean_fields_def rpc_fields_def tolower_fields request_line_def kMaxRequestLine_def field_ok_def)
  have "tolower ''connection'' = ''connection''" by code_simp
  then show "keepAlive (fields_call ''POST'' ''/rpc'' (rpc_fields host bdy) bdy)"
    by (simp add: keepAlive_def getHeader_def fields_call_values [OF c]) (simp add: rpc_fields_def tolower_fields)
qed

lemma reactor_clean:
  assumes "length bdy \<le> kMaxBodySize"
  shows "clean_fields ''POST'' ''/rpc'' (reactor_fields bdy) bdy" and "keepAlive (fields_call ''POST'' ''/rpc'' (reactor_fields bdy) bdy)"
proof -
  show c: "clean_fields ''POST'' ''/rpc'' (reactor_fields bdy) bdy"
    using assms by (simp add: clean_fields_def reactor_fields_def tolower_fields request_line_def kMaxRequestLine_def field_ok_def)
  have "tolower ''connection'' = ''connection''" by code_simp
  then show "keepAlive (fields_call ''POST'' ''/rpc'' (reactor_fields bdy) bdy)"
    by (simp add: keepAlive_def getHeader_def fields_call_values [OF c]) (simp add: reactor_fields_def tolower_fields)
qed

lemma rpc_served:
  assumes "json_laws J" and "RpcServer_core regex_ok J methods = Some cor"
    and "j_dump J (rpc_request J meth ps i) = Inr b" and "j_dump J (rpc_response J methods meth ps (sint i) (rpc_app w)) = Inr t"
    and "clean_fields ''POST'' ''/rpc'' fs b" and "keepAlive (fields_call ''POST'' ''/rpc'' fs b)"
  shows "serve_bytes env cor (request_text (request_line ''POST'' ''/rpc'' # map field_line fs) b) w =
    (toString (env_order env (json_reply t False)) (json_reply t False), w\<lparr>rpc_app := rpc_after methods meth ps (rpc_app w)\<rparr>)"
proof -
  note v = fields_call_values [OF assms(5)]
  have "respond env cor (fields_call ''POST'' ''/rpc'' fs b) w = (setJson t HttpResponse_new, w\<lparr>rpc_app := rpc_after methods meth ps (rpc_app w)\<rparr>, [])"
    by (rule rpc_respond [OF assms(2) _ _ rpc_handled [OF assms(1,3,4)]]) (simp_all add: v stringToMethod_def)
  from serve_bytes_json [OF assms(5) this] assms(6) show ?thesis by (simp add: Let_def)
qed

lemma printed_body_found:
  assumes "enumerates hs (resp_headers (json_reply t cl))"
  shows "\<exists>n. find_str (CRLF @ CRLF) (toString hs (json_reply t cl) @ rest) 0 = Some n \<and> substr_from (toString hs (json_reply t cl) @ rest) (n + 4) = t @ rest"
proof -
  let ?h = "join_lines (response_line (json_reply t cl) # map field_line (response_fields hs (json_reply t cl)))"
  note s = printed_reply_split [OF assms]
  have "index_sub (CRLF @ CRLF) ((?h @ CRLF @ CRLF @ t) @ rest) = Some (length ?h)" by (rule index_sub_prefix [OF s(2)])
  then have "find_str (CRLF @ CRLF) (toString hs (json_reply t cl) @ rest) 0 = Some (length ?h)" by (simp add: s(1))
  moreover have "substr_from (toString hs (json_reply t cl) @ rest) (length ?h + 4) = t @ rest"
    unfolding s(1) by (simp add: substr_from_def eval_nat_numeral)
  ultimately show ?thesis by blast
qed



section \<open>Promises of the client on the event loop\<close>

text \<open>
  The histories of the client: threads enter and transmit calls, the loop thread delivers data and connection changes.  With the state go the calls between their
  two critical sections and the promises whose futures were handed out.
\<close>

inductive rr_reach :: "('j, 'z) json_lib_scheme \<Rightarrow> 'j reactor_rpc \<Rightarrow> (u32 \<times> string) list \<Rightarrow> nat list \<Rightarrow> bool" for J where
  rr_init: "rr_reach J ReactorRpc_new [] []"
| rr_enters: "rr_reach J c fl qs \<Longrightarrow> rr_enter J meth ps c = (Inr (i, p, msg), c') \<Longrightarrow> rr_reach J c' (fl @ [(i, msg)]) (qs @ [p])"
| rr_throws: "rr_reach J c fl qs \<Longrightarrow> rr_enter J meth ps c = (Inl e, c') \<Longrightarrow> rr_reach J c' fl qs"
| rr_transmits: "rr_reach J c (fl1 @ (i, msg) # fl2) qs \<Longrightarrow> rr_reach J (rr_transmit J i msg c) (fl1 @ fl2) qs"
| rr_message: "rr_reach J c fl qs \<Longrightarrow> rr_reach J (rr_onMessage J data c) fl qs"
| rr_connection: "rr_reach J c fl qs \<Longrightarrow> rr_reach J (rr_onConnection up c) fl qs"

definition promise_id :: "nat \<Rightarrow> u32" where
  "promise_id p = of_nat (p + 1)"

definition rr_inv :: "'j reactor_rpc \<Rightarrow> nat list \<Rightarrow> bool" where
  "rr_inv c qs \<longleftrightarrow>
     rr_nextId c = promise_id (rr_nextPromise c) \<and> (\<forall>p \<in> set qs. p < rr_nextPromise c) \<and>
     (\<forall>i p. rr_pending c i = Some p \<longrightarrow> i = promise_id p) \<and>
     distinct (map fst (rr_fulfilled c)) \<and> ran (rr_pending c) \<inter> fst ` set (rr_fulfilled c) = {} \<and>
     set qs = ran (rr_pending c) \<union> fst ` set (rr_fulfilled c)"

lemma unat_promise_id: "p < 2 ^ 32 - 1 \<Longrightarrow> unat (promise_id p) = p + 1"
  by (simp add: promise_id_def unat_of_nat del: of_nat_add of_nat_Suc)

lemma promise_id_inj: "p < 2 ^ 32 - 1 \<Longrightarrow> q < 2 ^ 32 - 1 \<Longrightarrow> promise_id p = promise_id q \<Longrightarrow> p = q"
  by (metis add_right_cancel unat_promise_id)

text \<open>Taking a pending promise and fulfilling it.\<close>

lemma rr_inv_fulfil:
  assumes "rr_inv c qs" and "rr_pending c i = Some p"
  shows "rr_inv (c\<lparr>rr_fulfilled := rr_fulfilled c @ [(p, v)], rr_pending := (rr_pending c)(i := None)\<rparr>) qs"
proof -
  note I = assms(1) [unfolded rr_inv_def]
  have u: "j = i" if "rr_pending c j = Some p" for j using that assms(2) I by metis
  have r: "ran ((rr_pending c)(i := None)) = ran (rr_pending c) - {p}"
  proof -
    have "q \<in> ran ((rr_pending c)(i := None)) \<longleftrightarrow> q \<in> ran (rr_pending c) \<and> q \<noteq> p" for q
      unfolding ran_def mem_Collect_eq fun_upd_apply by (metis assms(2) option.distinct(1) option.inject u)
    then show ?thesis by blast
  qed
  have p: "p \<in> ran (rr_pending c)" using assms(2) by (auto simp: ran_def)
  have "set qs = ran (rr_pending c) - {p} \<union> insert p (fst ` set (rr_fulfilled c))" using I p by blast
  moreover have "p \<notin> fst ` set (rr_fulfilled c)" using I p by blast
  moreover have "(ran (rr_pending c) - {p}) \<inter> insert p (fst ` set (rr_fulfilled c)) = {}" using I by blast
  ultimately show ?thesis using I by (simp add: rr_inv_def r)
qed

lemma rr_inv_enter:
  assumes "rr_inv c qs" and "rr_nextPromise c < 2 ^ 32 - 1" and "rr_enter J meth ps c = (Inr (i, p, msg), c')"
  shows "rr_inv c' (qs @ [p])"
proof -
  note I = assms(1) [unfolded rr_inv_def]
  have e: "i = rr_nextId c" "p = rr_nextPromise c"
    "c' = c\<lparr>rr_nextId := rr_nextId c + 1, rr_nextPromise := p + 1, rr_pending := (rr_pending c)(i \<mapsto> p)\<rparr>"
    using assms(3) by (auto simp: rr_enter_def Let_def split: sum.splits)
  have fresh: "rr_pending c i = None"
  proof (rule ccontr)
    assume "rr_pending c i \<noteq> None"
    then obtain q where q: "rr_pending c i = Some q" by blast
    then have "i = promise_id q" "q < rr_nextPromise c" using I by (auto simp: ran_def)
    then show False using promise_id_inj [of q "rr_nextPromise c"] assms(2) I e(1) by simp
  qed
  have r: "ran ((rr_pending c)(i \<mapsto> p)) = insert p (ran (rr_pending c))" using fresh by simp
  have f: "rr_nextId c' = rr_nextId c + 1" "rr_nextPromise c' = p + 1" "rr_pending c' = (rr_pending c)(i \<mapsto> p)" "rr_fulfilled c' = rr_fulfilled c"
    by (simp_all add: e(3))
  have n: "i = promise_id p" using I e(1,2) by simp
  have "rr_nextId c + 1 = promise_id (p + 1)" using I by (simp add: promise_id_def e(2))
  moreover have "\<forall>q \<in> set qs. q < p" using I e(2) by simp
  then have "\<forall>q \<in> set (qs @ [p]). q < p + 1" by auto
  moreover have "\<forall>j q. ((rr_pending c)(i \<mapsto> p)) j = Some q \<longrightarrow> j = promise_id q" using I n by simp
  moreover have "p \<notin> fst ` set (rr_fulfilled c)" using I e(2) by (metis UnCI less_irrefl)
  then have "insert p (ran (rr_pending c)) \<inter> fst ` set (rr_fulfilled c) = {}" using I by blast
  moreover have "set (qs @ [p]) = insert p (ran (rr_pending c)) \<union> fst ` set (rr_fulfilled c)" using I by simp
  ultimately show ?thesis using I unfolding rr_inv_def f r by blast
qed

lemma nextPromise_frame [simp]:
  "rr_nextPromise (rr_transmit J i msg c) = rr_nextPromise c" "rr_nextPromise (rr_onMessage J data c) = rr_nextPromise c"
  "rr_nextPromise (rr_onConnection up c) = rr_nextPromise c"
  by (auto simp: rr_transmit_def rr_onMessage_def rr_onConnection_def split: option.splits sum.splits prod.splits)

lemma rr_inv_onMessage: "rr_inv c qs \<Longrightarrow> rr_inv (rr_onMessage J data c) qs"
  using rr_inv_fulfil [of c qs] by (auto simp: rr_onMessage_def split: option.splits sum.splits prod.splits)

lemma rr_inv_transmit:
  assumes "rr_inv c qs"
  shows "rr_inv (rr_transmit J i msg c) qs"
proof (cases "rr_conn c")
  case True
  then show ?thesis using assms by (simp add: rr_transmit_def rr_inv_def)
next
  case False
  then show ?thesis using assms rr_inv_fulfil [OF assms, of i] by (simp add: rr_transmit_def split: option.splits)
qed

lemma rr_reach_inv: "rr_reach J c fl qs \<Longrightarrow> rr_nextPromise c < 2 ^ 32 \<Longrightarrow> rr_inv c qs"
proof (induction rule: rr_reach.induct)
  case rr_init
  then show ?case by (simp add: rr_inv_def ReactorRpc_new_def promise_id_def)
next
  case (rr_enters c fl qs meth ps i p msg c')
  then have "rr_nextPromise c' = rr_nextPromise c + 1" by (auto simp: rr_enter_def Let_def split: sum.splits)
  then show ?case using rr_enters by (intro rr_inv_enter [OF _ _ rr_enters(2)]) auto
next
  case (rr_throws c fl qs meth ps e c')
  then have "c' = c\<lparr>rr_nextId := rr_nextId c + 1, rr_nextPromise := rr_nextPromise c + 1\<rparr>"
    by (auto simp: rr_enter_def Let_def split: sum.splits)
  then have f: "rr_nextId c' = rr_nextId c + 1" "rr_nextPromise c' = rr_nextPromise c + 1" "rr_pending c' = rr_pending c" "rr_fulfilled c' = rr_fulfilled c"
    by simp_all
  have I: "rr_inv c qs" using rr_throws f(2) by simp
  then have "\<forall>p \<in> set qs. p < rr_nextPromise c + 1" unfolding rr_inv_def by (meson less_SucI add_lessD1 less_add_one less_trans)
  moreover have "rr_nextId c + 1 = promise_id (rr_nextPromise c + 1)" using I by (simp add: rr_inv_def promise_id_def)
  ultimately show ?case using I unfolding rr_inv_def f by blast
next
  case (rr_connection c fl qs up)
  then show ?case by (simp add: rr_inv_def rr_onConnection_def)
qed (simp_all add: rr_inv_onMessage rr_inv_transmit)

text \<open>
  (C34) No promise of the RPC client is lost or kept twice: under every interleaving of calls from any threads, responses and connection changes, and for up to
  \<open>2 ^ 32\<close> calls, every promise whose future was handed out is either pending under its own id or has been fulfilled exactly once.
\<close>

theorem reactor_promises_kept:
  assumes "rr_reach J c fl qs" and "rr_nextPromise c < 2 ^ 32"
  shows "distinct (map fst (rr_fulfilled c)) \<and> ran (rr_pending c) \<inter> fst ` set (rr_fulfilled c) = {} \<and>
    set qs = ran (rr_pending c) \<union> fst ` set (rr_fulfilled c) \<and> (\<forall>i p. rr_pending c i = Some p \<longrightarrow> i = promise_id p)"
  using rr_reach_inv [OF assms] by (simp add: rr_inv_def)

section \<open>Answers to the client on the event loop\<close>

definition method_throws :: "('j, 'w) rpc_methods \<Rightarrow> string \<Rightarrow> 'j \<Rightarrow> 'w \<Rightarrow> bool" where
  "method_throws methods meth ps a = (case methods meth of None \<Rightarrow> False | Some f \<Rightarrow> isl (fst (f ps a)))"

lemma response_id:
  assumes "json_laws J"
  shows "j_value_int J (rpc_response J methods meth ps (sint (i :: u32)) a) ''id'' (-1) = Inr (if method_throws methods meth ps a then 0 else sint i)"
proof -
  have r: "j_value_int J (j_object J ((''jsonrpc'', x) # (''id'', j_int J k) # kvs)) ''id'' (-1) = Inr k" if "- (2 ^ 31) \<le> k" "k < 2 ^ 31" for x k kvs
    by (rule json_values(3) [OF assms _ that]) simp
  show ?thesis
    using r [of 0] r [OF sint_u32_range [of i]]
    by (auto simp: rpc_response_def method_throws_def rpc_catch_def rpc_makeError_def makeResponse_def split: option.splits sum.splits json_exn.splits)
qed


text \<open>Two answers in one read are both lost, since the JSON library refuses the text of the second after the first.\<close>

lemma coalesced_answers_lost:
  assumes "enumerates hs (resp_headers (json_reply t False))" and "j_parse J (t @ toString hs2 r2) = Inl e"
  shows "rr_onMessage J (toString hs (json_reply t False) @ toString hs2 r2) c = c"
  using printed_body_found [OF assms(1), of "toString hs2 r2"] assms(2) by (auto simp: rr_onMessage_def)


section \<open>Examples\<close>

definition ex_methods :: "(jtree, nat) rpc_methods" where
  "ex_methods = [''inc'' \<mapsto> (\<lambda>ps n. (Inr (JInt 7), Suc n)), ''bad'' \<mapsto> (\<lambda>ps n. (Inl (JOtherError ''x''), n))]"

lemma ex_core: "\<exists>cor. RpcServer_core (\<lambda>_. True) jtree_lib ex_methods = Some cor"
  by (simp add: RpcServer_core_def core_POST_def addRoute_def rpc_path_exact)

lemma dump_jtree: "j_dump jtree_lib j = Inr (jtree_print j)"
  by (simp add: jtree_lib_def)


definition ex_reactor :: "jtree reactor_rpc" where
  "ex_reactor = snd (rr_enter jtree_lib ''bad'' JNull ReactorRpc_new)"

lemma ex_reactor_reach: "\<exists>fl. rr_reach jtree_lib ex_reactor fl [0]"
  and ex_reactor_values: "rr_pending ex_reactor 1 = Some 0" "rr_nextPromise ex_reactor = 1" "rr_fulfilled ex_reactor = []"
proof -
  have e: "rr_enter jtree_lib ''bad'' JNull ReactorRpc_new =
      (Inr (1, 0, reactor_http (jtree_print (rpc_request jtree_lib ''bad'' JNull 1))), ex_reactor)"
    by (simp add: ex_reactor_def rr_enter_def ReactorRpc_new_def dump_jtree Let_def)
  from rr_enters [OF rr_init e] show "\<exists>fl. rr_reach jtree_lib ex_reactor fl [0]" by auto
  show "rr_pending ex_reactor 1 = Some 0" "rr_nextPromise ex_reactor = 1" "rr_fulfilled ex_reactor = []"
    by (simp_all add: ex_reactor_def rr_enter_def ReactorRpc_new_def dump_jtree Let_def)
qed

theorem reactor_promises_kept_witness: "ran (rr_pending ex_reactor) = {0} \<and> rr_fulfilled ex_reactor = []"
proof -
  obtain fl where r: "rr_reach jtree_lib ex_reactor fl [0]" using ex_reactor_reach by blast
  from reactor_promises_kept [OF r] show ?thesis by (simp add: ex_reactor_values)
qed


end
