(* ===== verification/LoggerModel.thy ===== *)
theory LoggerModel
  imports CppString
begin

text \<open>
  \<^verbatim>\<open>src/asynclogger/AsyncLogger.h\<close>: two buffers, the threads that log, and the thread that swaps the buffers and writes them out.  The writer is a
  program counter in the state, so that its steps interleave with the callers; what the clock, \<^verbatim>\<open>vsnprintf\<close> and the file system answer is an argument.
\<close>

section \<open>Entries\<close>

datatype LogLevel = DEBUG | INFO | WARN | ERROR | FATAL

fun level_num :: "LogLevel \<Rightarrow> nat" where
  "level_num DEBUG = 0"
| "level_num INFO = 1"
| "level_num WARN = 2"
| "level_num ERROR = 3"
| "level_num FATAL = 4"

lemma level_num_inject [simp]: "level_num a = level_num b \<longleftrightarrow> a = b"
  by (cases a; cases b) simp_all

instantiation LogLevel :: linorder
begin

definition less_eq_LogLevel :: "LogLevel \<Rightarrow> LogLevel \<Rightarrow> bool" where
  "a \<le> b \<longleftrightarrow> level_num a \<le> level_num b"

definition less_LogLevel :: "LogLevel \<Rightarrow> LogLevel \<Rightarrow> bool" where
  "a < b \<longleftrightarrow> level_num a < level_num b"

instance
  by standard (auto simp: less_eq_LogLevel_def less_LogLevel_def)

end

record log_entry =
  le_level :: LogLevel
  le_timestamp :: string
  le_file :: string
  le_line :: int
  le_message :: string

text \<open>\<^verbatim>\<open>getTimestamp\<close>: the text of \<^verbatim>\<open>strftime\<close> for the second, and the milliseconds.\<close>

definition getTimestamp :: "(int \<Rightarrow> string) \<Rightarrow> int \<Rightarrow> string" where
  "getTimestamp strftime now_ms = strftime (now_ms div 1000) @ ''.'' @ int_to_string (now_ms mod 1000)"

fun levelStr :: "LogLevel \<Rightarrow> string" where
  "levelStr DEBUG = ''DEBUG''"
| "levelStr INFO = ''INFO''"
| "levelStr WARN = ''WARN''"
| "levelStr ERROR = ''ERROR''"
| "levelStr FATAL = ''FATAL''"

definition formatEntry :: "log_entry \<Rightarrow> string" where
  "formatEntry e =
     ''['' @ le_timestamp e @ ''] ['' @ levelStr (le_level e) @ ''] '' @ le_file e @ '':'' @ int_to_string (le_line e) @ '' '' @ le_message e @ [LF]"

section \<open>The logger\<close>

text \<open>Where the writer thread is: not started, at the loop test, waiting, before the file is opened, before it writes, returned.\<close>

datatype writer_pc = WNone | WTest | WWait | WOpen | WWrite | WDone

record async_logger =
  lg_level :: LogLevel
  lg_filename :: string
  lg_running :: bool
  lg_bufferA :: "log_entry list"
  lg_bufferB :: "log_entry list"
  lg_current_is_A :: bool
  lg_writer :: writer_pc
  lg_joinable :: bool
  lg_fileOpened :: bool
  lg_file :: string
  lg_stderr :: string

definition AsyncLogger_new :: async_logger where
  "AsyncLogger_new =
     \<lparr>lg_level = INFO, lg_filename = ''/tmp/mymuduo.log'', lg_running = False, lg_bufferA = [], lg_bufferB = [], lg_current_is_A = True,
      lg_writer = WNone, lg_joinable = False, lg_fileOpened = False, lg_file = [], lg_stderr = []\<rparr>"

definition kFlushThreshold :: nat where
  "kFlushThreshold = 1000"

definition currentBuffer :: "async_logger \<Rightarrow> log_entry list" where
  "currentBuffer l = (if lg_current_is_A l then lg_bufferA l else lg_bufferB l)"

definition flushBuffer :: "async_logger \<Rightarrow> log_entry list" where
  "flushBuffer l = (if lg_current_is_A l then lg_bufferB l else lg_bufferA l)"

definition push_current :: "log_entry \<Rightarrow> async_logger \<Rightarrow> async_logger" where
  "push_current e l = (if lg_current_is_A l then l\<lparr>lg_bufferA := lg_bufferA l @ [e]\<rparr> else l\<lparr>lg_bufferB := lg_bufferB l @ [e]\<rparr>)"

definition clear_flush :: "async_logger \<Rightarrow> async_logger" where
  "clear_flush l = (if lg_current_is_A l then l\<lparr>lg_bufferB := []\<rparr> else l\<lparr>lg_bufferA := []\<rparr>)"

definition setLogFile :: "string \<Rightarrow> async_logger \<Rightarrow> async_logger" where
  "setLogFile fname l = l\<lparr>lg_filename := fname\<rparr>"

definition setLogLevel :: "LogLevel \<Rightarrow> async_logger \<Rightarrow> async_logger" where
  "setLogLevel lv l = l\<lparr>lg_level := lv\<rparr>"

text \<open>\<^verbatim>\<open>start\<close>: \<open>None\<close> when the assignment to a thread object that was not joined ends the program.\<close>

definition logger_start :: "async_logger \<Rightarrow> async_logger option" where
  "logger_start l =
     (if lg_running l then Some l
      else if lg_joinable l then None
      else Some (l\<lparr>lg_running := True, lg_joinable := True, lg_writer := WTest, lg_fileOpened := False\<rparr>))"

text \<open>The two parts of \<^verbatim>\<open>stop\<close>: the flag, and the join, which returns once the writer has returned.\<close>

definition logger_stop :: "async_logger \<Rightarrow> async_logger" where
  "logger_stop l = (if lg_running l then l\<lparr>lg_running := False\<rparr> else l)"

definition logger_join :: "async_logger \<Rightarrow> async_logger option" where
  "logger_join l = (if \<not> lg_joinable l then Some l else if lg_writer l = WDone then Some (l\<lparr>lg_joinable := False\<rparr>) else None)"

text \<open>\<^verbatim>\<open>log\<close>: the entry, cut to the buffer of \<^verbatim>\<open>vsnprintf\<close>, and whether the writer is notified.\<close>

definition make_entry :: "LogLevel \<Rightarrow> string \<Rightarrow> string \<Rightarrow> int \<Rightarrow> string \<Rightarrow> log_entry" where
  "make_entry lv stamp fname line formatted =
     \<lparr>le_level = lv, le_timestamp = stamp, le_file = fname, le_line = line, le_message = take 4095 (takeWhile (\<lambda>c. c \<noteq> CHR 0x00) formatted)\<rparr>"

definition logger_log :: "LogLevel \<Rightarrow> string \<Rightarrow> string \<Rightarrow> int \<Rightarrow> string \<Rightarrow> async_logger \<Rightarrow> bool \<times> async_logger" where
  "logger_log lv stamp fname line formatted l =
     (if lv < lg_level l then (False, l)
      else let l1 = push_current (make_entry lv stamp fname line formatted) l
           in (length (currentBuffer l1) \<ge> kFlushThreshold, l1))"

text \<open>
  One step of \<^verbatim>\<open>writerLoop\<close>.  The wait ends by a notification, by its timeout or spuriously, so a step is always possible there; \<open>opens\<close> tells whether
  the file can be opened.
\<close>

definition writer_step :: "(string \<Rightarrow> bool) \<Rightarrow> async_logger \<Rightarrow> async_logger" where
  "writer_step opens l =
     (case lg_writer l of
        WTest \<Rightarrow> l\<lparr>lg_writer := if lg_running l \<or> currentBuffer l \<noteq> [] then WWait else WDone\<rparr>
      | WWait \<Rightarrow> l\<lparr>lg_current_is_A := \<not> lg_current_is_A l, lg_writer := WOpen\<rparr>
      | WOpen \<Rightarrow>
          if lg_fileOpened l then l\<lparr>lg_writer := WWrite\<rparr>
          else if opens (lg_filename l) then l\<lparr>lg_fileOpened := True, lg_writer := WWrite\<rparr>
          else (clear_flush (l\<lparr>lg_stderr := lg_stderr l @ concat (map formatEntry (flushBuffer l))\<rparr>))\<lparr>lg_writer := WTest\<rparr>
      | WWrite \<Rightarrow> (clear_flush (l\<lparr>lg_file := lg_file l @ concat (map formatEntry (flushBuffer l))\<rparr>))\<lparr>lg_writer := WTest\<rparr>
      | _ \<Rightarrow> l)"


section \<open>Histories\<close>

text \<open>What a step of the writer writes: to the file (\<open>True\<close>) or to the standard error stream.\<close>

definition written_by :: "(string \<Rightarrow> bool) \<Rightarrow> async_logger \<Rightarrow> (bool \<times> log_entry) list" where
  "written_by opens l =
     (case lg_writer l of
        WOpen \<Rightarrow> if lg_fileOpened l \<or> opens (lg_filename l) then [] else map (Pair False) (flushBuffer l)
      | WWrite \<Rightarrow> map (Pair True) (flushBuffer l)
      | _ \<Rightarrow> [])"

text \<open>
  With the state go the entries that were accepted, those that were written, in order, and the number of entries that had been accepted when the logger was
  stopped for the last time.
\<close>

inductive log_reach :: "async_logger \<Rightarrow> log_entry list \<Rightarrow> (bool \<times> log_entry) list \<Rightarrow> nat \<Rightarrow> bool" where
  log_init: "log_reach AsyncLogger_new [] [] 0"
| log_drop: "log_reach l acc ws m \<Longrightarrow> lv < lg_level l \<Longrightarrow> log_reach (snd (logger_log lv stamp fname line msg l)) acc ws m"
| log_accept: "log_reach l acc ws m \<Longrightarrow> \<not> lv < lg_level l \<Longrightarrow>
    log_reach (snd (logger_log lv stamp fname line msg l)) (acc @ [make_entry lv stamp fname line msg]) ws m"
| log_writer: "log_reach l acc ws m \<Longrightarrow> log_reach (writer_step opens l) acc (ws @ written_by opens l) m"
| log_start: "log_reach l acc ws m \<Longrightarrow> logger_start l = Some l' \<Longrightarrow> log_reach l' acc ws m"
| log_stop: "log_reach l acc ws m \<Longrightarrow> log_reach (logger_stop l) acc ws (if lg_running l then length acc else m)"
| log_join: "log_reach l acc ws m \<Longrightarrow> logger_join l = Some l' \<Longrightarrow> log_reach l' acc ws m"
| log_level: "log_reach l acc ws m \<Longrightarrow> log_reach (setLogLevel lv l) acc ws m"
| log_file: "log_reach l acc ws m \<Longrightarrow> log_reach (setLogFile fname l) acc ws m"

definition sink_text :: "bool \<Rightarrow> (bool \<times> log_entry) list \<Rightarrow> string" where
  "sink_text sink ws = concat (map (formatEntry \<circ> snd) (filter (\<lambda>w. fst w = sink) ws))"

definition log_inv :: "async_logger \<Rightarrow> log_entry list \<Rightarrow> (bool \<times> log_entry) list \<Rightarrow> nat \<Rightarrow> bool" where
  "log_inv l acc ws m \<longleftrightarrow>
     m \<le> length acc \<and> (lg_writer l = WDone \<longrightarrow> m \<le> length ws) \<and> acc = map snd ws @ flushBuffer l @ currentBuffer l \<and>
     (lg_writer l \<notin> {WOpen, WWrite} \<longrightarrow> flushBuffer l = []) \<and>
     (lg_writer l \<notin> {WNone, WDone} \<longrightarrow> lg_joinable l) \<and> (lg_joinable l \<longrightarrow> lg_writer l \<noteq> WNone) \<and>
     (lg_running l \<longrightarrow> lg_joinable l \<and> lg_writer l \<noteq> WDone) \<and>
     lg_file l = sink_text True ws \<and> lg_stderr l = sink_text False ws"

lemmas logger_defs = currentBuffer_def flushBuffer_def push_current_def clear_flush_def

lemma sink_text_append [simp]: "sink_text s (ws @ vs) = sink_text s ws @ sink_text s vs"
  by (simp add: sink_text_def)

lemma sink_text_Nil [simp]: "sink_text s [] = []"
  by (simp add: sink_text_def)

lemma sink_text_Pair: "sink_text s (map (Pair t) es) = (if s = t then concat (map formatEntry es) else [])"
  by (induction es) (auto simp: sink_text_def)

lemma map_snd_Pair [simp]: "map snd (map (Pair t) es) = es"
  by (induction es) auto

lemma buffers_pc [simp]:
  "currentBuffer (l\<lparr>lg_writer := w\<rparr>) = currentBuffer l" "flushBuffer (l\<lparr>lg_writer := w\<rparr>) = flushBuffer l"
  "currentBuffer (l\<lparr>lg_running := b\<rparr>) = currentBuffer l" "flushBuffer (l\<lparr>lg_running := b\<rparr>) = flushBuffer l"
  "currentBuffer (l\<lparr>lg_joinable := b\<rparr>) = currentBuffer l" "flushBuffer (l\<lparr>lg_joinable := b\<rparr>) = flushBuffer l"
  "currentBuffer (l\<lparr>lg_fileOpened := b\<rparr>) = currentBuffer l" "flushBuffer (l\<lparr>lg_fileOpened := b\<rparr>) = flushBuffer l"
  "currentBuffer (l\<lparr>lg_level := lv\<rparr>) = currentBuffer l" "flushBuffer (l\<lparr>lg_level := lv\<rparr>) = flushBuffer l"
  "currentBuffer (l\<lparr>lg_filename := f\<rparr>) = currentBuffer l" "flushBuffer (l\<lparr>lg_filename := f\<rparr>) = flushBuffer l"
  by (simp_all add: currentBuffer_def flushBuffer_def)

lemma log_inv_writer:
  assumes "log_inv l acc ws m"
  shows "log_inv (writer_step opens l) acc (ws @ written_by opens l) m"
proof (cases "lg_writer l")
  case WTest
  then show ?thesis using assms by (auto simp: log_inv_def writer_step_def written_by_def)
next
  case WWait
  then show ?thesis using assms by (auto simp: log_inv_def writer_step_def written_by_def logger_defs)
next
  case WOpen
  then show ?thesis using assms by (auto simp: log_inv_def writer_step_def written_by_def logger_defs sink_text_Pair simp del: map_map)
next
  case WWrite
  then show ?thesis using assms by (auto simp: log_inv_def writer_step_def written_by_def logger_defs sink_text_Pair simp del: map_map)
qed (use assms in \<open>auto simp: log_inv_def writer_step_def written_by_def\<close>)

lemma log_reach_inv: "log_reach l acc ws m \<Longrightarrow> log_inv l acc ws m"
proof (induction rule: log_reach.induct)
  case log_init
  then show ?case by (simp add: log_inv_def AsyncLogger_new_def logger_defs)
next
  case (log_accept l acc ws m lv stamp fname line msg)
  then show ?case by (auto simp: log_inv_def logger_log_def Let_def logger_defs)
next
  case (log_writer l acc ws m opens)
  then show ?case by (simp add: log_inv_writer)
next
  case (log_start l acc ws m l')
  then show ?case by (auto simp: log_inv_def logger_start_def split: if_splits)
qed (auto simp: log_inv_def logger_log_def logger_stop_def logger_join_def setLogLevel_def setLogFile_def split: if_splits)


section \<open>Stopping\<close>

definition finished :: "async_logger \<Rightarrow> bool" where
  "finished l \<longleftrightarrow> lg_writer l = WDone \<and> currentBuffer l = [] \<and> flushBuffer l = []"

text \<open>The writer alone finishes within so many steps.\<close>

definition drains :: "(string \<Rightarrow> bool) \<Rightarrow> nat \<Rightarrow> async_logger \<Rightarrow> bool" where
  "drains opens n l \<longleftrightarrow> (\<exists>k \<le> n. finished ((writer_step opens ^^ k) l))"

lemma drains_step: "drains opens n (writer_step opens l) \<Longrightarrow> drains opens (Suc n) l"
  unfolding drains_def by (metis Suc_le_mono comp_apply funpow_Suc_right)

lemma drains_mono: "drains opens n l \<Longrightarrow> n \<le> m \<Longrightarrow> drains opens m l"
  unfolding drains_def by (meson le_trans)

lemma drains_empty_test:
  assumes "lg_writer l = WTest" and "\<not> lg_running l" and "currentBuffer l = []" and "flushBuffer l = []"
  shows "drains opens 1 l"
proof -
  have "finished (writer_step opens l)" using assms by (simp add: finished_def writer_step_def logger_defs split: if_splits)
  then have "drains opens 0 (writer_step opens l)" by (simp add: drains_def)
  from drains_step [OF this] show ?thesis by simp
qed

lemma drains_write:
  assumes "lg_writer l = WWrite" and "\<not> lg_running l" and "currentBuffer l = []"
  shows "drains opens 2 l"
  using drains_step [OF drains_empty_test [of "writer_step opens l" opens]] assms
  by (simp add: writer_step_def logger_defs eval_nat_numeral split: if_splits)

lemma drains_open:
  assumes "lg_writer l = WOpen" and "\<not> lg_running l" and "currentBuffer l = []"
  shows "drains opens 3 l"
proof (cases "lg_fileOpened l \<or> opens (lg_filename l)")
  case True
  then show ?thesis using drains_step [OF drains_write [of "writer_step opens l" opens]] assms
    by (auto simp: writer_step_def logger_defs eval_nat_numeral split: if_splits)
next
  case False
  then have "drains opens 2 l" using drains_step [OF drains_empty_test [of "writer_step opens l" opens]] assms
    by (auto simp: writer_step_def logger_defs eval_nat_numeral split: if_splits)
  then show ?thesis by (rule drains_mono) simp
qed

lemma drains_wait:
  assumes "lg_writer l = WWait" and "\<not> lg_running l" and "flushBuffer l = []"
  shows "drains opens 4 l"
  using drains_step [OF drains_open [of "writer_step opens l" opens]] assms
  by (simp add: writer_step_def logger_defs eval_nat_numeral split: if_splits)

lemma drains_test:
  assumes "lg_writer l = WTest" and "\<not> lg_running l" and "flushBuffer l = []"
  shows "drains opens 5 l"
proof (cases "currentBuffer l = []")
  case True
  from drains_empty_test [OF assms(1,2) True assms(3)] show ?thesis by (rule drains_mono) simp
next
  case False
  then show ?thesis using drains_step [OF drains_wait [of "writer_step opens l" opens]] assms
    by (simp add: writer_step_def logger_defs eval_nat_numeral split: if_splits)
qed

lemma drains_any_write:
  assumes "lg_writer l = WWrite" and "\<not> lg_running l"
  shows "drains opens 6 l"
  using drains_step [OF drains_test [of "writer_step opens l" opens]] assms
  by (simp add: writer_step_def logger_defs eval_nat_numeral split: if_splits)

lemma drains_any_open:
  assumes "lg_writer l = WOpen" and "\<not> lg_running l"
  shows "drains opens 7 l"
proof (cases "lg_fileOpened l \<or> opens (lg_filename l)")
  case True
  then show ?thesis using drains_step [OF drains_any_write [of "writer_step opens l" opens]] assms
    by (auto simp: writer_step_def logger_defs eval_nat_numeral split: if_splits)
next
  case False
  then have "drains opens 6 l" using drains_step [OF drains_test [of "writer_step opens l" opens]] assms
    by (auto simp: writer_step_def logger_defs eval_nat_numeral split: if_splits)
  then show ?thesis by (rule drains_mono) simp
qed

lemma drains_always:
  assumes "log_inv l acc ws m" and "\<not> lg_running l" and "lg_joinable l" and "lg_writer l \<noteq> WDone"
  shows "drains opens 7 l"
proof -
  have f: "lg_writer l \<notin> {WOpen, WWrite} \<Longrightarrow> flushBuffer l = []" and "lg_writer l \<noteq> WNone" using assms by (simp_all add: log_inv_def)
  with assms(4) consider "lg_writer l = WTest" | "lg_writer l = WWait" | "lg_writer l = WOpen" | "lg_writer l = WWrite" by (cases "lg_writer l") auto
  then show ?thesis
  proof cases
    case 1
    then have "drains opens 5 l" using drains_test [OF 1 assms(2)] f by simp
    then show ?thesis by (rule drains_mono) simp
  next
    case 2
    then have "drains opens 4 l" using drains_wait [OF 2 assms(2)] f by simp
    then show ?thesis by (rule drains_mono) simp
  next
    case 3
    then show ?thesis by (rule drains_any_open [OF _ assms(2)])
  next
    case 4
    then have "drains opens 6 l" by (rule drains_any_write [OF _ assms(2)])
    then show ?thesis by (rule drains_mono) simp
  qed
qed

lemma writer_steps_reach: "log_reach l acc ws m \<Longrightarrow> \<exists>ws'. log_reach ((writer_step opens ^^ k) l) acc ws' m"
proof (induction k)
  case (Suc k)
  then obtain ws' where "log_reach ((writer_step opens ^^ k) l) acc ws' m" by blast
  from log_writer [OF this, of opens] show ?case by auto
qed auto

section \<open>Properties\<close>

text \<open>
  (C36) The asynchronous logger neither loses, repeats nor reorders entries: under every interleaving of logging threads with the writer, and across restarts, the
  accepted entries are those already written, then those in the buffer being flushed, then those in the current buffer; file and standard error hold exactly the
  formatted text of what was written to them; and when the writer has returned, everything accepted before the logger was stopped has been written.
\<close>

theorem logger_keeps_entries:
  assumes "log_reach l acc ws m"
  shows "acc = map snd ws @ flushBuffer l @ currentBuffer l \<and> lg_file l = sink_text True ws \<and> lg_stderr l = sink_text False ws \<and>
    (lg_writer l = WDone \<longrightarrow> take m acc = take m (map snd ws))"
  using log_reach_inv [OF assms] by (auto simp: log_inv_def)

text \<open>
  (C37) Stopping a running logger ends: when nothing more is logged, the writer returns after at most seven of its steps with both buffers empty and every accepted
  entry written, so the join in \<^verbatim>\<open>stop\<close> returns, whether or not the file can be opened.
\<close>

theorem stop_writes_everything:
  assumes "log_reach l acc ws m" and "lg_running l"
  shows "\<exists>k \<le> 7. \<exists>ws'. let l' = (writer_step opens ^^ k) (logger_stop l) in
    log_reach l' acc ws' (length acc) \<and> map snd ws' = acc \<and> logger_join l' = Some (l'\<lparr>lg_joinable := False\<rparr>)"
proof -
  have r: "log_reach (logger_stop l) acc ws (length acc)" using log_stop [OF assms(1)] assms(2) by simp
  have i: "log_inv l acc ws m" by (rule log_reach_inv [OF assms(1)])
  then have s: "\<not> lg_running (logger_stop l)" "lg_joinable (logger_stop l)" "lg_writer (logger_stop l) \<noteq> WDone"
    using assms(2) by (simp_all add: log_inv_def logger_stop_def)
  from drains_always [OF log_reach_inv [OF r] s, of opens]
  obtain k where k: "k \<le> 7" "finished ((writer_step opens ^^ k) (logger_stop l))" unfolding drains_def by blast
  obtain ws' where w: "log_reach ((writer_step opens ^^ k) (logger_stop l)) acc ws' (length acc)" using writer_steps_reach [OF r] by blast
  have "lg_joinable ((writer_step opens ^^ j) x) = lg_joinable x" for j x
    by (induction j) (simp_all add: writer_step_def clear_flush_def split: writer_pc.split)
  then have "lg_joinable ((writer_step opens ^^ k) (logger_stop l))" using s(2) by simp
  moreover have "map snd ws' = acc" using log_reach_inv [OF w] k(2) by (simp add: log_inv_def finished_def)
  ultimately show ?thesis using k w by (auto simp: Let_def logger_join_def finished_def)
qed

text \<open>A logger that was started and has accepted an entry, for the examples.\<close>

definition ex_logger :: async_logger where
  "ex_logger = snd (logger_log WARN ''t'' ''f'' 7 ''m'' (the (logger_start AsyncLogger_new)))"

lemma ex_logger_reach: "log_reach ex_logger [make_entry WARN ''t'' ''f'' 7 ''m''] [] 0"
proof -
  have s: "logger_start AsyncLogger_new = Some (the (logger_start AsyncLogger_new))" by (simp add: logger_start_def AsyncLogger_new_def)
  have "\<not> WARN < lg_level (the (logger_start AsyncLogger_new))" by (simp add: logger_start_def AsyncLogger_new_def less_LogLevel_def)
  from log_accept [OF log_start [OF log_init s] this, of "''t''" "''f''" 7 "''m''"] show ?thesis by (simp add: ex_logger_def)
qed

theorem logger_keeps_entries_witness: "currentBuffer ex_logger = [make_entry WARN ''t'' ''f'' 7 ''m''] \<and> flushBuffer ex_logger = []"
  using logger_keeps_entries [OF ex_logger_reach]
  by (simp add: ex_logger_def logger_log_def logger_start_def AsyncLogger_new_def less_LogLevel_def logger_defs Let_def)

theorem stop_writes_everything_witness:
  "\<exists>k \<le> 7. \<exists>ws'. log_reach ((writer_step (\<lambda>_. True) ^^ k) (logger_stop ex_logger)) [make_entry WARN ''t'' ''f'' 7 ''m''] ws' 1 \<and>
     map snd ws' = [make_entry WARN ''t'' ''f'' 7 ''m'']"
proof -
  have "lg_running ex_logger" by (simp add: ex_logger_def logger_log_def logger_start_def AsyncLogger_new_def less_LogLevel_def Let_def push_current_def)
  from stop_writes_everything [OF ex_logger_reach this, of "\<lambda>_. True"] show ?thesis unfolding Let_def by (metis One_nat_def list.size(3,4) add_0)
qed

text \<open>The milliseconds of a time stamp are not padded: five milliseconds are printed like half a second.\<close>

lemma timestamp_not_padded: "getTimestamp f 5 = f 0 @ ''.5''"
  by (simp add: getTimestamp_def int_to_string_def to_string.simps) code_simp

text \<open>A start while another thread is between the two parts of a stop ends the program.\<close>

lemma start_during_stop_terminates: "log_inv l acc ws m \<Longrightarrow> lg_running l \<Longrightarrow> logger_start (logger_stop l) = None"
  by (simp add: log_inv_def logger_start_def logger_stop_def)

end
