(* ===== verification/DbPoolModel.thy ===== *)
theory DbPoolModel
  imports PoolModel HttpClientModel "HOL-Library.Multiset"
begin

text \<open>
  \<^verbatim>\<open>src/pool/MySQLPool.h\<close> and \<^verbatim>\<open>src/pool/RedisPool.h\<close>: the pools of database connections, connections being numbers.  What the client libraries answer (whether
  a connection was made, answers a ping, is without error) is an argument.  Both pools lend connections under the contract of \<open>lending_pool\<close>; the
  connection wrapper, prepared statements and transactions of MySQL follow.
\<close>

section \<open>State\<close>

text \<open>
  The fields of both pools: the idle queue, the count, the second each connection was last used.  \<open>dp_lent\<close> are the connections clients hold, \<open>dp_reserved\<close> the
  places of threads that connect outside the lock, \<open>dp_freed\<close> the connections whose last reference is gone, \<open>dp_foreign\<close> connections that came
  from another pool.
\<close>

record db_pool =
  dp_minSize :: nat
  dp_maxSize :: nat
  dp_idleTimeoutSec :: int
  dp_total :: nat
  dp_closed :: bool
  dp_queue :: "nat list"
  dp_lastUsed :: "nat \<Rightarrow> int"
  dp_next :: nat
  dp_lent :: "nat list"
  dp_reserved :: nat
  dp_freed :: "nat list"
  dp_foreign :: "nat list"

text \<open>\<open>made\<close> tells for each attempt of the constructor whether the connection is valid; others are skipped.\<close>

definition db_pool_new :: "nat \<Rightarrow> nat \<Rightarrow> int \<Rightarrow> int \<Rightarrow> bool list \<Rightarrow> db_pool" where
  "db_pool_new minSize maxSize idle now made =
     (let n = length (filter id (take minSize made)) in
      \<lparr>dp_minSize = minSize, dp_maxSize = maxSize, dp_idleTimeoutSec = idle, dp_total = n, dp_closed = False, dp_queue = [0..<n],
       dp_lastUsed = (\<lambda>_. now), dp_next = n, dp_lent = [], dp_reserved = 0, dp_freed = [], dp_foreign = []\<rparr>)"

definition db_reserve :: "db_pool \<Rightarrow> acquired \<times> db_pool" where
  "db_reserve p =
     (if dp_total p < dp_maxSize p then (Reserved, p\<lparr>dp_total := dp_total p + 1, dp_reserved := dp_reserved p + 1\<rparr>) else (NoConnection, p))"

definition db_lend :: "int \<Rightarrow> nat \<Rightarrow> nat list \<Rightarrow> db_pool \<Rightarrow> acquired \<times> db_pool" where
  "db_lend now i q p = (Reused i, p\<lparr>dp_queue := q, dp_lastUsed := (dp_lastUsed p)(i := now), dp_lent := dp_lent p @ [i]\<rparr>)"

text \<open>A connection that leaves the pool, and the guarded decrement of the count.\<close>

definition db_discard :: "nat \<Rightarrow> db_pool \<Rightarrow> db_pool" where
  "db_discard i p = p\<lparr>dp_total := guarded_dec (dp_total p), dp_freed := dp_freed p @ [i]\<rparr>"

section \<open>Acquiring\<close>

text \<open>\<^verbatim>\<open>MySQLPool::acquire\<close> after the wait, up to the unlock: idle connections that do not answer a ping are dropped until one does.\<close>

fun my_reuse :: "(nat \<Rightarrow> bool) \<Rightarrow> int \<Rightarrow> nat list \<Rightarrow> db_pool \<Rightarrow> acquired \<times> db_pool" where
  "my_reuse ping now [] p = db_reserve (p\<lparr>dp_queue := []\<rparr>)"
| "my_reuse ping now (i # q) p = (if ping i then db_lend now i q p else my_reuse ping now q (db_discard i p))"

definition my_acquire :: "(nat \<Rightarrow> bool) \<Rightarrow> int \<Rightarrow> db_pool \<Rightarrow> acquired \<times> db_pool" where
  "my_acquire ping now p = (if dp_closed p then (NoConnection, p) else my_reuse ping now (dp_queue p) p)"

text \<open>\<^verbatim>\<open>RedisPool::acquire\<close> tries one idle connection only.\<close>

definition rd_acquire :: "(nat \<Rightarrow> bool) \<Rightarrow> int \<Rightarrow> db_pool \<Rightarrow> acquired \<times> db_pool" where
  "rd_acquire ping now p =
     (if dp_closed p then (NoConnection, p)
      else case dp_queue p of
             [] \<Rightarrow> db_reserve p
           | i # q \<Rightarrow> if ping i then db_lend now i q p else db_reserve (db_discard i (p\<lparr>dp_queue := q\<rparr>)))"

text \<open>The end of both, with the connection made outside the lock.\<close>

definition db_connected :: "bool \<Rightarrow> int \<Rightarrow> db_pool \<Rightarrow> nat option \<times> db_pool" where
  "db_connected valid now p =
     (let p1 = p\<lparr>dp_reserved := dp_reserved p - 1\<rparr> in
      if \<not> valid then (None, p1\<lparr>dp_total := size_dec (dp_total p1)\<rparr>)
      else (Some (dp_next p1), p1\<lparr>dp_next := dp_next p1 + 1, dp_lastUsed := (dp_lastUsed p1)(dp_next p1 := now), dp_lent := dp_lent p1 @ [dp_next p1]\<rparr>))"

section \<open>Releasing and checking\<close>

definition my_release :: "bool \<Rightarrow> nat \<Rightarrow> db_pool \<Rightarrow> db_pool" where
  "my_release valid i p =
     (let p1 = p\<lparr>dp_lent := remove1 i (dp_lent p)\<rparr> in
      if \<not> valid then db_discard i p1
      else if dp_closed p1 \<or> length (dp_queue p1) \<ge> dp_maxSize p1 then db_discard i p1
      else p1\<lparr>dp_queue := dp_queue p1 @ [i]\<rparr>)"

definition rd_release :: "bool \<Rightarrow> int \<Rightarrow> nat \<Rightarrow> db_pool \<Rightarrow> db_pool" where
  "rd_release valid now i p =
     (let p1 = p\<lparr>dp_lent := remove1 i (dp_lent p)\<rparr> in
      if dp_closed p1 \<or> \<not> valid then db_discard i p1
      else p1\<lparr>dp_lastUsed := (dp_lastUsed p1)(i := now), dp_queue := dp_queue p1 @ [i]\<rparr>)"

fun db_health_loop :: "int \<Rightarrow> nat list \<Rightarrow> nat list \<Rightarrow> db_pool \<Rightarrow> db_pool" where
  "db_health_loop now [] valid p = p\<lparr>dp_queue := valid\<rparr>"
| "db_health_loop now (i # q) valid p =
     (if now - dp_lastUsed p i > dp_idleTimeoutSec p \<and> length valid \<ge> dp_minSize p then db_health_loop now q valid (db_discard i p)
      else db_health_loop now q (valid @ [i]) p)"

definition db_healthCheck :: "int \<Rightarrow> db_pool \<Rightarrow> db_pool" where
  "db_healthCheck now p = (if dp_closed p then p else db_health_loop now (dp_queue p) [] p)"

definition db_destroy :: "db_pool \<Rightarrow> db_pool" where
  "db_destroy p = p\<lparr>dp_closed := True, dp_freed := dp_freed p @ dp_queue p, dp_queue := []\<rparr>"

section \<open>Reading from replicas\<close>

text \<open>
  \<^verbatim>\<open>acquireRead\<close> of a pool with replicas: the next replica is asked, and \<open>replica\<close> tells whether it lends a connection, which is then in the hands of
  a client of this pool; otherwise the pool itself is used.
\<close>

definition my_acquireRead :: "nat \<Rightarrow> u64 \<Rightarrow> (nat \<Rightarrow> bool) \<Rightarrow> (nat \<Rightarrow> bool) \<Rightarrow> int \<Rightarrow> db_pool \<Rightarrow> acquired \<times> db_pool \<times> u64" where
  "my_acquireRead replicas roundRobin replica ping now p =
     (if replicas = 0 then (let (r, p1) = my_acquire ping now p in (r, p1, roundRobin))
      else let k = unat roundRobin mod replicas in
        if replica k
        then (Reused (dp_next p), p\<lparr>dp_next := dp_next p + 1, dp_lent := dp_lent p @ [dp_next p], dp_foreign := dp_foreign p @ [dp_next p]\<rparr>, roundRobin + 1)
        else (let (r, p1) = my_acquire ping now p in (r, p1, roundRobin + 1)))"

section \<open>Histories\<close>

text \<open>What the threads do to a pool.  A client may also drop a connection without releasing it.\<close>

inductive my_step :: "db_pool \<Rightarrow> db_pool \<Rightarrow> bool" where
  my_begin: "my_step p (snd (my_acquire ping now p))"
| my_end: "0 < dp_reserved p \<Longrightarrow> my_step p (snd (db_connected valid now p))"
| my_put: "i \<in> set (dp_lent p) \<Longrightarrow> my_step p (my_release valid i p)"
| my_check: "my_step p (db_healthCheck now p)"
| my_forget: "i \<in> set (dp_lent p) \<Longrightarrow> my_step p (p\<lparr>dp_lent := remove1 i (dp_lent p), dp_freed := dp_freed p @ [i]\<rparr>)"
| my_close: "my_step p (db_destroy p)"

inductive rd_step :: "db_pool \<Rightarrow> db_pool \<Rightarrow> bool" where
  rd_begin: "rd_step p (snd (rd_acquire ping now p))"
| rd_end: "0 < dp_reserved p \<Longrightarrow> rd_step p (snd (db_connected valid now p))"
| rd_put: "i \<in> set (dp_lent p) \<Longrightarrow> rd_step p (rd_release valid now i p)"
| rd_check: "rd_step p (db_healthCheck now p)"
| rd_forget: "i \<in> set (dp_lent p) \<Longrightarrow> rd_step p (p\<lparr>dp_lent := remove1 i (dp_lent p), dp_freed := dp_freed p @ [i]\<rparr>)"
| rd_close: "rd_step p (db_destroy p)"

text \<open>Every connection made is in one place; the count covers the connections owned and those being made, and stays within the limits.\<close>

definition db_places :: "nat list \<Rightarrow> nat list \<Rightarrow> nat list \<Rightarrow> nat \<Rightarrow> bool" where
  "db_places q l f n \<longleftrightarrow> mset (q @ l @ f) = mset [0..<n]"

definition db_counts :: "nat \<Rightarrow> nat \<Rightarrow> nat \<Rightarrow> db_pool \<Rightarrow> bool" where
  "db_counts k r t p \<longleftrightarrow> k + r \<le> t \<and> t \<le> max (dp_minSize p) (dp_maxSize p)"

definition db_inv :: "db_pool \<Rightarrow> bool" where
  "db_inv p \<longleftrightarrow> db_places (dp_queue p) (dp_lent p) (dp_freed p) (dp_next p) \<and>
     db_counts (length (dp_queue p) + length (dp_lent p)) (dp_reserved p) (dp_total p) p"

section \<open>The invariant\<close>

lemma db_places_move:
  "db_places (i # q) l f n \<Longrightarrow> db_places q (l @ [i]) f n"
  "db_places (i # q) l f n \<Longrightarrow> db_places q l (f @ [i]) n"
  "db_places q l f n \<Longrightarrow> db_places q (l @ [n]) f (Suc n)"
  "db_places q l f n \<Longrightarrow> db_places [] l (f @ q) n"
  by (simp_all add: db_places_def add_ac)

lemma db_places_return:
  assumes "i \<in> set l" and "db_places q l f n"
  shows "db_places (q @ [i]) (remove1 i l) f n" and "db_places q (remove1 i l) (f @ [i]) n"
proof -
  have "mset l = add_mset i (mset (remove1 i l))" using assms(1) by simp
  then show "db_places (q @ [i]) (remove1 i l) f n" and "db_places q (remove1 i l) (f @ [i]) n"
    using assms(2) by (simp_all add: db_places_def del: mset_remove1)
qed

lemma db_places_distinct: "db_places q l f n \<Longrightarrow> distinct (q @ l @ f)"
  unfolding db_places_def using mset_eq_imp_distinct_iff distinct_upt by blast

lemma db_places_set: "db_places q l f n \<Longrightarrow> set (q @ l @ f) = {0..<n}"
  unfolding db_places_def by (metis mset_eq_setD set_upt)

lemma length_remove1_less: "i \<in> set l \<Longrightarrow> Suc (length (remove1 i l)) = length l"
  using length_pos_if_in_set [of i l] by (simp add: length_remove1)

lemma db_pool_new_inv: "db_inv (db_pool_new minSize maxSize idle now made)"
proof -
  have "length (filter id (take minSize made)) \<le> minSize"
    using length_filter_le [of id "take minSize made"] by simp
  then show ?thesis by (auto simp: db_pool_new_def Let_def db_inv_def db_places_def db_counts_def)
qed

lemma db_reserve_inv: "db_inv p \<Longrightarrow> db_inv (snd (db_reserve p))"
  by (auto simp: db_reserve_def db_inv_def db_counts_def)

lemma db_discard_inv: "db_inv (p\<lparr>dp_queue := i # q\<rparr>) \<Longrightarrow> db_inv ((db_discard i p)\<lparr>dp_queue := q\<rparr>)"
  by (auto simp: db_discard_def db_inv_def db_counts_def guarded_dec_def intro: db_places_move)

lemma db_lend_inv: "db_inv (p\<lparr>dp_queue := i # q\<rparr>) \<Longrightarrow> db_inv (snd (db_lend now i q p))"
  by (auto simp: db_lend_def db_inv_def db_counts_def intro: db_places_move)

lemma my_reuse_inv: "db_inv (p\<lparr>dp_queue := q\<rparr>) \<Longrightarrow> db_inv (snd (my_reuse ping now q p))"
  by (induction q arbitrary: p) (simp_all add: db_reserve_inv db_discard_inv db_lend_inv)

lemma queue_update_same: "p\<lparr>dp_queue := dp_queue p\<rparr> = p"
  by simp

lemma my_acquire_inv: "db_inv p \<Longrightarrow> db_inv (snd (my_acquire ping now p))"
  using my_reuse_inv [where p = p and q = "dp_queue p" and ping = ping and now = now] by (simp add: my_acquire_def)

lemma rd_acquire_inv:
  assumes "db_inv p"
  shows "db_inv (snd (rd_acquire ping now p))"
proof (cases "dp_queue p")
  case Nil
  then show ?thesis using assms by (simp add: rd_acquire_def db_reserve_inv)
next
  case (Cons i q)
  have inv: "db_inv (p\<lparr>dp_queue := i # q\<rparr>)" using assms Cons queue_update_same by metis
  have "db_discard i (p\<lparr>dp_queue := q\<rparr>) = (db_discard i p)\<lparr>dp_queue := q\<rparr>" by (simp add: db_discard_def)
  then show ?thesis using assms Cons db_lend_inv [OF inv] db_discard_inv [OF inv] by (simp add: rd_acquire_def db_reserve_inv)
qed

lemma db_connected_inv: "db_inv p \<Longrightarrow> 0 < dp_reserved p \<Longrightarrow> db_inv (snd (db_connected valid now p))"
  by (auto simp: db_connected_def Let_def db_inv_def db_counts_def size_dec_def intro: db_places_move)

lemma db_give_back_inv:
  assumes "db_inv p" and "i \<in> set (dp_lent p)"
  shows "db_inv (db_discard i (p\<lparr>dp_lent := remove1 i (dp_lent p)\<rparr>))"
    and "db_inv (p\<lparr>dp_lent := remove1 i (dp_lent p), dp_lastUsed := u, dp_queue := dp_queue p @ [i]\<rparr>)"
    and "db_inv (p\<lparr>dp_lent := remove1 i (dp_lent p), dp_queue := dp_queue p @ [i]\<rparr>)"
    and "db_inv (p\<lparr>dp_lent := remove1 i (dp_lent p), dp_freed := dp_freed p @ [i]\<rparr>)"
  using assms length_remove1_less [OF assms(2)] db_places_return [OF assms(2)]
  by (auto simp: db_discard_def db_inv_def db_counts_def guarded_dec_def)

lemma my_release_inv:
  assumes "db_inv p" and "i \<in> set (dp_lent p)"
  shows "db_inv (my_release valid i p)"
  using db_give_back_inv(1) [OF assms] db_give_back_inv(3) [OF assms] by (simp add: my_release_def Let_def)

lemma rd_release_inv:
  assumes "db_inv p" and "i \<in> set (dp_lent p)"
  shows "db_inv (rd_release valid now i p)"
  using db_give_back_inv(1) [OF assms] db_give_back_inv(2) [OF assms, of "(dp_lastUsed p)(i := now)"]
  by (simp add: rd_release_def Let_def)

lemma db_inv_queue_set: "db_inv (p\<lparr>dp_queue := q\<rparr>) \<Longrightarrow> mset q' = mset q \<Longrightarrow> db_inv (p\<lparr>dp_queue := q'\<rparr>)"
  using mset_eq_length [of q' q] by (simp add: db_inv_def db_places_def db_counts_def)

lemma db_health_inv: "db_inv (p\<lparr>dp_queue := valid @ q\<rparr>) \<Longrightarrow> db_inv (db_health_loop now q valid p)"
proof (induction q arbitrary: valid p)
  case (Cons i q)
  have "db_inv (p\<lparr>dp_queue := i # (valid @ q)\<rparr>)" by (rule db_inv_queue_set [OF Cons.prems]) simp
  then show ?case using Cons.IH [OF db_discard_inv] Cons.IH [where p = p and valid = "valid @ [i]"] Cons.prems by simp
qed simp

lemma db_healthCheck_inv: "db_inv p \<Longrightarrow> db_inv (db_healthCheck now p)"
  using db_health_inv [where p = p and valid = "[]" and q = "dp_queue p" and now = now] by (simp add: db_healthCheck_def)

lemma db_destroy_inv: "db_inv p \<Longrightarrow> db_inv (db_destroy p)"
  by (auto simp: db_destroy_def db_inv_def db_counts_def intro: db_places_move)

lemmas db_inv_intros = my_acquire_inv rd_acquire_inv db_connected_inv my_release_inv rd_release_inv db_healthCheck_inv db_give_back_inv(4) db_destroy_inv

lemma my_step_inv: "db_inv p \<Longrightarrow> my_step p p' \<Longrightarrow> db_inv p'"
  by (erule my_step.cases) (auto intro: db_inv_intros)

lemma rd_step_inv: "db_inv p \<Longrightarrow> rd_step p p' \<Longrightarrow> db_inv p'"
  by (erule rd_step.cases) (auto intro: db_inv_intros)

lemma db_inv_exclusive: "db_inv p \<Longrightarrow> distinct (dp_queue p @ dp_lent p)"
  using db_places_distinct [of "dp_queue p" "dp_lent p" "dp_freed p" "dp_next p"] by (auto simp: db_inv_def)

definition db_start :: "db_pool \<Rightarrow> bool" where
  "db_start p \<longleftrightarrow> (\<exists>minSize maxSize idle now made. p = db_pool_new minSize maxSize idle now made)"

lemma db_start_inv: "db_start p \<Longrightarrow> db_inv p"
  by (auto simp: db_start_def db_pool_new_inv)

interpretation mysql: lending_pool db_start my_step dp_queue dp_lent db_inv
  by unfold_locales (fact db_start_inv my_step_inv db_inv_exclusive)+

interpretation redis: lending_pool db_start rd_step dp_queue dp_lent db_inv
  by unfold_locales (fact db_start_inv rd_step_inv db_inv_exclusive)+

section \<open>Making a connection to Redis\<close>

text \<open>
  What happens at one sentinel: no connection can be made (with or without a context to free), or its answer is two strings, something else, or missing.  The result of \<open>resolveMaster\<close> also
  lists the contexts given to \<^verbatim>\<open>redisFree\<close>, as positions in the list of sentinels.
\<close>

datatype sentinel_answer = NoSentinel bool | MasterAt string string | OtherAnswer

definition sentinel_addr :: "string \<Rightarrow> (string \<times> int) option" where
  "sentinel_addr addr =
     (case find_char (CHR '':'') addr 0 of
        None \<Rightarrow> None
      | Some colon \<Rightarrow> map_option (\<lambda>p. (take colon addr, p)) (stoi (drop (colon + 1) addr)))"

fun resolveMasterViaSentinel :: "(string \<Rightarrow> int \<Rightarrow> sentinel_answer) \<Rightarrow> nat \<Rightarrow> string list \<Rightarrow> (string \<times> int) \<times> nat list" where
  "resolveMasterViaSentinel ask k [] = (('''', 0), [])"
| "resolveMasterViaSentinel ask k (addr # rest) =
     (case sentinel_addr addr of
        None \<Rightarrow> resolveMasterViaSentinel ask (k + 1) rest
      | Some (h, p) \<Rightarrow>
          (case ask (c_str h) p of
             NoSentinel ctx \<Rightarrow> apsnd (if ctx then Cons k else id) (resolveMasterViaSentinel ask (k + 1) rest)
           | MasterAt mh port \<Rightarrow>
               (let mp = (case stoi port of None \<Rightarrow> 0 | Some v \<Rightarrow> v) in
                if mp > 0 then ((mh, mp), [k]) else apsnd (\<lambda>fs. k # k # fs) (resolveMasterViaSentinel ask (k + 1) rest))
           | OtherAnswer \<Rightarrow> apsnd (Cons k) (resolveMasterViaSentinel ask (k + 1) rest)))"

text \<open>The configuration, the address last seen with the counter of its changes, and the answers to \<^verbatim>\<open>connect\<close> and AUTH.  The first result tells whether the connection has a
  context; the answer to SELECT is not looked at.\<close>

record redis_config =
  rc_host :: string
  rc_port :: int
  rc_password :: string
  rc_db :: int
  rc_sentinels :: "string list"

record master_watch =
  lastMaster :: string
  master_switches :: nat

definition note_master :: "string \<Rightarrow> master_watch \<Rightarrow> master_watch" where
  "note_master newMaster w =
     w\<lparr>master_switches := (if lastMaster w \<noteq> '''' \<and> lastMaster w \<noteq> newMaster then master_switches w + 1 else master_switches w),
       lastMaster := newMaster\<rparr>"

datatype redis_call = RConnect string int | RAuth string | RSelect int

definition redis_createConnection ::
  "(string \<Rightarrow> int \<Rightarrow> sentinel_answer) \<Rightarrow> (string \<Rightarrow> int \<Rightarrow> bool) \<Rightarrow> bool \<Rightarrow> redis_config \<Rightarrow> master_watch \<Rightarrow> bool \<times> redis_call list \<times> master_watch"
  where
  "redis_createConnection ask connect auth c w =
     (let m = fst (resolveMasterViaSentinel ask 0 (rc_sentinels c));
          found = rc_sentinels c \<noteq> [] \<and> snd m > 0;
          target = (if found then m else (rc_host c, rc_port c));
          w1 = (if found then note_master (fst m @ '':'' @ int_to_string (snd m)) w else w);
          calls = [RConnect (c_str (fst target)) (snd target)] in
      if \<not> connect (c_str (fst target)) (snd target) then (False, calls, w1)
      else let calls1 = (if rc_password c \<noteq> '''' then calls @ [RAuth (c_str (rc_password c))] else calls) in
        if rc_password c \<noteq> '''' \<and> \<not> auth then (False, calls1, w1)
        else (True, if rc_db c > 0 then calls1 @ [RSelect (rc_db c)] else calls1, w1))"

text \<open>The answer of the first sentinel that names a master with a positive port is taken, whatever the others would say.\<close>

lemma resolve_first_answer:
  assumes "\<forall>a \<in> set before. case sentinel_addr a of None \<Rightarrow> True | Some (h, p) \<Rightarrow> \<forall>mh port. ask (c_str h) p \<noteq> MasterAt mh port"
    and "sentinel_addr a = Some (h, p)" and "ask (c_str h) p = MasterAt mh port" and "stoi port = Some mp" and "0 < mp"
  shows "fst (resolveMasterViaSentinel ask k (before @ a # rest)) = (mh, mp)"
  using assms(1)
proof (induction before arbitrary: k)
  case Nil
  then show ?case using assms(2-5) by simp
next
  case (Cons b before)
  then show ?case by (auto split: option.splits sentinel_answer.splits)
qed

text \<open>A sentinel that answers with a port that is not positive has its context freed twice.\<close>

lemma sentinel_context_freed_twice:
  assumes "sentinel_addr a = Some (h, p)" and "ask (c_str h) p = MasterAt mh port" and "case stoi port of None \<Rightarrow> True | Some v \<Rightarrow> v \<le> 0"
  shows "\<exists>fs. snd (resolveMasterViaSentinel ask k (a # rest)) = k # k # fs"
  using assms by (auto split: option.splits)

section \<open>Properties\<close>



text \<open>
  A connection taken with \<^verbatim>\<open>acquireRead\<close> from a replica and given back to the pool it was asked of is handed to the next writer.
\<close>

lemma replica_connection_serves_writes:
  assumes "0 < replicas" and "replica (unat rr mod replicas)" and "\<not> dp_closed p" and "dp_queue p = []" and "0 < dp_maxSize p"
    and "my_acquireRead replicas rr replica ping now p = (Reused i, p1, rr1)" and "i \<notin> set (dp_lent p)"
  shows "i \<in> set (dp_foreign p1)" and "ping i \<Longrightarrow> fst (my_acquire ping now' (my_release True i p1)) = Reused i"
  using assms by (auto simp: my_acquireRead_def Let_def my_release_def my_acquire_def db_lend_def)

text \<open>
  Places that clients do not give back are gone: when the count has reached the limit and nothing is idle, lent or being made, no acquisition of the Redis pool
  succeeds any more.
\<close>

lemma dropped_places_exhaust_pool:
  assumes "rd_step\<^sup>*\<^sup>* p p'" and "dp_queue p = []" and "dp_lent p = []" and "dp_reserved p = 0" and "dp_maxSize p \<le> dp_total p"
  shows "fst (rd_acquire ping now p') = NoConnection"
proof -
  have "dp_queue p' = [] \<and> dp_lent p' = [] \<and> dp_reserved p' = 0 \<and> dp_maxSize p' \<le> dp_total p'"
    using assms
  proof (induction rule: rtranclp_induct)
    case (step q q')
    then have q: "dp_queue q = []" "dp_lent q = []" "dp_reserved q = 0" "dp_maxSize q \<le> dp_total q" by auto
    from \<open>rd_step q q'\<close> show ?case
      by (cases rule: rd_step.cases) (use q in \<open>auto simp: rd_acquire_def db_reserve_def db_healthCheck_def db_destroy_def\<close>)
  qed auto
  then show ?thesis by (simp add: rd_acquire_def db_reserve_def)
qed

end
