(* ===== verification/MySqlModel.thy ===== *)
theory MySqlModel
  imports CppString
begin

text \<open>
  \<^verbatim>\<open>MySQLConnection\<close>, \<^verbatim>\<open>PreparedStatement\<close> and \<^verbatim>\<open>TransactionGuard\<close> of \<^verbatim>\<open>src/pool/MySQLPool.h\<close>.  The client library and the
  server behind it are a parameter, with the documented meaning of BEGIN, COMMIT and ROLLBACK as hypotheses; the main result is that a guarded block of statements takes effect
  as a whole or not at all.
\<close>

section \<open>The connection\<close>

text \<open>What the wrapper calls: \<^verbatim>\<open>mysql_query\<close> (true for 0), the result set of the last query, the affected rows.\<close>

record ('d, 'r) mysql_lib =
  ml_query :: "string \<Rightarrow> 'd \<Rightarrow> bool \<times> 'd"
  ml_store_result :: "'d \<Rightarrow> 'r option"
  ml_affected_rows :: "'d \<Rightarrow> u64"

text \<open>A connection is valid when its handle is not null.  A statement is cut at its first NUL byte by \<^verbatim>\<open>c_str\<close>.\<close>

definition conn_query :: "('d, 'r) mysql_lib \<Rightarrow> bool \<Rightarrow> string \<Rightarrow> 'd \<Rightarrow> 'r option \<times> 'd" where
  "conn_query L valid sql d =
     (if \<not> valid then (None, d)
      else let (ok, d1) = ml_query L (c_str sql) d in (if ok then ml_store_result L d1 else None, d1))"

definition conn_execute :: "('d, 'r) mysql_lib \<Rightarrow> bool \<Rightarrow> string \<Rightarrow> 'd \<Rightarrow> int \<times> 'd" where
  "conn_execute L valid sql d =
     (if \<not> valid then (-1, d)
      else let (ok, d1) = ml_query L (c_str sql) d in (if ok then sint (ucast (ml_affected_rows L d1) :: 32 word) else -1, d1))"

definition beginTransaction :: "('d, 'r) mysql_lib \<Rightarrow> bool \<Rightarrow> 'd \<Rightarrow> bool \<times> 'd" where
  "beginTransaction L valid d = (if \<not> valid then (False, d) else ml_query L ''BEGIN'' d)"

definition conn_commit :: "('d, 'r) mysql_lib \<Rightarrow> bool \<Rightarrow> 'd \<Rightarrow> bool \<times> 'd" where
  "conn_commit L valid d = (if \<not> valid then (False, d) else ml_query L ''COMMIT'' d)"

definition conn_rollback :: "('d, 'r) mysql_lib \<Rightarrow> bool \<Rightarrow> 'd \<Rightarrow> bool \<times> 'd" where
  "conn_rollback L valid d = (if \<not> valid then (False, d) else ml_query L ''ROLLBACK'' d)"

section \<open>The transaction guard\<close>

text \<open>\<open>tg_conn\<close> is \<open>None\<close> for a null pointer and otherwise tells whether the connection is valid.\<close>

record tx_guard =
  tg_conn :: "bool option"
  tg_committed :: bool
  tg_began :: bool

definition TransactionGuard_new :: "('d, 'r) mysql_lib \<Rightarrow> bool option \<Rightarrow> 'd \<Rightarrow> tx_guard \<times> 'd" where
  "TransactionGuard_new L conn d =
     (if conn = Some True
      then let (ok, d1) = beginTransaction L True d in (\<lparr>tg_conn = conn, tg_committed = False, tg_began = ok\<rparr>, d1)
      else (\<lparr>tg_conn = conn, tg_committed = False, tg_began = False\<rparr>, d))"

definition tg_commit :: "('d, 'r) mysql_lib \<Rightarrow> tx_guard \<Rightarrow> 'd \<Rightarrow> bool \<times> tx_guard \<times> 'd" where
  "tg_commit L g d =
     (case tg_conn g of
        None \<Rightarrow> (False, g, d)
      | Some valid \<Rightarrow>
          if \<not> tg_began g \<or> tg_committed g then (False, g, d)
          else let (ok, d1) = conn_commit L valid d in (ok, g\<lparr>tg_committed := ok\<rparr>, d1))"

definition tg_destroy :: "('d, 'r) mysql_lib \<Rightarrow> tx_guard \<Rightarrow> 'd \<Rightarrow> 'd" where
  "tg_destroy L g d = (if tg_began g \<and> \<not> tg_committed g \<and> tg_conn g = Some True then snd (conn_rollback L True d) else d)"

text \<open>
  The block of the class comment: the guard is made, the statements run until one fails (which leaves the block), then \<^verbatim>\<open>commit\<close>, and in every case the
  destructor.  The result tells whether \<^verbatim>\<open>commit\<close> returned true.
\<close>

fun run_statements :: "('d, 'r) mysql_lib \<Rightarrow> string list \<Rightarrow> 'd \<Rightarrow> bool \<times> 'd" where
  "run_statements L [] d = (True, d)"
| "run_statements L (sql # rest) d =
     (let (n, d1) = conn_execute L True sql d in if n = -1 then (False, d1) else run_statements L rest d1)"

definition guarded_block :: "('d, 'r) mysql_lib \<Rightarrow> bool option \<Rightarrow> string list \<Rightarrow> 'd \<Rightarrow> bool \<times> 'd" where
  "guarded_block L conn stmts d =
     (let (g, d1) = TransactionGuard_new L conn d in
      if \<not> tg_began g then (False, tg_destroy L g d1)
      else let (ok, d2) = run_statements L stmts d1 in
        if \<not> ok then (False, tg_destroy L g d2)
        else let (c, g1, d3) = tg_commit L g d2 in (c, tg_destroy L g1 d3))"

section \<open>What the server promises\<close>

text \<open>
  \<open>durable\<close> is the committed content and \<open>working\<close> the content the open transaction sees.  \<open>effect\<close> is what a statement does to a content; the laws are for
  the statements \<open>plain\<close> selects, which must not commit by themselves.  A failed COMMIT may have been carried out or not.
\<close>

record ('d, 'c) tx_view =
  durable :: "'d \<Rightarrow> 'c"
  working :: "'d \<Rightarrow> 'c option"
  effect :: "string \<Rightarrow> 'c \<Rightarrow> 'c"
  plain :: "string \<Rightarrow> bool"

definition begin_law :: "('d, 'r) mysql_lib \<Rightarrow> ('d, 'c) tx_view \<Rightarrow> bool" where
  "begin_law L V \<longleftrightarrow> (\<forall>d ok d1. ml_query L ''BEGIN'' d = (ok, d1) \<and> working V d = None \<longrightarrow>
     durable V d1 = durable V d \<and> (ok \<longrightarrow> working V d1 = Some (durable V d)))"

definition statement_law :: "('d, 'r) mysql_lib \<Rightarrow> ('d, 'c) tx_view \<Rightarrow> bool" where
  "statement_law L V \<longleftrightarrow> (\<forall>d sql w ok d1. ml_query L sql d = (ok, d1) \<and> plain V sql \<and> working V d = Some w \<longrightarrow>
     durable V d1 = durable V d \<and> (ok \<longrightarrow> working V d1 = Some (effect V sql w)))"

definition end_law :: "('d, 'r) mysql_lib \<Rightarrow> ('d, 'c) tx_view \<Rightarrow> bool" where
  "end_law L V \<longleftrightarrow>
     (\<forall>d w ok d1. ml_query L ''COMMIT'' d = (ok, d1) \<and> working V d = Some w \<longrightarrow>
        (if ok then durable V d1 = w else durable V d1 \<in> {durable V d, w})) \<and>
     (\<forall>d ok d1. ml_query L ''ROLLBACK'' d = (ok, d1) \<longrightarrow> durable V d1 = durable V d)"

lemma beginD:
  "begin_law L V \<Longrightarrow> working V d = None \<Longrightarrow> ml_query L ''BEGIN'' d = (ok, d1) \<Longrightarrow>
   durable V d1 = durable V d \<and> (ok \<longrightarrow> working V d1 = Some (durable V d))"
  unfolding begin_law_def by blast

lemma statementD:
  "statement_law L V \<Longrightarrow> plain V sql \<Longrightarrow> working V d = Some w \<Longrightarrow> ml_query L sql d = (ok, d1) \<Longrightarrow>
   durable V d1 = durable V d \<and> (ok \<longrightarrow> working V d1 = Some (effect V sql w))"
  unfolding statement_law_def by blast

lemma commitD:
  "end_law L V \<Longrightarrow> working V d = Some w \<Longrightarrow> ml_query L ''COMMIT'' d = (ok, d1) \<Longrightarrow>
   if ok then durable V d1 = w else durable V d1 \<in> {durable V d, w}"
  unfolding end_law_def by blast

lemma rollbackD: "end_law L V \<Longrightarrow> durable V (snd (ml_query L ''ROLLBACK'' d)) = durable V d"
  unfolding end_law_def by (metis prod.collapse)

lemma destroy_durable: "end_law L V \<Longrightarrow> durable V (tg_destroy L g d) = durable V d"
  by (simp add: tg_destroy_def conn_rollback_def rollbackD)

lemma run_statements_effect:
  assumes "statement_law L V" and "\<forall>sql \<in> set stmts. plain V (c_str sql)" and "working V d = Some w"
    and "run_statements L stmts d = (ok, d')"
  shows "durable V d' = durable V d \<and> (ok \<longrightarrow> working V d' = Some (fold (effect V \<circ> c_str) stmts w))"
  using assms(2-4)
proof (induction stmts arbitrary: d w)
  case (Cons sql stmts)
  obtain q d1 where q: "ml_query L (c_str sql) d = (q, d1)" by fastforce
  have s: "durable V d1 = durable V d" "q \<Longrightarrow> working V d1 = Some (effect V (c_str sql) w)"
    using statementD [OF assms(1) _ Cons.prems(2) q] Cons.prems(1) by auto
  show ?case
  proof (cases "fst (conn_execute L True sql d) = -1")
    case True
    then show ?thesis using Cons.prems(3) q s(1) by (auto simp: conn_execute_def)
  next
    case False
    then have "q" and "run_statements L stmts d1 = (ok, d')" using Cons.prems(3) q by (auto simp: conn_execute_def split: if_splits)
    then show ?thesis using Cons.IH [of d1] Cons.prems(1) s by auto
  qed
qed simp

section \<open>Prepared statements\<close>

text \<open>
  A parameter slot as the library sees it: zeroed, pointing to the integer, or pointing to the characters of the string as they were stored in buffer number \<open>k\<close>.
  \<open>ps_buf\<close> numbers the buffer each string now has; whether an assignment moves it is an argument.  \<open>ps_copy\<close> is the copy of the slots the
  library made in \<^verbatim>\<open>mysql_stmt_bind_param\<close>.
\<close>

datatype slot = Zeroed | IntSlot | StrSlot nat

record prepared =
  ps_valid :: bool
  ps_bound :: bool
  ps_binds :: "slot list"
  ps_ints :: "int list"
  ps_strs :: "string list"
  ps_buf :: "nat list"
  ps_copy :: "slot list"

definition PreparedStatement_new :: "bool \<Rightarrow> bool \<Rightarrow> bool \<Rightarrow> nat \<Rightarrow> prepared" where
  "PreparedStatement_new conn inited prepares paramCount =
     (if conn \<and> inited \<and> prepares
      then \<lparr>ps_valid = True, ps_bound = False, ps_binds = replicate paramCount Zeroed, ps_ints = replicate paramCount 0,
            ps_strs = replicate paramCount '''', ps_buf = replicate paramCount 0, ps_copy = []\<rparr>
      else \<lparr>ps_valid = False, ps_bound = False, ps_binds = [], ps_ints = [], ps_strs = [], ps_buf = [], ps_copy = []\<rparr>)"

definition bindInt64 :: "nat \<Rightarrow> int \<Rightarrow> prepared \<Rightarrow> prepared" where
  "bindInt64 idx v p =
     (if idx < 1 \<or> idx > length (ps_binds p) then p
      else p\<lparr>ps_ints := (ps_ints p)[idx - 1 := v], ps_binds := (ps_binds p)[idx - 1 := IntSlot]\<rparr>)"

definition bindString :: "bool \<Rightarrow> nat \<Rightarrow> string \<Rightarrow> prepared \<Rightarrow> prepared" where
  "bindString moves idx v p =
     (if idx < 1 \<or> idx > length (ps_binds p) then p
      else let b = (if moves then ps_buf p ! (idx - 1) + 1 else ps_buf p ! (idx - 1)) in
        p\<lparr>ps_strs := (ps_strs p)[idx - 1 := v], ps_buf := (ps_buf p)[idx - 1 := b], ps_binds := (ps_binds p)[idx - 1 := StrSlot b]\<rparr>)"

text \<open>What the library reads through a slot when it sends the statement; the characters of a buffer that has moved are freed memory.\<close>

datatype sent = SentZeroed | SentInt int | SentStr string | SentFreed

definition read_slot :: "prepared \<Rightarrow> nat \<Rightarrow> slot \<Rightarrow> sent" where
  "read_slot p i s =
     (case s of Zeroed \<Rightarrow> SentZeroed | IntSlot \<Rightarrow> SentInt (ps_ints p ! i)
      | StrSlot b \<Rightarrow> if ps_buf p ! i = b then SentStr (ps_strs p ! i) else SentFreed)"

definition send_params :: "prepared \<Rightarrow> sent list" where
  "send_params p = map (\<lambda>i. read_slot p i (ps_copy p ! i)) [0..<length (ps_copy p)]"

definition stmt_execute :: "bool \<Rightarrow> bool \<Rightarrow> prepared \<Rightarrow> bool \<times> sent list option \<times> prepared" where
  "stmt_execute binds_ok runs p =
     (if \<not> ps_valid p then (False, None, p)
      else if ps_binds p \<noteq> [] \<and> \<not> ps_bound p
      then if \<not> binds_ok then (False, None, p)
           else let p1 = p\<lparr>ps_copy := ps_binds p, ps_bound := True\<rparr> in (runs, Some (send_params p1), p1)
      else (runs, Some (send_params p), p))"

text \<open>The bindings a program makes, and the values it means.\<close>

datatype binding = BInt nat int | BStr bool nat string

fun bind1 :: "binding \<Rightarrow> prepared \<Rightarrow> prepared" where
  "bind1 (BInt idx v) p = bindInt64 idx v p"
| "bind1 (BStr moves idx v) p = bindString moves idx v p"

fun meant :: "binding \<Rightarrow> sent list \<Rightarrow> sent list" where
  "meant (BInt idx v) xs = (if idx < 1 \<or> idx > length xs then xs else xs[idx - 1 := SentInt v])"
| "meant (BStr moves idx v) xs = (if idx < 1 \<or> idx > length xs then xs else xs[idx - 1 := SentStr v])"

definition ps_wf :: "prepared \<Rightarrow> bool" where
  "ps_wf p \<longleftrightarrow> length (ps_ints p) = length (ps_binds p) \<and> length (ps_strs p) = length (ps_binds p) \<and> length (ps_buf p) = length (ps_binds p)"

definition slots_read :: "prepared \<Rightarrow> sent list" where
  "slots_read p = map (\<lambda>i. read_slot p i (ps_binds p ! i)) [0..<length (ps_binds p)]"

lemma slots_read_nth: "i < length (ps_binds p) \<Longrightarrow> slots_read p ! i = read_slot p i (ps_binds p ! i)" "length (slots_read p) = length (ps_binds p)"
  by (simp_all add: slots_read_def)

lemma read_slot_frame:
  "ps_ints p' ! i = ps_ints p ! i \<Longrightarrow> ps_strs p' ! i = ps_strs p ! i \<Longrightarrow> ps_buf p' ! i = ps_buf p ! i \<Longrightarrow> read_slot p' i s = read_slot p i s"
  by (cases s) (simp_all add: read_slot_def)

lemma read_slot_simps:
  "read_slot p i Zeroed = SentZeroed" "read_slot p i IntSlot = SentInt (ps_ints p ! i)"
  "read_slot p i (StrSlot b) = (if ps_buf p ! i = b then SentStr (ps_strs p ! i) else SentFreed)"
  by (simp_all add: read_slot_def)

lemma slots_read_update:
  assumes "ps_binds p' = (ps_binds p)[k := s]" and "read_slot p' k s = v"
    and "\<And>i. i \<noteq> k \<Longrightarrow> ps_ints p' ! i = ps_ints p ! i \<and> ps_strs p' ! i = ps_strs p ! i \<and> ps_buf p' ! i = ps_buf p ! i"
  shows "slots_read p' = (slots_read p)[k := v]"
proof (rule nth_equalityI)
  show "length (slots_read p') = length ((slots_read p)[k := v])" by (simp add: slots_read_nth assms(1))
next
  fix i assume "i < length (slots_read p')"
  then have i: "i < length (ps_binds p')" "i < length (ps_binds p)" by (simp_all add: slots_read_nth assms(1))
  show "slots_read p' ! i = (slots_read p)[k := v] ! i"
  proof (cases "i = k")
    case True
    then show ?thesis using i assms(1,2) by (simp add: slots_read_nth)
  next
    case False
    then have "read_slot p' i (ps_binds p ! i) = read_slot p i (ps_binds p ! i)" using assms(3) [of i] by (blast intro: read_slot_frame)
    then show ?thesis using False i assms(1) by (simp add: slots_read_nth)
  qed
qed

lemma bindInt64_meant:
  assumes "ps_wf p"
  shows "slots_read (bindInt64 idx v p) = meant (BInt idx v) (slots_read p)"
proof (cases "idx < 1 \<or> idx > length (ps_binds p)")
  case True
  then show ?thesis by (auto simp: bindInt64_def slots_read_nth)
next
  case False
  then have "slots_read (bindInt64 idx v p) = (slots_read p)[idx - 1 := SentInt v]"
    using assms by (intro slots_read_update [where s = IntSlot]) (auto simp: bindInt64_def read_slot_simps ps_wf_def)
  with False show ?thesis by (auto simp: slots_read_nth)
qed

lemma bindString_meant:
  assumes "ps_wf p"
  shows "slots_read (bindString moves idx v p) = meant (BStr moves idx v) (slots_read p)"
proof (cases "idx < 1 \<or> idx > length (ps_binds p)")
  case True
  then show ?thesis by (auto simp: bindString_def slots_read_nth)
next
  case False
  let ?b = "if moves then ps_buf p ! (idx - 1) + 1 else ps_buf p ! (idx - 1)"
  from False have "slots_read (bindString moves idx v p) = (slots_read p)[idx - 1 := SentStr v]"
    using assms by (intro slots_read_update [where s = "StrSlot ?b"]) (auto simp: bindString_def Let_def read_slot_simps ps_wf_def)
  with False show ?thesis by (auto simp: slots_read_nth)
qed

lemma send_first: "send_params (q\<lparr>ps_copy := ps_binds q, ps_bound := True\<rparr>) = slots_read q"
  by (simp add: send_params_def slots_read_def) (auto intro: read_slot_frame)

lemma bind1_meant: "ps_wf p \<Longrightarrow> ps_wf (bind1 b p) \<and> slots_read (bind1 b p) = meant b (slots_read p)"
proof (cases b)
  case (BInt idx v)
  assume "ps_wf p"
  then show ?thesis using bindInt64_meant [of p idx v] BInt by (simp add: ps_wf_def bindInt64_def)
next
  case (BStr moves idx v)
  assume "ps_wf p"
  then show ?thesis using bindString_meant [of p moves idx v] BStr by (simp add: ps_wf_def bindString_def Let_def)
qed

lemma binds_meant: "ps_wf p \<Longrightarrow> ps_wf (fold bind1 bs p) \<and> slots_read (fold bind1 bs p) = fold meant bs (slots_read p)"
  by (induction bs arbitrary: p) (simp_all add: bind1_meant)

lemma bind1_frame: "ps_valid (bind1 b p) = ps_valid p \<and> ps_bound (bind1 b p) = ps_bound p \<and> length (ps_binds (bind1 b p)) = length (ps_binds p) \<and>
    ps_copy (bind1 b p) = ps_copy p"
  by (cases b) (simp_all add: bindInt64_def bindString_def Let_def)

lemma binds_frame: "ps_valid (fold bind1 bs p) = ps_valid p \<and> ps_bound (fold bind1 bs p) = ps_bound p \<and>
    length (ps_binds (fold bind1 bs p)) = length (ps_binds p) \<and> ps_copy (fold bind1 bs p) = ps_copy p"
  by (induction bs arbitrary: p) (simp_all add: bind1_frame)

section \<open>A server that keeps the laws\<close>

text \<open>A table as the list of the statements that changed it; statements that start with F fail.\<close>

record list_db =
  ld_durable :: "string list"
  ld_working :: "string list option"

definition ld_query :: "string \<Rightarrow> list_db \<Rightarrow> bool \<times> list_db" where
  "ld_query sql d =
     (if sql = ''BEGIN'' then (True, d\<lparr>ld_working := Some (ld_durable d)\<rparr>)
      else if sql = ''COMMIT'' then (True, case ld_working d of None \<Rightarrow> d | Some w \<Rightarrow> d\<lparr>ld_durable := w, ld_working := None\<rparr>)
      else if sql = ''ROLLBACK'' then (True, d\<lparr>ld_working := None\<rparr>)
      else if take 1 sql = ''F'' then (False, d)
      else (True, case ld_working d of None \<Rightarrow> d\<lparr>ld_durable := ld_durable d @ [sql]\<rparr> | Some w \<Rightarrow> d\<lparr>ld_working := Some (w @ [sql])\<rparr>))"

definition ld_lib :: "(list_db, unit) mysql_lib" where
  "ld_lib = \<lparr>ml_query = ld_query, ml_store_result = (\<lambda>_. None), ml_affected_rows = (\<lambda>_. 1)\<rparr>"

definition ld_view :: "(list_db, string list) tx_view" where
  "ld_view = \<lparr>durable = ld_durable, working = ld_working, effect = (\<lambda>sql w. w @ [sql]),
     plain = (\<lambda>sql. sql \<noteq> ''BEGIN'' \<and> sql \<noteq> ''COMMIT'' \<and> sql \<noteq> ''ROLLBACK'')\<rparr>"

lemma ld_laws: "begin_law ld_lib ld_view" "statement_law ld_lib ld_view" "end_law ld_lib ld_view"
  by (auto simp: begin_law_def statement_law_def end_law_def ld_lib_def ld_view_def ld_query_def split: if_split_asm)

section \<open>Properties\<close>



text \<open>
  The first execution of a prepared statement sends for every parameter the value bound last, and a zeroed slot where none was bound; bindings
  outside the parameters of the statement are ignored.
\<close>

theorem first_execute_sends_bindings:
  assumes "0 < n"
  shows "fst (snd (stmt_execute True runs (fold bind1 bs (PreparedStatement_new True True True n)))) =
    Some (fold meant bs (replicate n SentZeroed))"
proof -
  let ?p = "PreparedStatement_new True True True n"
  let ?q = "fold bind1 bs ?p"
  have wf: "ps_wf ?p" by (simp add: ps_wf_def PreparedStatement_new_def)
  have "slots_read ?p = replicate n SentZeroed"
    by (rule nth_equalityI) (simp_all add: slots_read_def PreparedStatement_new_def read_slot_def)
  then have "slots_read ?q = fold meant bs (replicate n SentZeroed)" using binds_meant [OF wf, of bs] by simp
  moreover have "ps_valid ?q" "\<not> ps_bound ?q" "ps_binds ?q \<noteq> []"
    using binds_frame [of bs ?p] assms by (auto simp: PreparedStatement_new_def)
  ultimately show ?thesis by (simp add: stmt_execute_def Let_def send_first)
qed

theorem first_execute_sends_bindings_witness:
  "fst (snd (stmt_execute True True (fold bind1 [BInt 1 5, BStr True 2 ''bob'', BInt 3 9, BInt 1 6] (PreparedStatement_new True True True 2)))) =
   Some [SentInt 6, SentStr ''bob'']"
  using first_execute_sends_bindings [of 2 True "[BInt 1 5, BStr True 2 ''bob'', BInt 3 9, BInt 1 6]"] by (simp add: numeral_2_eq_2)

text \<open>
  Later executions read through the slots as they were at the first one: a parameter that is bound as a string after it was executed as an integer is
  still sent as the old integer, and a string that had to move is read from freed memory.
\<close>

lemma later_bindings_not_passed:
  "let p = snd (snd (stmt_execute True True (bindInt64 1 5 (PreparedStatement_new True True True 1)))) in
     fst (snd (stmt_execute True True (bindString m 1 ''bob'' p))) = Some [SentInt 5]"
  "let p = snd (snd (stmt_execute True True (bindString False 1 ''al'' (PreparedStatement_new True True True 1)))) in
     fst (snd (stmt_execute True True (bindString True 1 ''a longer name'' p))) = Some [SentFreed] \<and>
     fst (snd (stmt_execute True True (bindString False 1 ''bob'' p))) = Some [SentStr ''bob'']"
  by (simp_all add: stmt_execute_def bindInt64_def bindString_def PreparedStatement_new_def send_params_def read_slot_def Let_def)

end
