(* ===== verification/RedlockModel.thy ===== *)
theory RedlockModel
  imports DbPoolModel HttpResp
begin

text \<open>
  \<^verbatim>\<open>src/util/Redlock.h\<close> and the commands of \<^verbatim>\<open>RedisConnection\<close> in \<^verbatim>\<open>src/pool/RedisPool.h\<close>: the lock of many processes in one Redis
  server.  The server is a parameter; what Redis documents of SET NX PX, GET, DEL and EVAL are the hypotheses.  The main results are mutual exclusion and that a waiting
  acquisition returns.
\<close>

section \<open>Commands and replies\<close>

text \<open>One constructor for each format the code gives to \<^verbatim>\<open>command\<close>.  A reply that does not arrive is \<open>None\<close>.\<close>

datatype redis_command =
  CmdPing | CmdGet string | CmdSet string string | CmdSetEx string string int | CmdSetNxPx string string int | CmdDel string | CmdExists string
| CmdExpire string int | CmdIncr string | CmdLpush string string | CmdLrange string int int | CmdLtrim string int int | CmdEval string string string

datatype redis_reply = RStatus string | RString string | RInteger int | RNil | RError string | RArray "redis_reply list"

definition reply_ok :: "redis_reply option \<Rightarrow> bool" where
  "reply_ok r = (case r of None \<Rightarrow> False | Some (RError _) \<Rightarrow> False | _ \<Rightarrow> True)"

definition reply_isNil :: "redis_reply option \<Rightarrow> bool" where
  "reply_isNil r = (case r of None \<Rightarrow> True | Some RNil \<Rightarrow> True | _ \<Rightarrow> False)"

definition reply_str :: "redis_reply option \<Rightarrow> string" where
  "reply_str r = (case r of Some (RString s) \<Rightarrow> s | _ \<Rightarrow> '''')"

definition reply_integer :: "redis_reply option \<Rightarrow> int" where
  "reply_integer r = (case r of Some (RInteger n) \<Rightarrow> n | _ \<Rightarrow> 0)"

definition reply_error :: "redis_reply option \<Rightarrow> string" where
  "reply_error r = (case r of Some (RError e) \<Rightarrow> e | _ \<Rightarrow> '''')"

text \<open>A server: the answer to a command that it executes at a time in milliseconds.\<close>

type_synonym 'r redis_server = "int \<Rightarrow> redis_command \<Rightarrow> 'r \<Rightarrow> redis_reply option \<times> 'r"

definition redis_command_on :: "'r redis_server \<Rightarrow> bool \<Rightarrow> int \<Rightarrow> redis_command \<Rightarrow> 'r \<Rightarrow> redis_reply option \<times> 'r" where
  "redis_command_on S ctx now c r = (if \<not> ctx then (None, r) else S now c r)"

definition redis_ping :: "'r redis_server \<Rightarrow> bool \<Rightarrow> int \<Rightarrow> 'r \<Rightarrow> bool \<times> 'r" where
  "redis_ping S ctx now r = (if \<not> ctx then (False, r) else apfst reply_ok (redis_command_on S ctx now CmdPing r))"

definition redis_get :: "'r redis_server \<Rightarrow> bool \<Rightarrow> int \<Rightarrow> string \<Rightarrow> 'r \<Rightarrow> string \<times> 'r" where
  "redis_get S ctx now key r = apfst reply_str (redis_command_on S ctx now (CmdGet (c_str key)) r)"

definition redis_set :: "'r redis_server \<Rightarrow> bool \<Rightarrow> int \<Rightarrow> string \<Rightarrow> string \<Rightarrow> int \<Rightarrow> 'r \<Rightarrow> bool \<times> 'r" where
  "redis_set S ctx now key val ttlSec r =
     apfst reply_ok (redis_command_on S ctx now (if ttlSec > 0 then CmdSetEx (c_str key) (c_str val) ttlSec else CmdSet (c_str key) (c_str val)) r)"

definition redis_del :: "'r redis_server \<Rightarrow> bool \<Rightarrow> int \<Rightarrow> string \<Rightarrow> 'r \<Rightarrow> bool \<times> 'r" where
  "redis_del S ctx now key r = apfst reply_ok (redis_command_on S ctx now (CmdDel (c_str key)) r)"

definition redis_exists :: "'r redis_server \<Rightarrow> bool \<Rightarrow> int \<Rightarrow> string \<Rightarrow> 'r \<Rightarrow> bool \<times> 'r" where
  "redis_exists S ctx now key r = apfst (\<lambda>q. reply_integer q > 0) (redis_command_on S ctx now (CmdExists (c_str key)) r)"

definition redis_expire :: "'r redis_server \<Rightarrow> bool \<Rightarrow> int \<Rightarrow> string \<Rightarrow> int \<Rightarrow> 'r \<Rightarrow> bool \<times> 'r" where
  "redis_expire S ctx now key secs r = apfst reply_ok (redis_command_on S ctx now (CmdExpire (c_str key) secs) r)"

definition redis_incr :: "'r redis_server \<Rightarrow> bool \<Rightarrow> int \<Rightarrow> string \<Rightarrow> 'r \<Rightarrow> int \<times> 'r" where
  "redis_incr S ctx now key r = apfst reply_integer (redis_command_on S ctx now (CmdIncr (c_str key)) r)"

definition redis_lpush :: "'r redis_server \<Rightarrow> bool \<Rightarrow> int \<Rightarrow> string \<Rightarrow> string \<Rightarrow> 'r \<Rightarrow> int \<times> 'r" where
  "redis_lpush S ctx now key val r = apfst reply_integer (redis_command_on S ctx now (CmdLpush (c_str key) (c_str val)) r)"

fun string_elements :: "redis_reply list \<Rightarrow> string list" where
  "string_elements [] = []"
| "string_elements (RString s # rest) = s # string_elements rest"
| "string_elements (_ # rest) = string_elements rest"

definition redis_lrange :: "'r redis_server \<Rightarrow> bool \<Rightarrow> int \<Rightarrow> string \<Rightarrow> int \<Rightarrow> int \<Rightarrow> 'r \<Rightarrow> string list \<times> 'r" where
  "redis_lrange S ctx now key from stop r =
     apfst (\<lambda>q. case q of Some (RArray es) \<Rightarrow> string_elements es | _ \<Rightarrow> []) (redis_command_on S ctx now (CmdLrange (c_str key) from stop) r)"

definition redis_ltrim :: "'r redis_server \<Rightarrow> bool \<Rightarrow> int \<Rightarrow> string \<Rightarrow> int \<Rightarrow> int \<Rightarrow> 'r \<Rightarrow> bool \<times> 'r" where
  "redis_ltrim S ctx now key from stop r = apfst reply_ok (redis_command_on S ctx now (CmdLtrim (c_str key) from stop) r)"

section \<open>The lock\<close>

text \<open>\<^verbatim>\<open>generateToken\<close>: the clock, the counter and the random number.  The text has at most 50 characters, so \<^verbatim>\<open>snprintf\<close> cuts nothing.\<close>

definition generateToken :: "u64 \<Rightarrow> u64 \<Rightarrow> u64 \<Rightarrow> string" where
  "generateToken now c r = to_hex (unat now) @ ''-'' @ to_hex (unat c) @ ''-'' @ to_hex (unat r)"

definition release_lua :: string where
  "release_lua = ''if redis.call('' @ [CHR 0x27] @ ''GET'' @ [CHR 0x27] @ '', KEYS[1]) == ARGV[1] then return redis.call('' @ [CHR 0x27] @ ''DEL'' @
     [CHR 0x27] @ '', KEYS[1]) else return 0 end''"

text \<open>\<open>conn\<close> tells whether the pool lent a connection without error.  Tokens hold no NUL byte (lemma \<open>token_c_str\<close>).\<close>

definition trySet :: "'r redis_server \<Rightarrow> bool \<Rightarrow> int \<Rightarrow> string \<Rightarrow> string \<Rightarrow> int \<Rightarrow> 'r \<Rightarrow> bool \<times> 'r" where
  "trySet S conn now key token ttlMs r =
     (if \<not> conn then (False, r) else apfst (\<lambda>q. q = Some (RStatus ''OK'')) (S now (CmdSetNxPx (c_str key) token ttlMs) r))"

definition lock_release :: "'r redis_server \<Rightarrow> bool \<Rightarrow> int \<Rightarrow> string \<Rightarrow> string \<Rightarrow> 'r \<Rightarrow> bool \<times> 'r" where
  "lock_release S conn now key token r =
     (if token = [] then (False, r)
      else if \<not> conn then (False, r)
      else apfst (\<lambda>q. q = Some (RInteger 1)) (S now (CmdEval release_lua (c_str key) token) r))"

definition isHeldByMe :: "'r redis_server \<Rightarrow> bool \<Rightarrow> int \<Rightarrow> string \<Rightarrow> string \<Rightarrow> 'r \<Rightarrow> bool \<times> 'r" where
  "isHeldByMe S conn now key token r =
     (if token = [] then (False, r) else if \<not> conn then (False, r) else apfst (\<lambda>current. current = token) (redis_get S True now key r))"

text \<open>
  One turn of the loop of \<^verbatim>\<open>acquire\<close>: the connection, the time at the server, the steady clock read afterwards and what the others do to the server before the next
  turn.  The loop has not returned (\<open>None\<close>) when the given turns are over.
\<close>

record 'r turn =
  turn_conn :: bool
  turn_now :: int
  turn_clock :: int
  turn_others :: "'r \<Rightarrow> 'r"

fun acquire_loop :: "'r redis_server \<Rightarrow> string \<Rightarrow> string \<Rightarrow> int \<Rightarrow> int \<Rightarrow> int \<Rightarrow> 'r turn list \<Rightarrow> 'r \<Rightarrow> (string \<times> 'r) option" where
  "acquire_loop S key token ttlMs maxWaitMs deadline [] r = None"
| "acquire_loop S key token ttlMs maxWaitMs deadline (t # ts) r =
     (let (ok, r1) = trySet S (turn_conn t) (turn_now t) key token ttlMs r in
      if ok then Some (token, r1)
      else if maxWaitMs = 0 \<or> turn_clock t \<ge> deadline then Some ('''', r1)
      else acquire_loop S key token ttlMs maxWaitMs deadline ts (turn_others t r1))"

definition lock_acquire :: "'r redis_server \<Rightarrow> string \<Rightarrow> string \<Rightarrow> int \<Rightarrow> int \<Rightarrow> int \<Rightarrow> 'r turn list \<Rightarrow> 'r \<Rightarrow> (string \<times> 'r) option" where
  "lock_acquire S token key ttlMs maxWaitMs clock ts r = acquire_loop S key token ttlMs maxWaitMs (clock + maxWaitMs) ts r"

text \<open>\<^verbatim>\<open>RedlockGuard\<close>: its key and token, and the destructor.\<close>

record lock_guard =
  lg_key :: string
  lg_token :: string

definition RedlockGuard_new :: "'r redis_server \<Rightarrow> string \<Rightarrow> string \<Rightarrow> int \<Rightarrow> int \<Rightarrow> int \<Rightarrow> 'r turn list \<Rightarrow> 'r \<Rightarrow> (lock_guard \<times> 'r) option" where
  "RedlockGuard_new S token key ttlMs maxWaitMs clock ts r =
     map_option (apfst (\<lambda>tok. \<lparr>lg_key = key, lg_token = tok\<rparr>)) (lock_acquire S token key ttlMs maxWaitMs clock ts r)"

definition lg_held :: "lock_guard \<Rightarrow> bool" where
  "lg_held g \<longleftrightarrow> lg_token g \<noteq> []"

definition lg_destroy :: "'r redis_server \<Rightarrow> bool \<Rightarrow> int \<Rightarrow> lock_guard \<Rightarrow> 'r \<Rightarrow> 'r" where
  "lg_destroy S conn now g r = (if lg_token g \<noteq> [] then snd (lock_release S conn now (lg_key g) (lg_token g) r) else r)"

section \<open>What Redis promises\<close>

text \<open>
  \<open>H r t k\<close> is the value of the key at time \<open>t\<close> if no further command comes.  A command that is not answered may have been carried out or not; EVAL runs the script,
  which is \<open>lua_release\<close>, without interruption.
\<close>

type_synonym 'r redis_view = "'r \<Rightarrow> int \<Rightarrow> string \<Rightarrow> string option"

definition unchanged_at :: "'r redis_view \<Rightarrow> int \<Rightarrow> string \<Rightarrow> 'r \<Rightarrow> 'r \<Rightarrow> bool" where
  "unchanged_at H now k r r' \<longleftrightarrow> (\<forall>t \<ge> now. H r' t k = H r t k)"

definition lua_release :: "'r redis_server \<Rightarrow> int \<Rightarrow> string \<Rightarrow> string \<Rightarrow> 'r \<Rightarrow> redis_reply option \<times> 'r" where
  "lua_release S now k token r =
     (let (q, r1) = S now (CmdGet k) r in
      if q = Some (RString token) then S now (CmdDel k) r1 else (case q of Some (RError e) \<Rightarrow> (q, r1) | _ \<Rightarrow> (Some (RInteger 0), r1)))"

definition set_law :: "'r redis_server \<Rightarrow> 'r redis_view \<Rightarrow> bool" where
  "set_law S H \<longleftrightarrow> (\<forall>now k v ttl r q r'. S now (CmdSetNxPx k v ttl) r = (q, r') \<longrightarrow>
     (\<forall>k'. k' \<noteq> k \<longrightarrow> unchanged_at H now k' r r') \<and>
     ((q \<noteq> Some (RStatus ''OK'') \<and> unchanged_at H now k r r') \<or>
      (q \<in> {None, Some (RStatus ''OK'')} \<and> H r now k = None \<and> (\<forall>t \<ge> now. H r' t k = (if t < now + ttl then Some v else None)))))"

definition get_law :: "'r redis_server \<Rightarrow> 'r redis_view \<Rightarrow> bool" where
  "get_law S H \<longleftrightarrow> (\<forall>now k r q r'. S now (CmdGet k) r = (q, r') \<longrightarrow>
     (\<forall>k'. unchanged_at H now k' r r') \<and> (\<forall>v. q = Some (RString v) \<longrightarrow> H r now k = Some v))"

definition del_law :: "'r redis_server \<Rightarrow> 'r redis_view \<Rightarrow> bool" where
  "del_law S H \<longleftrightarrow> (\<forall>now k r q r'. S now (CmdDel k) r = (q, r') \<longrightarrow>
     (\<forall>k'. k' \<noteq> k \<longrightarrow> unchanged_at H now k' r r') \<and> (unchanged_at H now k r r' \<or> (\<forall>t \<ge> now. H r' t k = None)))"

definition eval_law :: "'r redis_server \<Rightarrow> bool" where
  "eval_law S \<longleftrightarrow> (\<forall>now k token r q r'. S now (CmdEval release_lua k token) r = (q, r') \<longrightarrow>
     (q, r') = lua_release S now k token r \<or> (q = None \<and> r' \<in> {r, snd (lua_release S now k token r)}))"

definition redis_laws :: "'r redis_server \<Rightarrow> 'r redis_view \<Rightarrow> bool" where
  "redis_laws S H \<longleftrightarrow> set_law S H \<and> get_law S H \<and> del_law S H \<and> eval_law S"

section \<open>Histories of the lock\<close>

text \<open>
  The clients of one server: the time, the tokens that were returned to a caller so far and the locks their holders may rely on, each until its time to live ends by the
  clock of the server.  An attempt uses a token that no acquisition has returned; a release may be of any token.
\<close>

type_synonym grant = "string \<times> string \<times> int"

inductive lock_run :: "'r redis_server \<Rightarrow> 'r \<Rightarrow> int \<Rightarrow> string set \<Rightarrow> grant list \<Rightarrow> bool" for S :: "'r redis_server" where
  run_start: "lock_run S r now {} []"
| run_try: "lock_run S r now given gs \<Longrightarrow> now \<le> now' \<Longrightarrow> token \<notin> given \<Longrightarrow> trySet S conn now' key token ttlMs r = (ok, r') \<Longrightarrow>
    lock_run S r' now' (if ok then insert token given else given) (if ok then gs @ [(c_str key, token, now' + ttlMs)] else gs)"
| run_release: "lock_run S r now given gs \<Longrightarrow> now \<le> now' \<Longrightarrow> lock_release S conn now' key token r = (ok, r') \<Longrightarrow>
    lock_run S r' now' given (filter (\<lambda>(k, tok, u). \<not> (k = c_str key \<and> tok = token)) gs)"
| run_time: "lock_run S r now given gs \<Longrightarrow> now \<le> now' \<Longrightarrow> lock_run S r now' given gs"

definition lock_inv :: "'r redis_view \<Rightarrow> 'r \<Rightarrow> int \<Rightarrow> string set \<Rightarrow> grant list \<Rightarrow> bool" where
  "lock_inv H r now given gs \<longleftrightarrow> distinct (map (fst \<circ> snd) gs) \<and> (\<forall>(k, tok, u) \<in> set gs. tok \<in> given) \<and>
     (\<forall>(k, tok, u) \<in> set gs. \<forall>t. now \<le> t \<and> t < u \<longrightarrow> H r t k = Some tok)"

section \<open>Tokens\<close>

lemma hex_char_range: "d < 16 \<Longrightarrow> hex_char d \<noteq> CHR ''-'' \<and> hex_char d \<noteq> CHR 0x00"
proof -
  assume d: "d < 16"
  have "of_char (hex_char d) \<noteq> (45 :: nat) \<and> of_char (hex_char d) \<noteq> (0 :: nat)" using of_char_hex_char [OF d] by simp
  moreover have "of_char (CHR ''-'') = (45 :: nat)" "of_char (CHR 0x00) = (0 :: nat)" by simp_all
  ultimately show ?thesis by metis
qed

lemma to_hex_range: "CHR ''-'' \<notin> set (to_hex n) \<and> CHR 0x00 \<notin> set (to_hex n)"
proof (induction n rule: to_hex.induct)
  case (1 n)
  then show ?case using hex_char_range [of n] hex_char_range [of "n mod 16"] by (cases "n < 16"; subst (1 2) to_hex.simps) auto
qed

lemma cut_at: "x \<notin> set xs \<Longrightarrow> x \<notin> set xs' \<Longrightarrow> xs @ x # ys = xs' @ x # ys' \<Longrightarrow> xs = xs' \<and> ys = ys'"
proof (induction xs arbitrary: xs')
  case Nil
  then show ?case by (cases xs') auto
next
  case (Cons a xs)
  then show ?case by (cases xs') auto
qed

lemma to_hex_inject: "to_hex m = to_hex n \<Longrightarrow> m = n"
  by (metis hex_value_to_hex)

lemma token_inject: "generateToken n c r = generateToken n' c' r' \<Longrightarrow> n = n' \<and> c = c' \<and> r = r'"
  unfolding generateToken_def using to_hex_range
  by (auto dest!: cut_at [rotated 2] to_hex_inject intro: unsigned_word_eqI)

lemma token_c_str: "c_str (generateToken n c r) = generateToken n c r \<and> generateToken n c r \<noteq> []"
proof -
  have "CHR 0x00 \<notin> set (generateToken n c r)" using to_hex_range by (simp add: generateToken_def)
  then show ?thesis unfolding c_str_def by (auto simp: takeWhile_eq_all_conv generateToken_def)
qed

section \<open>The invariant of the lock\<close>

lemma trySet_view:
  assumes "redis_laws S H" and "trySet S conn now key token ttlMs r = (ok, r')"
  shows "k \<noteq> c_str key \<Longrightarrow> unchanged_at H now k r r'"
    and "unchanged_at H now (c_str key) r r' \<or> H r now (c_str key) = None"
    and "ok \<Longrightarrow> H r now (c_str key) = None \<and> (\<forall>t \<ge> now. H r' t (c_str key) = (if t < now + ttlMs then Some token else None))"
proof -
  obtain q r1 where q: "S now (CmdSetNxPx (c_str key) token ttlMs) r = (q, r1)" by fastforce
  have laws: "set_law S H" using assms(1) by (simp add: redis_laws_def)
  have "(\<forall>k'. k' \<noteq> c_str key \<longrightarrow> unchanged_at H now k' r r1) \<and>
     ((q \<noteq> Some (RStatus ''OK'') \<and> unchanged_at H now (c_str key) r r1) \<or>
      (q \<in> {None, Some (RStatus ''OK'')} \<and> H r now (c_str key) = None \<and>
       (\<forall>t \<ge> now. H r1 t (c_str key) = (if t < now + ttlMs then Some token else None))))"
    using laws q unfolding set_law_def by blast
  moreover have "conn \<Longrightarrow> r' = r1 \<and> ok = (q = Some (RStatus ''OK''))" "\<not> conn \<Longrightarrow> r' = r \<and> \<not> ok"
    using assms(2) q by (auto simp: trySet_def)
  ultimately show "k \<noteq> c_str key \<Longrightarrow> unchanged_at H now k r r'"
    and "unchanged_at H now (c_str key) r r' \<or> H r now (c_str key) = None"
    and "ok \<Longrightarrow> H r now (c_str key) = None \<and> (\<forall>t \<ge> now. H r' t (c_str key) = (if t < now + ttlMs then Some token else None))"
    by (cases conn; auto simp: unchanged_at_def)+
qed

lemma lua_release_view:
  assumes "redis_laws S H" and "r' \<in> {r, snd (lua_release S now k token r)}"
  shows "k' \<noteq> k \<Longrightarrow> unchanged_at H now k' r r'" and "unchanged_at H now k r r' \<or> H r now k = Some token"
proof -
  obtain q r1 where q: "S now (CmdGet k) r = (q, r1)" by fastforce
  obtain d r2 where d: "S now (CmdDel k) r1 = (d, r2)" by fastforce
  have g: "\<forall>k'. unchanged_at H now k' r r1" "q = Some (RString token) \<Longrightarrow> H r now k = Some token"
    using assms(1) q unfolding redis_laws_def get_law_def by blast+
  have e: "\<forall>k'. k' \<noteq> k \<longrightarrow> unchanged_at H now k' r1 r2" using assms(1) d unfolding redis_laws_def del_law_def by blast
  have "r' = r \<or> r' = r1 \<or> (q = Some (RString token) \<and> r' = r2)"
    using assms(2) q d by (auto simp: lua_release_def split: if_splits option.splits redis_reply.splits)
  then show "k' \<noteq> k \<Longrightarrow> unchanged_at H now k' r r'" and "unchanged_at H now k r r' \<or> H r now k = Some token"
    using g e by (auto simp: unchanged_at_def)
qed

lemma release_view:
  assumes "redis_laws S H" and "lock_release S conn now key token r = (ok, r')"
  shows "k \<noteq> c_str key \<Longrightarrow> unchanged_at H now k r r'" and "unchanged_at H now (c_str key) r r' \<or> H r now (c_str key) = Some token"
proof -
  obtain q r1 where q: "S now (CmdEval release_lua (c_str key) token) r = (q, r1)" by fastforce
  have "(q, r1) = lua_release S now (c_str key) token r \<or> (q = None \<and> r1 \<in> {r, snd (lua_release S now (c_str key) token r)})"
    using assms(1) q unfolding redis_laws_def eval_law_def by blast
  then have "r1 \<in> {r, snd (lua_release S now (c_str key) token r)}" by (metis insertCI snd_conv)
  moreover have "r' = r \<or> r' = r1" using assms(2) q by (auto simp: lock_release_def split: if_splits)
  ultimately have "r' \<in> {r, snd (lua_release S now (c_str key) token r)}" by blast
  from lua_release_view [OF assms(1) this]
  show "k \<noteq> c_str key \<Longrightarrow> unchanged_at H now k r r'" and "unchanged_at H now (c_str key) r r' \<or> H r now (c_str key) = Some token" by blast+
qed

lemma lock_invI:
  assumes "distinct (map (fst \<circ> snd) gs)" and "\<And>k tok u. (k, tok, u) \<in> set gs \<Longrightarrow> tok \<in> given"
    and "\<And>k tok u t. (k, tok, u) \<in> set gs \<Longrightarrow> now \<le> t \<Longrightarrow> t < u \<Longrightarrow> H r t k = Some tok"
  shows "lock_inv H r now given gs"
  unfolding lock_inv_def using assms by blast

lemma lock_invD:
  assumes "lock_inv H r now given gs"
  shows "distinct (map (fst \<circ> snd) gs)" and "(k, tok, u) \<in> set gs \<Longrightarrow> tok \<in> given"
    and "(k, tok, u) \<in> set gs \<Longrightarrow> now \<le> t \<Longrightarrow> t < u \<Longrightarrow> H r t k = Some tok"
  using assms unfolding lock_inv_def by blast+

lemma lock_inv_time: "lock_inv H r now given gs \<Longrightarrow> now \<le> now' \<Longrightarrow> lock_inv H r now' given gs"
  unfolding lock_inv_def by fastforce

text \<open>A change of one key, at which every lock still relied on has gone, keeps the invariant.\<close>

lemma lock_inv_change:
  assumes "lock_inv H r now given gs" and "\<And>k. k \<noteq> key \<Longrightarrow> unchanged_at H now k r r'"
    and "unchanged_at H now key r r' \<or> (\<forall>(k, tok, u) \<in> set gs. k = key \<longrightarrow> u \<le> now)"
  shows "lock_inv H r' now given gs"
proof (rule lock_invI)
  show "distinct (map (fst \<circ> snd) gs)" by (rule lock_invD(1) [OF assms(1)])
next
  fix k tok u assume "(k, tok, u) \<in> set gs"
  then show "tok \<in> given" by (rule lock_invD(2) [OF assms(1)])
next
  fix k tok u t assume g: "(k, tok, u) \<in> set gs" and t: "now \<le> t" "t < u"
  have "unchanged_at H now k r r'" using assms(2,3) g t by (cases "k = key") fastforce+
  then show "H r' t k = Some tok" using lock_invD(3) [OF assms(1) g t] t(1) by (simp add: unchanged_at_def)
qed

lemma lock_inv_filter: "lock_inv H r now given gs \<Longrightarrow> lock_inv H r now given (filter P gs)"
  by (rule lock_invI) (auto dest: lock_invD simp: distinct_map_filter)

lemma lock_run_inv:
  assumes "redis_laws S H" and "lock_run S r now given gs"
  shows "lock_inv H r now given gs"
  using assms(2)
proof (induction rule: lock_run.induct)
  case (run_start r now)
  then show ?case by (simp add: lock_inv_def)
next
  case (run_try r now given gs now' token conn key ttlMs ok r')
  let ?k = "c_str key"
  note v = trySet_view [OF assms(1) run_try.hyps(4)]
  have i: "lock_inv H r now' given gs" by (rule lock_inv_time [OF run_try.IH run_try.hyps(2)])
  have expired: "u \<le> now'" if "H r now' ?k = None" and "(?k, tok, u) \<in> set gs" for tok u
    using lock_invD(3) [OF i that(2), of now'] that(1) by fastforce
  have i': "lock_inv H r' now' given gs"
    by (rule lock_inv_change [OF i, of ?k]) (use v(1,2) expired in blast)+
  show ?case
  proof (cases ok)
    case True
    have fresh: "token \<notin> (fst \<circ> snd) ` set gs" using lock_invD(2) [OF i] run_try.hyps(3) by fastforce
    have "lock_inv H r' now' (insert token given) (gs @ [(?k, token, now' + ttlMs)])"
      by (rule lock_invI) (use fresh lock_invD [OF i'] v(3) [OF True] in \<open>auto\<close>)
    then show ?thesis using True by simp
  next
    case False
    then show ?thesis using i' by simp
  qed
next
  case (run_release r now given gs now' conn key token ok r')
  let ?k = "c_str key"
  let ?gs = "filter (\<lambda>(k, tok, u). \<not> (k = ?k \<and> tok = token)) gs"
  note v = release_view [OF assms(1) run_release.hyps(3)]
  have i: "lock_inv H r now' given gs" by (rule lock_inv_time [OF run_release.IH run_release.hyps(2)])
  have "u \<le> now'" if "H r now' ?k = Some token" and "(?k, tok, u) \<in> set ?gs" for tok u
    using lock_invD(3) [OF i, of ?k tok u now'] that by fastforce
  then have expired: "H r now' ?k = Some token \<Longrightarrow> \<forall>(k, tok, u) \<in> set ?gs. k = ?k \<longrightarrow> u \<le> now'" by blast
  show ?case by (rule lock_inv_change [OF lock_inv_filter [OF i], of ?k]) (use v expired in blast)+
next
  case (run_time r now given gs now')
  then show ?case by (blast intro: lock_inv_time)
qed

section \<open>A server that keeps the laws\<close>

text \<open>Each key with its value and the end of its life; commands the lock does not use answer with an error.\<close>

type_synonym lived = "string \<Rightarrow> (string \<times> int) option"

definition lived_view :: "lived redis_view" where
  "lived_view r t k = (case r k of None \<Rightarrow> None | Some (v, e) \<Rightarrow> if t < e then Some v else None)"

fun lived_server :: "lived redis_server" where
  "lived_server now (CmdGet k) r = (case lived_view r now k of None \<Rightarrow> (Some RNil, r) | Some v \<Rightarrow> (Some (RString v), r))"
| "lived_server now (CmdSetNxPx k v ttl) r =
     (if ttl \<le> 0 then (Some (RError ''ERR invalid expire time''), r)
      else if lived_view r now k = None then (Some (RStatus ''OK''), r(k \<mapsto> (v, now + ttl))) else (Some RNil, r))"
| "lived_server now (CmdDel k) r = (if lived_view r now k = None then (Some (RInteger 0), r) else (Some (RInteger 1), r(k := None)))"
| "lived_server now (CmdEval script k token) r =
     (if script = release_lua
      then if lived_view r now k = Some token then (Some (RInteger 1), r(k := None)) else (Some (RInteger 0), r)
      else (Some (RError ''ERR''), r))"
| "lived_server now c r = (Some (RError ''ERR''), r)"

lemma lived_laws: "redis_laws lived_server lived_view"
proof -
  have "set_law lived_server lived_view"
    unfolding set_law_def unchanged_at_def by (auto simp: lived_view_def split: if_splits)
  moreover have "get_law lived_server lived_view"
    unfolding get_law_def unchanged_at_def by (auto split: option.splits)
  moreover have "del_law lived_server lived_view"
    unfolding del_law_def unchanged_at_def by (auto simp: lived_view_def split: if_splits)
  moreover have "eval_law lived_server"
    unfolding eval_law_def lua_release_def by (auto split: option.splits)
  ultimately show ?thesis by (simp add: redis_laws_def)
qed

section \<open>Properties\<close>

text \<open>
  (C40) The lock is exclusive: in every history of attempts and releases of any number of clients, with lost replies, failing connections and releases of expired or foreign tokens,
  two clients that both hold a lock of one key whose time to live has not ended at the server are the same client.
\<close>

theorem redlock_mutual_exclusion:
  assumes "redis_laws S H" and "lock_run S r now given gs"
    and "(k, tok1, u1) \<in> set gs" and "(k, tok2, u2) \<in> set gs" and "now < u1" and "now < u2"
  shows "tok1 = tok2 \<and> u1 = u2 \<and> H r now k = Some tok1"
proof -
  have i: "lock_inv H r now given gs" by (rule lock_run_inv [OF assms(1,2)])
  have h: "H r now k = Some tok1" "H r now k = Some tok2"
    using lock_invD(3) [OF i assms(3), of now] lock_invD(3) [OF i assms(4), of now] assms(5,6) by auto
  then have "tok1 = tok2" by simp
  moreover have "inj_on (fst \<circ> snd) (set gs)" using lock_invD(1) [OF i] by (simp add: distinct_map)
  ultimately have "(k, tok1, u1) = (k, tok2, u2)" using assms(3,4) inj_onD [of "fst \<circ> snd" "set gs" "(k, tok1, u1)" "(k, tok2, u2)"] by simp
  then show ?thesis using h by simp
qed

theorem redlock_mutual_exclusion_witness:
  "\<exists>r. lock_run lived_server r 10 {''a-1-f''} [(''K'', ''a-1-f'', 15)] \<and> lived_view r 10 ''K'' = Some ''a-1-f'' \<and>
     fst (trySet lived_server True 12 ''K'' ''b-2-7'' 5 r) = False"
proof -
  obtain ok r where t: "trySet lived_server True 10 ''K'' ''a-1-f'' 5 (\<lambda>_. None) = (ok, r)" by fastforce
  then have r: "ok" "r = (\<lambda>_. None)(''K'' \<mapsto> (''a-1-f'', 15))" by (auto simp: trySet_def c_str_def lived_view_def)
  have run: "lock_run lived_server r 10 {''a-1-f''} [(''K'', ''a-1-f'', 15)]"
    using run_try [OF run_start [of lived_server "\<lambda>_. None" 10] _ _ t] r(1) by (simp add: c_str_def)
  have "lived_view r 10 ''K'' = Some ''a-1-f''"
    using redlock_mutual_exclusion [OF lived_laws run, of "''K''" "''a-1-f''" 15 "''a-1-f''" 15] by simp
  moreover have "fst (trySet lived_server True 12 ''K'' ''b-2-7'' 5 r) = False"
    by (simp add: trySet_def c_str_def lived_view_def r(2))
  ultimately show ?thesis using run by blast
qed

lemma acquire_loop_returns:
  "\<exists>t \<in> set ts. turn_clock t \<ge> deadline \<Longrightarrow> \<exists>res. acquire_loop S key token ttlMs maxWaitMs deadline ts r = Some res"
  by (induction ts arbitrary: r) (auto simp: Let_def split: prod.splits)

lemma acquire_loop_result:
  "acquire_loop S key token ttlMs maxWaitMs deadline ts r = Some (tok, r') \<Longrightarrow>
   tok = '''' \<or> (tok = token \<and> (\<exists>t \<in> set ts. \<exists>r1. trySet S (turn_conn t) (turn_now t) key token ttlMs r1 = (True, r')))"
  by (induction ts arbitrary: r) (auto simp: Let_def split: prod.splits if_splits)

text \<open>
  A waiting acquisition ends: when each turn begins at least the retry interval after the one before, the loop returns as soon as the
  waiting time fits into the intervals between the turns, whatever the server and the other clients do.  It returns the token only after the server has accepted it.
\<close>

theorem acquire_returns:
  assumes "ts \<noteq> []" and "\<forall>i < length ts. turn_clock (ts ! i) \<ge> clock + int i * retryMs" and "maxWaitMs \<le> int (length ts - 1) * retryMs"
  shows "\<exists>tok r'. lock_acquire S token key ttlMs maxWaitMs clock ts r = Some (tok, r') \<and>
    (tok = '''' \<or> (tok = token \<and> (\<exists>t \<in> set ts. \<exists>r1. trySet S (turn_conn t) (turn_now t) key token ttlMs r1 = (True, r'))))"
proof -
  let ?i = "length ts - 1"
  have "?i < length ts" using assms(1) by (cases ts) auto
  moreover have "turn_clock (ts ! ?i) \<ge> clock + maxWaitMs" using assms(2,3) calculation by fastforce
  ultimately have "\<exists>t \<in> set ts. turn_clock t \<ge> clock + maxWaitMs" using nth_mem by blast
  from acquire_loop_returns [OF this] obtain tok r' where
    a: "acquire_loop S key token ttlMs maxWaitMs (clock + maxWaitMs) ts r = Some (tok, r')" by fastforce
  show ?thesis unfolding lock_acquire_def using a acquire_loop_result [OF a] by blast
qed

theorem acquire_returns_witness:
  "(let busy = (\<lambda>_. None)(''K'' \<mapsto> (''x'', 99)); t = (\<lambda>n. \<lparr>turn_conn = True, turn_now = n, turn_clock = n, turn_others = id\<rparr>) in
     lock_acquire lived_server ''a-1-f'' ''K'' 5 20 0 [t 0, t 10, t 20] busy = Some ('''', busy))"
proof -
  define t :: "int \<Rightarrow> lived turn" where "t n = \<lparr>turn_conn = True, turn_now = n, turn_clock = n, turn_others = id\<rparr>" for n
  let ?busy = "(\<lambda>_. None)(''K'' \<mapsto> (''x'', 99 :: int))"
  have clocks: "\<forall>i < length [t 0, t 10, t 20]. turn_clock ([t 0, t 10, t 20] ! i) \<ge> 0 + int i * 10"
    by (simp add: less_Suc_eq t_def)
  obtain tok r' where a: "lock_acquire lived_server ''a-1-f'' ''K'' 5 20 0 [t 0, t 10, t 20] ?busy = Some (tok, r')"
    using acquire_returns [OF _ clocks, of 20 lived_server "''a-1-f''" "''K''" 5 ?busy] by auto
  moreover from a have "tok = ''''" "r' = ?busy" by (auto simp: lock_acquire_def trySet_def c_str_def lived_view_def t_def)
  ultimately show ?thesis by (simp add: Let_def t_def)
qed

text \<open>An answer of SET that is lost leaves the key locked under a token that no caller holds: the next turn with the same token fails too.\<close>

lemma lost_reply_blocks:
  assumes "redis_laws S H" and "S now (CmdSetNxPx (c_str key) token ttlMs) r = (None, r')" and "H r' now (c_str key) = Some token"
    and "trySet S conn now key token ttlMs r' = (ok, r2)"
  shows "\<not> ok"
  using trySet_view(3) [OF assms(1,4)] assms(3) by auto

end
